(* ===== verification/Prelude.thy ===== *)
theory Prelude
  imports
    Main
    "HOL-Library.Word"
    "HOL-Library.Multiset"
    "HOL-Library.AList"
    "HOL-Library.Char_ord"
    "HOL-Library.List_Lexorder"
begin

text \<open>
  Shared vocabulary of the development: the Go types the components are written in, the
  lemma collections, the generic facts on association lists and lists of timed entries, and
  the two interfaces that several components offer: a machine that keeps an invariant over
  a run, and a register that only moves up.
\<close>

section \<open>Types\<close>

text \<open>
  Go's \<open>uint64\<close> and \<open>uint32\<close> are words, so \<open>+\<close> and \<open>-\<close> wrap as they do in the
  code. A Go \<open>string\<close> and a \<open>[]byte\<close> are byte sequences; an Isabelle \<open>char\<close> is a byte.
  A \<open>time.Time\<close> is its number of nanoseconds since the Unix epoch and a
  \<open>time.Duration\<close> a number of nanoseconds.
\<close>

type_synonym u64 = "64 word"
type_synonym u32 = "32 word"
type_synonym u8 = "8 word"
type_synonym bytes = string
type_synonym gotime = int
type_synonym duration = int

abbreviation second :: duration where
  "second \<equiv> 1000000000"

text \<open>\<open>Time.Sub\<close> saturates at the ends of the 64-bit \<open>Duration\<close>.\<close>

definition time_sub :: "gotime \<Rightarrow> gotime \<Rightarrow> duration" where
  "time_sub t u = max (- (2 ^ 63)) (min (2 ^ 63 - 1) (t - u))"

lemma time_sub_nonneg: "u \<le> t \<Longrightarrow> 0 \<le> time_sub t u"
  by (auto simp: time_sub_def)

lemma time_sub_le: "u \<le> t \<Longrightarrow> time_sub t u \<le> t - u"
  by (auto simp: time_sub_def)

lemma time_sub_refl [simp]: "time_sub t t = 0"
  by (simp add: time_sub_def)

lemma time_sub_exact: "\<bar>t - u\<bar> < 2 ^ 63 \<Longrightarrow> time_sub t u = t - u"
  by (auto simp: time_sub_def)

text \<open>
  A Go map is an association list without repeated keys, read with \<open>map_of\<close> and written
  with \<open>AList.update\<close> and \<open>AList.delete\<close>. Go iterates over a map in an unspecified
  order: where the result depends on that order, the operation takes the order (or the
  sorting function applied afterwards) as an argument.
\<close>

type_synonym ('k, 'v) gomap = "('k \<times> 'v) list"

abbreviation keys :: "('k, 'v) gomap \<Rightarrow> 'k list" where
  "keys m \<equiv> List.map fst m"

definition map_ok :: "('k, 'v) gomap \<Rightarrow> bool" where
  "map_ok m \<longleftrightarrow> distinct (keys m)"

text \<open>Reading an absent key of a Go map gives the zero value of the element type.\<close>

definition get0 :: "('k, 'v::zero) gomap \<Rightarrow> 'k \<Rightarrow> 'v" where
  "get0 m k = (case map_of m k of None \<Rightarrow> 0 | Some v \<Rightarrow> v)"

text \<open>A run-time panic of the Go program.\<close>

datatype panic = IndexOutOfRange | DivideByZero | NegativeLength | NilDereference

text \<open>The answer to an HTTP request: a transport error, or a status.\<close>

datatype http_answer = NetError | Status nat

section \<open>Lemma collections\<close>

named_theorems machine_simps \<open>one-step equations of the state machines\<close>
named_theorems map_simps \<open>association lists read as maps\<close>

section \<open>Association lists\<close>

lemma map_ok_Nil [simp]: "map_ok []"
  by (simp add: map_ok_def)

lemma map_ok_update [simp]: "map_ok m \<Longrightarrow> map_ok (AList.update k v m)"
  by (simp add: map_ok_def distinct_update)

lemma map_ok_delete [simp]: "map_ok m \<Longrightarrow> map_ok (AList.delete k m)"
  by (simp add: map_ok_def distinct_delete)

lemma map_ok_filter [simp]: "map_ok m \<Longrightarrow> map_ok (filter P m)"
  by (simp add: map_ok_def distinct_map_filter)

lemma map_of_update [map_simps]: "map_of (AList.update k v m) = (map_of m)(k \<mapsto> v)"
  by (rule update_conv')

lemma map_of_delete [map_simps]: "map_of (AList.delete k m) = (map_of m)(k := None)"
  by (rule delete_conv')

lemma get0_update [simp]: "get0 (AList.update k v m) k' = (if k' = k then v else get0 m k')"
  by (simp add: get0_def map_simps)

lemma get0_delete [simp]: "get0 (AList.delete k m) k' = (if k' = k then 0 else get0 m k')"
  by (simp add: get0_def map_simps)

lemma get0_Nil [simp]: "get0 [] k = 0"
  by (simp add: get0_def)

lemma map_of_filter_val:
  "map_ok m \<Longrightarrow> map_of (filter (\<lambda>(k, v). P k v) m) k =
     (case map_of m k of None \<Rightarrow> None | Some v \<Rightarrow> if P k v then Some v else None)"
  by (induction m) (auto simp: map_ok_def map_of_eq_None_iff split: option.splits)

lemma map_of_in_set: "map_ok m \<Longrightarrow> (k, v) \<in> set m \<longleftrightarrow> map_of m k = Some v"
  by (simp add: map_ok_def)

section \<open>Runs of a machine\<close>

text \<open>
  A component with state is a function from an event and a state to the next state; a run
  is \<open>fold step es s\<close>. \<open>run_ok\<close> says that each event of the run is one the environment
  may send in the state it finds.
\<close>

fun run_ok :: "('e \<Rightarrow> 's \<Rightarrow> bool) \<Rightarrow> ('e \<Rightarrow> 's \<Rightarrow> 's) \<Rightarrow> 'e list \<Rightarrow> 's \<Rightarrow> bool" where
  "run_ok ok step [] s = True"
| "run_ok ok step (e # es) s = (ok e s \<and> run_ok ok step es (step e s))"

lemma run_ok_append [simp]:
  "run_ok ok step (es @ fs) s \<longleftrightarrow> run_ok ok step es s \<and> run_ok ok step fs (fold step es s)"
  by (induction es arbitrary: s) auto

lemma run_ok_True [simp]: "run_ok (\<lambda>_ _. True) step es s"
  by (induction es arbitrary: s) auto

locale machine =
  fixes step :: "'e \<Rightarrow> 's \<Rightarrow> 's"
    and ok :: "'e \<Rightarrow> 's \<Rightarrow> bool"
    and inv :: "'s \<Rightarrow> bool"
  assumes step_inv: "inv s \<Longrightarrow> ok e s \<Longrightarrow> inv (step e s)"
begin

lemma run_inv: "inv s \<Longrightarrow> run_ok ok step es s \<Longrightarrow> inv (fold step es s)"
  by (induction es arbitrary: s) (auto intro: step_inv)

end

text \<open>A machine whose observation never goes down along a run.\<close>

locale rising_machine = machine +
  fixes obs :: "'s \<Rightarrow> 'o::order"
  assumes step_rises: "inv s \<Longrightarrow> ok e s \<Longrightarrow> obs s \<le> obs (step e s)"
begin

lemma run_rises: "inv s \<Longrightarrow> run_ok ok step es s \<Longrightarrow> obs s \<le> obs (fold step es s)"
proof (induction es arbitrary: s)
  case Nil
  then show ?case by simp
next
  case (Cons e es)
  then have "obs s \<le> obs (step e s)" and "inv (step e s)"
    by (auto intro: step_rises step_inv)
  with Cons show ?case by (auto intro: order_trans)
qed

end

section \<open>Registers that only move up\<close>

text \<open>
  Several parts keep the highest epoch they have met. A request carries a number
  (\<open>num\<close>); observing it raises the register to at least that number.
\<close>

locale max_register =
  fixes observe :: "'r \<Rightarrow> 's \<Rightarrow> 's"
    and num :: "'r \<Rightarrow> 'e::linorder"
    and current :: "'s \<Rightarrow> 'e"
  assumes current_observe: "current (observe r s) = max (current s) (num r)"
begin

lemma current_run: "current (fold observe rs s) = fold max (List.map num rs) (current s)"
  by (induction rs arbitrary: s) (simp_all add: current_observe max.commute)

lemma current_run_ge: "current s \<le> current (fold observe rs s)"
proof (induction rs arbitrary: s)
  case Nil
  then show ?case by simp
next
  case (Cons r rs)
  have "current s \<le> current (observe r s)" by (simp add: current_observe)
  also have "\<dots> \<le> current (fold observe rs (observe r s))" by (rule Cons.IH)
  finally show ?case by simp
qed

lemma observed_le: "r \<in> set rs \<Longrightarrow> num r \<le> current (fold observe rs s)"
proof (induction rs arbitrary: s)
  case Nil
  then show ?case by simp
next
  case (Cons q rs)
  have "num q \<le> current (fold observe (q # rs) s)"
    using current_run_ge [of "observe q s" rs] by (simp add: current_observe)
  with Cons show ?case by auto
qed

end

text \<open>A fence answers a request with whether its number is still current.\<close>

fun accepted :: "('r \<Rightarrow> 's \<Rightarrow> bool \<times> 's) \<Rightarrow> 'r list \<Rightarrow> 's \<Rightarrow> 'r list" where
  "accepted check [] s = []"
| "accepted check (r # rs) s =
     (let (ok, s') = check r s in (if ok then [r] else []) @ accepted check rs s')"

locale fence =
  fixes check :: "'r \<Rightarrow> 's \<Rightarrow> bool \<times> 's"
    and num :: "'r \<Rightarrow> 'e::linorder"
    and current :: "'s \<Rightarrow> 'e"
  assumes check_iff: "fst (check r s) \<longleftrightarrow> current s \<le> num r"
    and current_check: "current (snd (check r s)) = max (current s) (num r)"
begin

sublocale max_register "\<lambda>r s. snd (check r s)" num current
  by unfold_locales (rule current_check)

lemma stale_rejected:
  assumes "num r' < num r"
  shows "\<not> fst (check r' (fold (\<lambda>r s. snd (check r s)) rs (snd (check r s))))"
proof -
  have "num r \<le> current (snd (check r s))" by (simp add: current_check)
  also have "\<dots> \<le> current (fold (\<lambda>r s. snd (check r s)) rs (snd (check r s)))"
    by (rule current_run_ge)
  finally show ?thesis using assms by (simp add: check_iff)
qed

lemma accepted_sorted:
  "sorted (current s # List.map num (accepted check rs s))"
proof (induction rs arbitrary: s)
  case Nil
  then show ?case by simp
next
  case (Cons r rs)
  from Cons.IH [of "snd (check r s)"] show ?case
    by (auto simp: case_prod_beta current_check check_iff max_def split: if_splits)
qed

end

section \<open>Lists\<close>

lemma sorted_wrt_filter_drop:
  assumes "sorted_wrt (\<le>) (List.map f xs)"
  shows "dropWhile (\<lambda>x. f x < c) xs = filter (\<lambda>x. \<not> f x < (c::'a::linorder)) xs"
  using assms
proof (induction xs)
  case Nil
  then show ?case by simp
next
  case (Cons x xs)
  show ?case
  proof (cases "f x < c")
    case True
    with Cons show ?thesis by simp
  next
    case False
    with Cons.prems have "\<forall>y\<in>set xs. \<not> f y < c" by auto
    then have "filter (\<lambda>x. \<not> f x < c) xs = xs" by simp
    with False show ?thesis by simp
  qed
qed

lemma sorted_wrt_filter_take:
  assumes "sorted_wrt (\<le>) (List.map f xs)"
  shows "takeWhile (\<lambda>x. f x < c) xs = filter (\<lambda>x. f x < (c::'a::linorder)) xs"
  using assms
proof (induction xs)
  case Nil
  then show ?case by simp
next
  case (Cons x xs)
  show ?case
  proof (cases "f x < c")
    case True
    with Cons show ?thesis by simp
  next
    case False
    with Cons.prems have "\<forall>y\<in>set xs. \<not> f y < c" by auto
    then have "filter (\<lambda>x. f x < c) xs = []" by (simp add: filter_empty_conv)
    with False show ?thesis by simp
  qed
qed

lemma filter_eq_drop:
  "(\<And>j. j < length xs \<Longrightarrow> P (xs ! j) \<longleftrightarrow> k \<le> j) \<Longrightarrow> filter P xs = drop k xs"
proof (induction xs arbitrary: k)
  case Nil
  then show ?case by simp
next
  case (Cons x xs)
  have "filter P xs = drop (k - 1) xs"
  proof (rule Cons.IH)
    fix j assume "j < length xs"
    with Cons.prems [of "Suc j"] show "P (xs ! j) \<longleftrightarrow> k - 1 \<le> j" by auto
  qed
  with Cons.prems [of 0] show ?case by (cases k) auto
qed

lemma count_list_le_length: "count_list xs x \<le> length xs"
  by (induction xs) auto

text \<open>Words that count things: below \<open>2 ^ 64\<close> the conversion from \<open>nat\<close> is exact.\<close>

lemma unat_of_nat_u64: "n < 2 ^ 64 \<Longrightarrow> unat (of_nat n :: u64) = n"
  unfolding unat_of_nat by (rule mod_less) simp

lemma of_nat_eq_0_u64: "n < 2 ^ 64 \<Longrightarrow> (of_nat n :: u64) = 0 \<longleftrightarrow> n = 0"
  using unat_of_nat_u64 [of n] by (auto simp del: unat_of_nat)

end
