(* ===== verification/RateLimit.thy ===== *)
theory RateLimit
  imports Complex_Main Prelude "HOL-Library.Signed_Division"
begin

text \<open>
  \<open>internal/ratelimit/ratelimit.go\<close>: the token bucket and the per-key map of buckets
  the gateway asks before it forwards a write.

  The \<open>float64\<close> arithmetic is exact rational arithmetic followed by a rounding function
  \<open>rnd\<close>, an argument of every operation. The safety properties hold for every monotone
  rounding that is exact on the integers a \<open>float64\<close> represents (\<open>float64_rounding\<close>);
  the rate bound is stated for exact arithmetic.

  Each lock of the code guards one atomic step. \<open>Map.Allow\<close> holds the lock of the map while
  it looks up or makes the bucket, and gives it back before it takes the lock of the
  bucket: these are two steps, \<open>map_lookup\<close> and \<open>take_token\<close>, and the sweeper may come in
  between. A request keeps a pointer to its bucket, so buckets live in a heap.
\<close>

section \<open>Floating point and durations\<close>

definition float64_rounding :: "(rat \<Rightarrow> rat) \<Rightarrow> bool" where
  "float64_rounding rnd \<longleftrightarrow> mono rnd \<and> (\<forall>z. \<bar>z\<bar> \<le> 2 ^ 53 \<longrightarrow> rnd (of_int z) = of_int z)"

text \<open>Exact arithmetic: no rounding at all.\<close>

definition exact :: "rat \<Rightarrow> rat" where
  "exact x = x"

lemma exact_apply: "exact x = x"
  by (rule exact_def)

text \<open>\<open>Duration.Seconds\<close> converts the whole seconds and the rest separately.\<close>

definition seconds :: "(rat \<Rightarrow> rat) \<Rightarrow> duration \<Rightarrow> rat" where
  "seconds rnd d =
     rnd (rnd (of_int (d sdiv second)) + rnd (rnd (of_int (d smod second)) / 1000000000))"

section \<open>The bucket\<close>

record bucket =
  tokens :: rat
  bk_rate :: rat
  bk_burst :: rat
  last_time :: gotime

definition bucket_new :: "(rat \<Rightarrow> rat) \<Rightarrow> gotime \<Rightarrow> rat \<Rightarrow> int \<Rightarrow> bucket" where
  "bucket_new rnd now rate burst =
     \<lparr>tokens = rnd (of_int burst), bk_rate = rate, bk_burst = rnd (of_int burst),
      last_time = now\<rparr>"

definition refill :: "(rat \<Rightarrow> rat) \<Rightarrow> gotime \<Rightarrow> bucket \<Rightarrow> bucket" where
  "refill rnd now b = b\<lparr>tokens := min (bk_burst b)
       (rnd (tokens b + rnd (seconds rnd (time_sub now (last_time b)) * bk_rate b))),
     last_time := now\<rparr>"

definition bucket_allow :: "(rat \<Rightarrow> rat) \<Rightarrow> gotime \<Rightarrow> bucket \<Rightarrow> bool \<times> bucket" where
  "bucket_allow rnd now b =
     (let b' = refill rnd now b
      in if tokens b' < 1 then (False, b')
         else (True, b'\<lparr>tokens := rnd (tokens b' - 1)\<rparr>))"

definition bucket_full :: "(rat \<Rightarrow> rat) \<Rightarrow> gotime \<Rightarrow> bucket \<Rightarrow> bool \<times> bucket" where
  "bucket_full rnd now b =
     (let b' = refill rnd now b in (tokens b' \<ge> bk_burst b', b'))"

text \<open>A sequence of requests to one bucket at the given clock readings.\<close>

fun bucket_run :: "(rat \<Rightarrow> rat) \<Rightarrow> gotime list \<Rightarrow> bucket \<Rightarrow> bool list \<times> bucket" where
  "bucket_run rnd [] b = ([], b)"
| "bucket_run rnd (t # ts) b =
     (let (ok, b') = bucket_allow rnd t b; (oks, b'') = bucket_run rnd ts b' in (ok # oks, b''))"

section \<open>The map of buckets\<close>

text \<open>
  \<open>lm_m\<close> is the map from keys to pointers; \<open>lm_heap\<close> holds every bucket made so far, and a
  pointer is its index. A bucket that was swept out of the map stays in the heap for the
  requests that still have its pointer.
\<close>

record limiter =
  lm_rate :: rat
  lm_burst :: int
  lm_m :: "(string, nat) gomap"
  lm_heap :: "bucket list"

definition new_map :: "rat \<Rightarrow> int \<Rightarrow> limiter" where
  "new_map rate burst = \<lparr>lm_rate = rate, lm_burst = burst, lm_m = [], lm_heap = []\<rparr>"

text \<open>
  \<open>Map.Allow\<close> up to the bucket: a hit is decided under the read lock, a miss by the second
  look under the write lock.
\<close>

definition map_lookup :: "(rat \<Rightarrow> rat) \<Rightarrow> gotime \<Rightarrow> string \<Rightarrow> limiter \<Rightarrow> nat \<times> limiter" where
  "map_lookup rnd now key m =
     (case map_of (lm_m m) key of
        Some n \<Rightarrow> (n, m)
      | None \<Rightarrow>
          (let n = length (lm_heap m)
           in (n, m\<lparr>lm_m := AList.update key n (lm_m m),
                    lm_heap := lm_heap m @ [bucket_new rnd now (lm_rate m) (lm_burst m)]\<rparr>)))"

text \<open>The call \<open>b.Allow()\<close> at its end, through the pointer.\<close>

definition take_token :: "(rat \<Rightarrow> rat) \<Rightarrow> gotime \<Rightarrow> nat \<Rightarrow> limiter \<Rightarrow> bool \<times> limiter" where
  "take_token rnd now n m =
     (let (ok, b) = bucket_allow rnd now (lm_heap m ! n) in (ok, m\<lparr>lm_heap := (lm_heap m)[n := b]\<rparr>))"

text \<open>
  The body of the sweeper's loop for one key. Between two keys only requests that have
  their pointer already can come in, because the sweeper holds the lock of the map; the
  machine below also lets lookups in, which only adds runs.
\<close>

definition sweep_visit :: "(rat \<Rightarrow> rat) \<Rightarrow> gotime \<Rightarrow> string \<Rightarrow> limiter \<Rightarrow> limiter" where
  "sweep_visit rnd now key m =
     (case map_of (lm_m m) key of
        None \<Rightarrow> m
      | Some n \<Rightarrow>
          (let (full, b) = bucket_full rnd now (lm_heap m ! n);
               m1 = m\<lparr>lm_heap := (lm_heap m)[n := b]\<rparr>
           in if full then m1\<lparr>lm_m := AList.delete key (lm_m m1)\<rparr> else m1))"

section \<open>Rounding and elapsed time\<close>

lemma float64_rounding_id: "float64_rounding exact"
  by (simp add: float64_rounding_def mono_def exact_apply)

lemma float64_rounding_mono: "float64_rounding rnd \<Longrightarrow> x \<le> y \<Longrightarrow> rnd x \<le> rnd y"
  by (auto simp: float64_rounding_def mono_def)

lemma float64_rounding_int:
  "float64_rounding rnd \<Longrightarrow> \<bar>z\<bar> \<le> 2 ^ 53 \<Longrightarrow> rnd (of_int z) = of_int z"
  by (simp add: float64_rounding_def)

lemma float64_rounding_0 [simp]: "float64_rounding rnd \<Longrightarrow> rnd 0 = 0"
  using float64_rounding_int [of rnd 0] by simp

lemma float64_rounding_nonneg: "float64_rounding rnd \<Longrightarrow> 0 \<le> x \<Longrightarrow> 0 \<le> rnd x"
  using float64_rounding_mono [of rnd 0 x] by simp

lemma seconds_exact: "seconds exact d = of_int d / 1000000000"
proof -
  have "(of_int d :: rat) = of_int (second * (d sdiv second) + d smod second)"
    by (simp only: mult_sdiv_smod_eq)
  then show ?thesis by (simp add: seconds_def field_simps exact_apply)
qed

lemma sdiv_nonneg: "0 \<le> d \<Longrightarrow> 0 < s \<Longrightarrow> 0 \<le> (d::int) sdiv s"
  by (simp add: signed_divide_int_def sgn_if pos_imp_zdiv_nonneg_iff)

lemma smod_nonneg: "0 \<le> d \<Longrightarrow> 0 < s \<Longrightarrow> 0 \<le> (d::int) smod s"
  by (simp add: smod_int_alt_def sgn_if)

lemma seconds_nonneg: "float64_rounding rnd \<Longrightarrow> 0 \<le> d \<Longrightarrow> 0 \<le> seconds rnd d"
  unfolding seconds_def
  by (intro float64_rounding_nonneg [of rnd] add_nonneg_nonneg divide_nonneg_nonneg)
    (simp_all add: sdiv_nonneg smod_nonneg)

section \<open>The invariant of the buckets\<close>

definition bucket_ok :: "int \<Rightarrow> bucket \<Rightarrow> bool" where
  "bucket_ok n b \<longleftrightarrow> 0 \<le> n \<and> n \<le> 2 ^ 53 \<and> bk_burst b = of_int n \<and> 0 \<le> bk_rate b \<and>
     0 \<le> tokens b \<and> tokens b \<le> bk_burst b"

lemma refill_simps [simp]:
  "last_time (refill rnd now b) = now"
  "bk_burst (refill rnd now b) = bk_burst b"
  "bk_rate (refill rnd now b) = bk_rate b"
  by (simp_all add: refill_def)

lemma refill_ok:
  assumes "float64_rounding rnd" and "bucket_ok n b" and "last_time b \<le> now"
  shows "bucket_ok n (refill rnd now b)"
proof -
  have "0 \<le> rnd (seconds rnd (time_sub now (last_time b)) * bk_rate b)"
    using assms
    by (intro float64_rounding_nonneg [of rnd] mult_nonneg_nonneg)
      (auto simp: bucket_ok_def seconds_nonneg time_sub_nonneg)
  then show ?thesis
    using assms by (auto simp: bucket_ok_def refill_def intro!: float64_rounding_nonneg [of rnd])
qed

lemma take_token_ok:
  assumes "float64_rounding rnd" and "bucket_ok n b" and "1 \<le> tokens b"
  shows "bucket_ok n (b\<lparr>tokens := rnd (tokens b - 1)\<rparr>)"
proof -
  have "rnd (tokens b - 1) \<le> rnd (of_int (n - 1))"
    using assms by (intro float64_rounding_mono [of rnd]) (auto simp: bucket_ok_def)
  also have "\<dots> = of_int (n - 1)"
    using assms by (intro float64_rounding_int [of rnd]) (auto simp: bucket_ok_def)
  finally have "rnd (tokens b - 1) \<le> of_int n" by simp
  with assms show ?thesis
    by (auto simp: bucket_ok_def intro!: float64_rounding_nonneg [of rnd])
qed

lemma bucket_allow_ok:
  "float64_rounding rnd \<Longrightarrow> bucket_ok n b \<Longrightarrow> last_time b \<le> now \<Longrightarrow>
    bucket_ok n (snd (bucket_allow rnd now b))"
  by (auto simp: bucket_allow_def Let_def refill_ok take_token_ok)

lemma bucket_full_ok:
  "float64_rounding rnd \<Longrightarrow> bucket_ok n b \<Longrightarrow> last_time b \<le> now \<Longrightarrow>
    bucket_ok n (snd (bucket_full rnd now b))"
  by (auto simp: bucket_full_def Let_def refill_ok)

lemma bucket_new_ok:
  "float64_rounding rnd \<Longrightarrow> 0 \<le> rate \<Longrightarrow> 0 \<le> n \<Longrightarrow> n \<le> 2 ^ 53 \<Longrightarrow>
    bucket_ok n (bucket_new rnd now rate n)"
  by (simp add: bucket_ok_def bucket_new_def float64_rounding_int)

lemma bucket_allow_time [simp]: "last_time (snd (bucket_allow rnd now b)) = now"
  by (simp add: bucket_allow_def Let_def)

lemma bucket_full_time [simp]: "last_time (snd (bucket_full rnd now b)) = now"
  by (simp add: bucket_full_def Let_def)

lemma bucket_allow_rate [simp]: "bk_rate (snd (bucket_allow rnd now b)) = bk_rate b"
  and bucket_full_rate [simp]: "bk_rate (snd (bucket_full rnd now b)) = bk_rate b"
  by (simp_all add: bucket_allow_def bucket_full_def Let_def)

section \<open>The limiter and its requests as a machine\<close>

text \<open>
  The state holds the requests in flight: number, key, and pointer. Each event carries the
  reading of the clock it makes.
\<close>

type_synonym flight = "(nat, string \<times> nat) gomap"

datatype lm_event = Lookup nat string gotime | Take nat gotime | Visit string gotime

fun event_time :: "lm_event \<Rightarrow> gotime" where
  "event_time (Lookup r key now) = now"
| "event_time (Take r now) = now"
| "event_time (Visit key now) = now"

fun lm_step :: "(rat \<Rightarrow> rat) \<Rightarrow> lm_event \<Rightarrow> limiter \<times> flight \<Rightarrow> limiter \<times> flight" where
  "lm_step rnd (Lookup r key now) (m, fl) =
     (let (n, m') = map_lookup rnd now key m in (m', AList.update r (key, n) fl))"
| "lm_step rnd (Take r now) (m, fl) =
     (case map_of fl r of
        None \<Rightarrow> (m, fl)
      | Some (key, n) \<Rightarrow> (snd (take_token rnd now n m), AList.delete r fl))"
| "lm_step rnd (Visit key now) (m, fl) = (sweep_visit rnd now key m, fl)"

definition heap_ok :: "limiter \<Rightarrow> bool" where
  "heap_ok m \<longleftrightarrow> 0 \<le> lm_rate m \<and> 0 \<le> lm_burst m \<and> lm_burst m \<le> 2 ^ 53 \<and>
     (\<forall>b\<in>set (lm_heap m). bucket_ok (lm_burst m) b \<and> bk_rate b = lm_rate m) \<and>
     (\<forall>k n. map_of (lm_m m) k = Some n \<longrightarrow> n < length (lm_heap m)) \<and>
     (\<forall>k k' n. map_of (lm_m m) k = Some n \<and> map_of (lm_m m) k' = Some n \<longrightarrow> k = k')"

text \<open>A request's bucket is that of its key, unless it was swept out of the map.\<close>

definition flight_ok :: "limiter \<Rightarrow> flight \<Rightarrow> bool" where
  "flight_ok m fl \<longleftrightarrow> (\<forall>r k n. map_of fl r = Some (k, n) \<longrightarrow>
     n < length (lm_heap m) \<and> (\<forall>k'. map_of (lm_m m) k' = Some n \<longrightarrow> k' = k))"

definition seen_by :: "gotime \<Rightarrow> limiter \<Rightarrow> bool" where
  "seen_by t m \<longleftrightarrow> (\<forall>b\<in>set (lm_heap m). last_time b \<le> t)"

lemma seen_by_later: "seen_by t m \<Longrightarrow> t \<le> t' \<Longrightarrow> seen_by t' m"
  by (auto simp: seen_by_def)

lemma set_heap_update: "b \<in> set (xs[n := x]) \<Longrightarrow> b = x \<or> b \<in> set xs"
  using set_update_subset_insert [of xs n x] by auto

lemma heap_ok_update:
  assumes "heap_ok m" and "bucket_ok (lm_burst m) b \<and> bk_rate b = lm_rate m"
  shows "heap_ok (m\<lparr>lm_heap := (lm_heap m)[n := b]\<rparr>)"
  using assms by (auto simp: heap_ok_def dest!: set_heap_update)

lemma heap_bucket: "heap_ok m \<Longrightarrow> n < length (lm_heap m) \<Longrightarrow>
    bucket_ok (lm_burst m) (lm_heap m ! n) \<and> bk_rate (lm_heap m ! n) = lm_rate m"
  by (simp add: heap_ok_def)

lemma seen_bucket: "seen_by t m \<Longrightarrow> n < length (lm_heap m) \<Longrightarrow> last_time (lm_heap m ! n) \<le> t"
  by (simp add: seen_by_def)

lemma map_lookup_ok:
  assumes "heap_ok m" and "flight_ok m fl" and "float64_rounding rnd" and "map_lookup rnd now key m = (n, m')"
  shows "heap_ok m' \<and> flight_ok m' (AList.update r (key, n) fl)"
proof (cases "map_of (lm_m m) key")
  case None
  have in_range: "map_of (lm_m m) k \<noteq> Some (length (lm_heap m))" for k
    using assms(1) by (auto simp: heap_ok_def)
  have "map_of fl r' \<noteq> Some (k, length (lm_heap m))" for r' k
    using assms(2) by (auto simp: flight_ok_def)
  moreover have "bucket_ok (lm_burst m) (bucket_new rnd now (lm_rate m) (lm_burst m))"
    using assms(1,3) by (intro bucket_new_ok) (simp_all add: heap_ok_def)
  ultimately show ?thesis
    using None assms in_range by (auto simp: map_lookup_def Let_def heap_ok_def flight_ok_def map_simps bucket_new_def less_Suc_eq
        split: if_splits)
next
  case (Some n)
  with assms show ?thesis by (auto simp: map_lookup_def heap_ok_def flight_ok_def map_simps)
qed

lemma take_token_heap_ok:
  assumes "heap_ok m" and "float64_rounding rnd" and "seen_by now m" and "n < length (lm_heap m)"
  shows "heap_ok (snd (take_token rnd now n m))"
  using heap_bucket [OF assms(1,4)] seen_bucket [OF assms(3,4)] assms(2)
  by (auto simp: take_token_def case_prod_beta intro!: heap_ok_update [OF assms(1)] bucket_allow_ok)

lemma sweep_visit_ok:
  assumes "heap_ok m" and "flight_ok m fl" and "float64_rounding rnd" and "seen_by now m"
  shows "heap_ok (sweep_visit rnd now key m) \<and> flight_ok (sweep_visit rnd now key m) fl"
proof (cases "map_of (lm_m m) key")
  case None
  with assms show ?thesis by (simp add: sweep_visit_def)
next
  case (Some n)
  let ?m = "m\<lparr>lm_heap := (lm_heap m)[n := snd (bucket_full rnd now (lm_heap m ! n))]\<rparr>"
  have n: "n < length (lm_heap m)" using assms(1) Some by (simp add: heap_ok_def)
  have "heap_ok ?m"
    using heap_bucket [OF assms(1) n] seen_bucket [OF assms(4) n] assms(3)
    by (intro heap_ok_update [OF assms(1)]) (simp add: bucket_full_ok)
  moreover from this have "heap_ok (?m\<lparr>lm_m := AList.delete key (lm_m ?m)\<rparr>)"
    by (auto simp: heap_ok_def map_simps split: if_splits)
  ultimately show ?thesis
    using assms(2) Some by (auto simp: sweep_visit_def case_prod_beta Let_def flight_ok_def map_simps split: if_splits)
qed

lemma lm_step_seen:
  assumes "seen_by t (fst s)" and "t \<le> event_time e"
  shows "seen_by (event_time e) (fst (lm_step rnd e s))"
proof -
  obtain m fl where s: "s = (m, fl)" by fastforce
  have "seen_by (event_time e) m" using seen_by_later [OF _ assms(2)] assms(1) by (simp add: s)
  then show ?thesis
    by (cases e) (auto simp: s seen_by_def map_lookup_def take_token_def sweep_visit_def case_prod_beta Let_def
        bucket_new_def split: option.split dest!: set_heap_update)
qed

lemma lm_step_ok:
  assumes "heap_ok (fst s) \<and> flight_ok (fst s) (snd s)" and "float64_rounding rnd"
    and "seen_by (event_time e) (fst s)"
  shows "heap_ok (fst (lm_step rnd e s)) \<and> flight_ok (fst (lm_step rnd e s)) (snd (lm_step rnd e s))"
proof -
  obtain m fl where s: "s = (m, fl)" by fastforce
  show ?thesis
  proof (cases e)
    case (Lookup r key now)
    obtain n m' where l: "map_lookup rnd now key m = (n, m')" by fastforce
    from map_lookup_ok [OF _ _ assms(2) l, of fl r] assms(1) show ?thesis by (simp add: s Lookup l)
  next
    case (Take r now)
    show ?thesis
    proof (cases "map_of fl r")
      case None
      with assms(1) show ?thesis by (simp add: s Take)
    next
      case (Some kn)
      obtain k n where kn: "kn = (k, n)" by fastforce
      have "n < length (lm_heap m)" using assms(1) Some by (auto simp: s kn flight_ok_def)
      with assms Take Some have "heap_ok (snd (take_token rnd now n m))"
        by (intro take_token_heap_ok) (simp_all add: s)
      moreover have "flight_ok (snd (take_token rnd now n m)) (AList.delete r fl)"
        using assms(1) by (auto simp: s flight_ok_def take_token_def case_prod_beta map_simps split: if_splits)
      ultimately show ?thesis using Some by (simp add: s Take kn)
    qed
  next
    case (Visit key now)
    from sweep_visit_ok [of m fl rnd now key] assms Visit show ?thesis by (simp add: s)
  qed
qed

interpretation lm: machine "lm_step rnd" "\<lambda>e s. float64_rounding rnd \<and> seen_by (event_time e) (fst s)"
    "\<lambda>s. heap_ok (fst s) \<and> flight_ok (fst s) (snd s)" for rnd
  by unfold_locales (rule lm_step_ok, simp_all)

section \<open>The level of a key\<close>

text \<open>
  What a key may still take at a given time: the tokens its bucket would hold after a
  refill, or a full bucket when the map has none.
\<close>

definition level :: "limiter \<Rightarrow> string \<Rightarrow> gotime \<Rightarrow> rat" where
  "level m k now = (case map_of (lm_m m) k of None \<Rightarrow> of_int (lm_burst m)
     | Some n \<Rightarrow> tokens (refill exact now (lm_heap m ! n)))"

lemma refill_exact:
  "tokens (refill exact now b) =
     min (bk_burst b) (tokens b + of_int (time_sub now (last_time b)) / 1000000000 * bk_rate b)"
  by (simp add: refill_def seconds_exact exact_apply)

lemma level_bounds:
  assumes "heap_ok m" and "seen_by t m"
  shows "0 \<le> level m k t \<and> level m k t \<le> of_int (lm_burst m)"
proof (cases "map_of (lm_m m) k")
  case None
  with assms show ?thesis by (simp add: level_def heap_ok_def)
next
  case (Some n)
  then have n: "n < length (lm_heap m)" using assms(1) by (simp add: heap_ok_def)
  have "bucket_ok (lm_burst m) (refill exact t (lm_heap m ! n))"
    using heap_bucket [OF assms(1) n] seen_bucket [OF assms(2) n] by (intro refill_ok float64_rounding_id) simp_all
  with Some show ?thesis by (simp add: level_def bucket_ok_def)
qed

lemma refill_grows:
  assumes "last_time b \<le> t" and "t \<le> t'" and "0 \<le> bk_rate b"
  shows "tokens (refill exact t' b) \<le> tokens (refill exact t b) + bk_rate b * of_int (t' - t) / 1000000000"
proof -
  have "time_sub t' (last_time b) \<le> time_sub t (last_time b) + (t' - t)"
    using assms by (auto simp: time_sub_def)
  then have "of_int (time_sub t' (last_time b)) * bk_rate b
      \<le> of_int (time_sub t (last_time b) + (t' - t)) * bk_rate b"
    using assms by (intro mult_right_mono) (simp_all only: of_int_le_iff)
  moreover have "0 \<le> of_int (t' - t) * bk_rate b"
    using assms by (intro mult_nonneg_nonneg) simp_all
  ultimately show ?thesis by (simp add: refill_exact field_simps min_def)
qed

lemma level_grows:
  assumes "heap_ok m" and "seen_by t m" and "t \<le> t'"
  shows "level m k t' \<le> level m k t + lm_rate m * of_int (t' - t) / 1000000000"
proof (cases "map_of (lm_m m) k")
  case None
  with assms show ?thesis by (simp add: level_def heap_ok_def)
next
  case (Some n)
  then have n: "n < length (lm_heap m)" using assms(1) by (simp add: heap_ok_def)
  note b = heap_bucket [OF assms(1) n] seen_bucket [OF assms(2) n]
  then have "0 \<le> bk_rate (lm_heap m ! n)" by (simp add: bucket_ok_def)
  from refill_grows [OF b(2) assms(3) this] b(1) Some show ?thesis by (simp add: level_def)
qed

lemma refill_now:
  "last_time b = now \<Longrightarrow> tokens b \<le> bk_burst b \<Longrightarrow> tokens (refill exact now b) = tokens b"
  by (simp add: refill_exact)

lemma level_same_bucket:
  assumes "heap_ok m" and "map_of (lm_m m) k = Some n" and "last_time b = now" and "bucket_ok (lm_burst m) b"
  shows "level (m\<lparr>lm_heap := (lm_heap m)[n := b]\<rparr>) k now = tokens b"
  using assms by (simp add: level_def heap_ok_def bucket_ok_def refill_now)

lemma level_other_bucket:
  "map_of (lm_m m) k \<noteq> Some n \<Longrightarrow> level (m\<lparr>lm_heap := (lm_heap m)[n := b]\<rparr>) k now = level m k now"
  by (auto simp: level_def split: option.split)

lemma lookup_level:
  assumes "heap_ok m"
  shows "level (snd (map_lookup exact now key m)) k now = level m k now"
proof (cases "map_of (lm_m m) key")
  case None
  have "level (snd (map_lookup exact now key m)) k now = level m k now" if "k \<noteq> key"
    using None that assms by (auto simp: map_lookup_def Let_def level_def map_simps heap_ok_def nth_append split: option.split)
  moreover have "level (snd (map_lookup exact now key m)) key now = of_int (lm_burst m)"
    using None by (simp add: map_lookup_def Let_def level_def map_simps bucket_new_def refill_now exact_apply)
  ultimately show ?thesis using None by (cases "k = key") (simp_all add: level_def)
qed (simp add: map_lookup_def)

lemma visit_level:
  assumes "heap_ok m" and "seen_by now m"
  shows "level (sweep_visit exact now key m) k now = level m k now"
proof (cases "map_of (lm_m m) key")
  case None
  then show ?thesis by (simp add: sweep_visit_def)
next
  case (Some n)
  then have n: "n < length (lm_heap m)" using assms(1) by (simp add: heap_ok_def)
  note b = heap_bucket [OF assms(1) n] seen_bucket [OF assms(2) n]
  let ?b = "refill exact now (lm_heap m ! n)"
  have ok: "bucket_ok (lm_burst m) ?b" using b by (intro refill_ok float64_rounding_id) simp_all
  show ?thesis
  proof (cases "k = key")
    case True
    then show ?thesis
      using Some level_same_bucket [OF assms(1) Some _ ok] ok
      by (auto simp: sweep_visit_def bucket_full_def Let_def level_def [of _ key] map_simps bucket_ok_def)
  next
    case False
    then have "map_of (lm_m m) k \<noteq> Some n" using assms(1) Some by (auto simp: heap_ok_def)
    with False Some show ?thesis
      by (cases "map_of (lm_m m) k") (auto simp: sweep_visit_def bucket_full_def Let_def level_def map_simps)
  qed
qed

lemma take_level:
  assumes "heap_ok m" and "seen_by now m" and "n < length (lm_heap m)"
  shows "level (snd (take_token exact now n m)) k now = level m k now -
    (if map_of (lm_m m) k = Some n \<and> fst (take_token exact now n m) then 1 else 0)"
proof (cases "map_of (lm_m m) k = Some n")
  case True
  note b = heap_bucket [OF assms(1,3)] seen_bucket [OF assms(2,3)]
  let ?b = "bucket_allow exact now (lm_heap m ! n)"
  have "bucket_ok (lm_burst m) (snd ?b)" using b by (intro bucket_allow_ok float64_rounding_id) simp_all
  from level_same_bucket [OF assms(1) True _ this] True show ?thesis
    by (simp add: take_token_def case_prod_beta level_def [of m])
      (simp add: bucket_allow_def Let_def exact_apply)
next
  case False
  from level_other_bucket [OF this] False show ?thesis by (simp add: take_token_def case_prod_beta)
qed

section \<open>The rate bound\<close>

text \<open>
  A request for key \<open>k\<close> is admitted; and its bucket is not in the map any more when it takes
  its token, because the sweeper came between the two steps of \<open>Map.Allow\<close>.
\<close>

fun grants :: "(rat \<Rightarrow> rat) \<Rightarrow> string \<Rightarrow> lm_event \<Rightarrow> limiter \<times> flight \<Rightarrow> bool" where
  "grants rnd k (Take r now) (m, fl) =
     (case map_of fl r of None \<Rightarrow> False | Some (key, n) \<Rightarrow> key = k \<and> fst (take_token rnd now n m))"
| "grants rnd k e s = False"

fun swept_away :: "string \<Rightarrow> lm_event \<Rightarrow> limiter \<times> flight \<Rightarrow> bool" where
  "swept_away k (Take r now) (m, fl) =
     (case map_of fl r of None \<Rightarrow> False | Some (key, n) \<Rightarrow> key = k \<and> map_of (lm_m m) k \<noteq> Some n)"
| "swept_away k e s = False"

fun count_events :: "(lm_event \<Rightarrow> limiter \<times> flight \<Rightarrow> bool) \<Rightarrow> (rat \<Rightarrow> rat) \<Rightarrow> lm_event list \<Rightarrow>
    limiter \<times> flight \<Rightarrow> nat" where
  "count_events P rnd [] s = 0"
| "count_events P rnd (e # es) s = (if P e s then 1 else 0) + count_events P rnd es (lm_step rnd e s)"

lemma step_level:
  assumes "heap_ok (fst s) \<and> flight_ok (fst s) (snd s)" and "seen_by (event_time e) (fst s)"
  shows "level (fst s) k (event_time e) - (if grants exact k e s \<and> \<not> swept_away k e s then 1 else 0) =
      level (fst (lm_step exact e s)) k (event_time e)"
proof -
  obtain m fl where s: "s = (m, fl)" by fastforce
  show ?thesis
  proof (cases e)
    case (Lookup r key now)
    with lookup_level [of m now key k] assms(1) show ?thesis by (simp add: s case_prod_beta)
  next
    case (Take r now)
    show ?thesis
    proof (cases "map_of fl r")
      case None
      then show ?thesis by (simp add: s Take)
    next
      case (Some kn)
      obtain key n where kn: "kn = (key, n)" by fastforce
      have n: "n < length (lm_heap m)" and "\<forall>k'. map_of (lm_m m) k' = Some n \<longrightarrow> k' = key"
        using assms(1) Some by (auto simp: s kn flight_ok_def)
      moreover have "seen_by now m" using assms(2) by (simp add: s Take)
      ultimately show ?thesis
        using take_level [of m now n k] assms(1) Some by (auto simp: s Take kn split: if_splits)
    qed
  next
    case (Visit key now)
    with visit_level [of m now key k] assms show ?thesis by (simp add: s)
  qed
qed

lemma lm_step_conf: "lm_rate (fst (lm_step rnd e s)) = lm_rate (fst s)" "lm_burst (fst (lm_step rnd e s)) = lm_burst (fst s)"
  by (cases s; cases e; simp add: map_lookup_def take_token_def sweep_visit_def case_prod_beta Let_def split: option.split)+

lemma admitted_bound:
  assumes "heap_ok (fst s) \<and> flight_ok (fst s) (snd s)" and "seen_by t0 (fst s)"
    and "sorted (t0 # List.map event_time es @ [t1])"
  shows "of_nat (count_events (grants exact k) exact es s) \<le>
    level (fst s) k t0 + lm_rate (fst s) * of_int (t1 - t0) / 1000000000 + of_nat (count_events (swept_away k) exact es s)"
  using assms
proof (induction es arbitrary: s t0)
  case Nil
  then have "0 \<le> lm_rate (fst s) * of_int (t1 - t0) / 1000000000"
    by (intro divide_nonneg_nonneg mult_nonneg_nonneg) (auto simp: heap_ok_def)
  with Nil level_bounds [of "fst s" t0 k] show ?case by simp
next
  case (Cons e es)
  let ?s = "lm_step exact e s" and ?t = "event_time e"
  have t: "t0 \<le> ?t" using Cons.prems(3) by simp
  have seen: "seen_by ?t (fst s)" by (rule seen_by_later [OF Cons.prems(2) t])
  have "of_nat (count_events (grants exact k) exact es ?s) \<le>
      level (fst ?s) k ?t + lm_rate (fst ?s) * of_int (t1 - ?t) / 1000000000 + of_nat (count_events (swept_away k) exact es ?s)"
    using Cons.prems t by (intro Cons.IH lm_step_ok float64_rounding_id lm_step_seen [OF Cons.prems(2)] seen) auto
  moreover have "level (fst s) k ?t \<le> level (fst s) k t0 + lm_rate (fst s) * of_int (?t - t0) / 1000000000"
    using Cons.prems t by (intro level_grows) simp_all
  moreover note step_level [OF Cons.prems(1) seen, of k]
  ultimately show ?case
    by (cases "grants exact k e s"; cases "swept_away k e s") (simp_all add: lm_step_conf field_simps)
qed

section \<open>The burst is available\<close>

lemma refill_at_least:
  assumes "float64_rounding rnd" and "bucket_ok n b" and "last_time b \<le> now"
    and "of_int j \<le> tokens b" and "0 \<le> j" and "j \<le> n"
  shows "of_int j \<le> tokens (refill rnd now b)"
proof -
  let ?d = "rnd (seconds rnd (time_sub now (last_time b)) * bk_rate b)"
  have "0 \<le> ?d"
    using assms
    by (intro float64_rounding_nonneg [of rnd] mult_nonneg_nonneg)
      (auto simp: bucket_ok_def seconds_nonneg time_sub_nonneg)
  then have "rnd (of_int j) \<le> rnd (tokens b + ?d)"
    using assms by (intro float64_rounding_mono [of rnd]) auto
  moreover have "rnd (of_int j) = of_int j"
    using assms by (intro float64_rounding_int [of rnd]) (auto simp: bucket_ok_def)
  ultimately show ?thesis using assms by (simp add: refill_def bucket_ok_def)
qed

lemma bucket_allow_at_least:
  assumes "float64_rounding rnd" and "bucket_ok n b" and "last_time b \<le> now"
    and "of_int j \<le> tokens b" and "1 \<le> j" and "j \<le> n"
  shows "fst (bucket_allow rnd now b) \<and> of_int (j - 1) \<le> tokens (snd (bucket_allow rnd now b))"
proof -
  have le: "of_int j \<le> tokens (refill rnd now b)" using assms by (intro refill_at_least) auto
  moreover have "(1::rat) \<le> of_int j" using assms by simp
  ultimately have "1 \<le> tokens (refill rnd now b)" by linarith
  moreover have "rnd (of_int (j - 1)) \<le> rnd (tokens (refill rnd now b) - 1)"
    using le assms by (intro float64_rounding_mono [of rnd]) auto
  moreover have "rnd (of_int (j - 1)) = of_int (j - 1)"
    using assms by (intro float64_rounding_int [of rnd]) (auto simp: bucket_ok_def)
  ultimately show ?thesis by (simp add: bucket_allow_def Let_def not_less)
qed

lemma bucket_run_burst:
  assumes "float64_rounding rnd" and "bucket_ok n b" and "sorted (last_time b # ts)"
    and "of_int j \<le> tokens b" and "int (length ts) \<le> j" and "j \<le> n"
  shows "fst (bucket_run rnd ts b) = replicate (length ts) True"
  using assms
proof (induction ts arbitrary: b j)
  case Nil
  then show ?case by simp
next
  case (Cons t ts)
  let ?b = "snd (bucket_allow rnd t b)"
  have a: "fst (bucket_allow rnd t b) \<and> of_int (j - 1) \<le> tokens ?b"
    using Cons.prems by (intro bucket_allow_at_least) auto
  moreover have "bucket_ok n ?b" using Cons.prems by (intro bucket_allow_ok) auto
  ultimately have "fst (bucket_run rnd ts ?b) = replicate (length ts) True"
    using Cons.prems by (intro Cons.IH [where j = "j - 1"]) auto
  with a show ?case by (simp add: case_prod_beta Let_def)
qed

section \<open>Properties\<close>

lemma new_map_ok:
  "0 \<le> rate \<Longrightarrow> 0 \<le> burst \<Longrightarrow> burst \<le> 2 ^ 53 \<Longrightarrow>
     heap_ok (fst (new_map rate burst, [])) \<and> flight_ok (fst (new_map rate burst, [])) (snd (new_map rate burst, []))"
  by (simp add: heap_ok_def flight_ok_def new_map_def)

text \<open>
  C24: In exact arithmetic, over any interleaving of lookups, token takes and sweeps whose
  clock readings are in order, a key is admitted at most \<open>burst\<close> times plus \<open>rate\<close> per second
  of the run, plus once for every request whose bucket the sweeper removed between its
  lookup and its take.
\<close>

theorem rate_limit_bound:
  assumes "0 \<le> rate" and "0 \<le> burst" and "burst \<le> 2 ^ 53"
    and "sorted (t0 # List.map event_time es @ [t1])"
  shows "of_nat (count_events (grants exact k) exact es (new_map rate burst, []))
     \<le> of_int burst + rate * of_int (t1 - t0) / 1000000000 +
       of_nat (count_events (swept_away k) exact es (new_map rate burst, []))"
  using admitted_bound [OF new_map_ok [OF assms(1-3)] _ assms(4), of k]
  by (simp add: new_map_def seen_by_def level_def)

text \<open>A bucket that is asked again at the same time.\<close>

abbreviation bucket_at :: "int \<Rightarrow> rat \<Rightarrow> int \<Rightarrow> gotime \<Rightarrow> bucket" where
  "bucket_at j rate burst t \<equiv> \<lparr>tokens = of_int j, bk_rate = rate, bk_burst = of_int burst, last_time = t\<rparr>"

lemma refill_at_once:
  assumes "float64_rounding rnd" and "0 \<le> j" and "j \<le> burst" and "burst \<le> 2 ^ 53"
  shows "refill rnd t (bucket_at j rate burst t) = bucket_at j rate burst t"
proof -
  have "seconds rnd 0 = 0" using assms(1) by (simp add: seconds_def)
  moreover have "rnd (of_int j) = of_int j" using assms by (intro float64_rounding_int) simp_all
  ultimately show ?thesis using assms by (simp add: refill_def time_sub_def)
qed

lemma allow_at_once:
  assumes "float64_rounding rnd" and "1 \<le> j" and "j \<le> burst" and "burst \<le> 2 ^ 53"
  shows "bucket_allow rnd t (bucket_at j rate burst t) = (True, bucket_at (j - 1) rate burst t)"
proof -
  have "rnd (of_int (j - 1)) = of_int (j - 1)" using assms by (intro float64_rounding_int) simp_all
  then show ?thesis
    using refill_at_once [OF assms(1) _ assms(3,4), of t rate] assms(2) by (simp add: bucket_allow_def)
qed

text \<open>The bucket of key \<open>k\<close> has \<open>j\<close> tokens left at time \<open>t\<close>, or will when it is made.\<close>

definition left_at :: "string \<Rightarrow> gotime \<Rightarrow> int \<Rightarrow> limiter \<Rightarrow> bool" where
  "left_at k t j m \<longleftrightarrow> (case map_of (lm_m m) k of
       None \<Rightarrow> j = lm_burst m
     | Some n \<Rightarrow> n < length (lm_heap m) \<and> lm_heap m ! n = bucket_at j (lm_rate m) (lm_burst m) t)"

lemma request_at_once:
  assumes "float64_rounding rnd" and "left_at k t j m" and "1 \<le> j" and "j \<le> lm_burst m" and "lm_burst m \<le> 2 ^ 53"
  shows "\<exists>m' fl'. fold (lm_step rnd) [Lookup r k t, Take r t] (m, fl) = (m', fl') \<and> left_at k t (j - 1) m' \<and>
    lm_burst m' = lm_burst m \<and> count_events (grants rnd k) rnd ([Lookup r k t, Take r t] @ es) (m, fl) =
      1 + count_events (grants rnd k) rnd es (m', fl')"
proof -
  obtain n m1 where l: "map_lookup rnd t k m = (n, m1)" by fastforce
  have "rnd (of_int (lm_burst m)) = of_int (lm_burst m)"
    using assms by (intro float64_rounding_int) simp_all
  with l assms(2) have m1: "map_of (lm_m m1) k = Some n" "n < length (lm_heap m1)"
    "lm_heap m1 ! n = bucket_at j (lm_rate m1) (lm_burst m1) t" "lm_burst m1 = lm_burst m"
    by (auto simp: map_lookup_def left_at_def bucket_new_def Let_def map_simps split: option.splits)
  have "take_token rnd t n m1 = (True, m1\<lparr>lm_heap := (lm_heap m1)[n := bucket_at (j - 1) (lm_rate m1) (lm_burst m1) t]\<rparr>)"
    using allow_at_once [OF assms(1,3), of "lm_burst m1" t "lm_rate m1"] assms(4,5) by (simp add: take_token_def m1)
  then show ?thesis using m1 by (simp add: l left_at_def map_simps)
qed

abbreviation requests_at :: "string \<Rightarrow> gotime \<Rightarrow> nat list \<Rightarrow> lm_event list" where
  "requests_at k t rs \<equiv> concat (List.map (\<lambda>r. [Lookup r k t, Take r t]) rs)"

lemma requests_at_once:
  "float64_rounding rnd \<Longrightarrow> left_at k t j m \<Longrightarrow> int (length rs) \<le> j \<Longrightarrow> j \<le> lm_burst m \<Longrightarrow> lm_burst m \<le> 2 ^ 53 \<Longrightarrow>
    count_events (grants rnd k) rnd (requests_at k t rs) (m, fl) = length rs"
proof (induction rs arbitrary: j m fl)
  case (Cons r rs)
  have "1 \<le> j" using Cons.prems(3) by simp
  from request_at_once [OF Cons.prems(1,2) this Cons.prems(4,5), of r fl "requests_at k t rs"] obtain m' fl' where
    s: "left_at k t (j - 1) m'" "lm_burst m' = lm_burst m"
    "count_events (grants rnd k) rnd ([Lookup r k t, Take r t] @ requests_at k t rs) (m, fl) =
      1 + count_events (grants rnd k) rnd (requests_at k t rs) (m', fl')" by blast
  have "count_events (grants rnd k) rnd (requests_at k t rs) (m', fl') = length rs"
    using Cons.prems s by (intro Cons.IH [of "j - 1"]) simp_all
  with s(3) show ?case by simp
qed simp

text \<open>
  C33: The extra requests are real: a client can get one request more than its burst through at
  one and the same moment, whatever the rate and the rounding. The sweeper takes the full
  bucket away that the first request had already looked up, so that the first request takes
  its token from a bucket nobody else uses, and the burst that follows finds a new one.
\<close>

theorem sweep_admits_beyond_burst:
  assumes "float64_rounding rnd" and "1 \<le> burst" and "burst \<le> 2 ^ 53"
  shows "count_events (grants rnd k) rnd
      ([Lookup 0 k t, Visit k t, Take 0 t] @ requests_at k t [1..<Suc (nat burst)]) (new_map rate burst, []) =
    nat burst + 1"
proof -
  let ?b = "bucket_at burst rate burst t"
  have "rnd (of_int burst) = of_int burst" using assms by (intro float64_rounding_int) simp_all
  then have new: "bucket_new rnd t rate burst = ?b" by (simp add: bucket_new_def)
  have "refill rnd t ?b = ?b" using assms by (intro refill_at_once) simp_all
  then have full: "bucket_full rnd t ?b = (True, ?b)" by (simp add: bucket_full_def)
  let ?m = "\<lparr>lm_rate = rate, lm_burst = burst, lm_m = [], lm_heap = [bucket_at (burst - 1) rate burst t]\<rparr>"
  have "count_events (grants rnd k) rnd
      ([Lookup 0 k t, Visit k t, Take 0 t] @ requests_at k t [1..<Suc (nat burst)]) (new_map rate burst, []) =
    1 + count_events (grants rnd k) rnd (requests_at k t [1..<Suc (nat burst)]) (?m, [])"
    using allow_at_once [OF assms(1,2) order_refl assms(3), of t rate]
    by (simp add: map_lookup_def sweep_visit_def take_token_def new_map_def new full Let_def map_simps
        del: upt_Suc)
  moreover have "left_at k t burst ?m" by (simp add: left_at_def)
  ultimately show ?thesis
    using requests_at_once [OF assms(1), of k t burst ?m "[1..<Suc (nat burst)]" "[]"] assms(2,3)
    by (simp del: upt_Suc)
qed

text \<open>
  Whatever the rounding of the \<open>float64\<close> operations, every bucket ever made, also one that
  was swept out of the map, holds between zero and \<open>burst\<close> tokens, over any interleaving of
  lookups, takes and sweeps whose clock readings are in order.
\<close>

theorem tokens_within_burst:
  assumes "float64_rounding rnd" and "0 \<le> rate" and "0 \<le> burst" and "burst \<le> 2 ^ 53"
    and "sorted (List.map event_time es)"
    and "b \<in> set (lm_heap (fst (fold (lm_step rnd) es (new_map rate burst, []))))"
  shows "0 \<le> tokens b \<and> tokens b \<le> of_int burst"
proof -
  let ?s = "(new_map rate burst, [])"
  have timely: "run_ok (\<lambda>e s. float64_rounding rnd \<and> seen_by (event_time e) (fst s)) (lm_step rnd) es s"
    if "sorted (List.map event_time es)" "es \<noteq> [] \<longrightarrow> seen_by (event_time (hd es)) (fst s)" for s
    using that
  proof (induction es arbitrary: s)
    case (Cons e es)
    have "es \<noteq> [] \<longrightarrow> seen_by (event_time (hd es)) (fst (lm_step rnd e s))"
      using lm_step_seen [of "event_time e" s e rnd] Cons.prems seen_by_later by (cases es) auto
    with Cons assms(1) show ?case by simp
  qed simp
  have "seen_by t (fst ?s)" for t by (simp add: seen_by_def new_map_def)
  from lm.run_inv [OF new_map_ok [OF assms(2-4)] timely [OF assms(5)]] this
  have "heap_ok (fst (fold (lm_step rnd) es ?s))" by blast
  moreover have "lm_burst (fst (fold (lm_step rnd) es s)) = lm_burst (fst s)" for s
    by (induction es arbitrary: s) (simp_all add: lm_step_conf)
  ultimately have "bucket_ok burst b" using assms(6) by (simp add: heap_ok_def new_map_def)
  then show ?thesis by (simp add: bucket_ok_def)
qed

text \<open>
  a client may send a whole burst at once or spread out: with any rounding, a fresh
  bucket admits the first \<open>burst\<close> requests.
\<close>

theorem burst_available:
  assumes "float64_rounding rnd" and "0 \<le> rate" and "n \<le> 2 ^ 53"
    and "int (length ts) \<le> n" and "sorted (now # ts)"
  shows "fst (bucket_run rnd ts (bucket_new rnd now rate n)) = replicate (length ts) True"
proof -
  have "bucket_ok n (bucket_new rnd now rate n)"
    using assms by (intro bucket_new_ok) auto
  then show ?thesis
    using assms
    by (intro bucket_run_burst [where j = n and n = n]) (auto simp: bucket_new_def float64_rounding_int)
qed

section \<open>Witnesses\<close>

abbreviation run_k :: "lm_event list" where
  "run_k \<equiv> [Lookup 0 ''k'' 0, Take 0 0, Lookup 1 ''j'' 5, Lookup 2 ''k'' 7, Visit ''k'' 7, Take 2 9, Take 1 1000000005]"

lemma rate_limit_bound_witness:
  "(of_nat (count_events (grants exact ''k'') exact run_k (new_map 1 2, [])) :: rat)
     \<le> of_int 2 + 1 * of_int (1000000005 - 0) / 1000000000 +
       of_nat (count_events (swept_away ''k'') exact run_k (new_map 1 2, []))"
  by (rule rate_limit_bound) simp_all

lemma sweep_admits_beyond_burst_witness:
  "count_events (grants exact ''k'') exact
     ([Lookup 0 ''k'' 5, Visit ''k'' 5, Take 0 5] @ requests_at ''k'' 5 [1..<Suc (nat 3)]) (new_map 1 3, []) = 4"
  using sweep_admits_beyond_burst [OF float64_rounding_id, of 3 "''k''" 5 1] by simp

lemma tokens_within_burst_witness:
  "0 \<le> tokens (lm_heap (fst (fold (lm_step exact) [Lookup 0 ''k'' 0, Take 0 0] (new_map 1 2, []))) ! 0) \<and>
   tokens (lm_heap (fst (fold (lm_step exact) [Lookup 0 ''k'' 0, Take 0 0] (new_map 1 2, []))) ! 0) \<le> of_int 2"
  by (rule tokens_within_burst [where rnd = exact and rate = 1 and es = "[Lookup 0 ''k'' 0, Take 0 0]"])
    (simp_all add: float64_rounding_id new_map_def map_lookup_def take_token_def Let_def case_prod_beta)

lemma burst_available_witness:
  "fst (bucket_run exact [0, 5, 5] (bucket_new exact 0 1 3)) = [True, True, True]"
  using burst_available [OF float64_rounding_id, of 1 3 "[0, 5, 5]" 0] by simp

end
