(* ===== verification/Breaker.thy ===== *)
theory Breaker
  imports Prelude
begin

text \<open>
  \<open>internal/breaker/breaker.go\<close>: the circuit breaker the gateway keeps per node. Each
  method holds the mutex for its whole body, so it is one step of a state machine; the
  clock reading is an argument.
\<close>

section \<open>State and operations\<close>

datatype bstate = Closed | Open | HalfOpen

record breaker =
  br_state :: bstate
  failures :: int
  threshold :: int
  cooldown :: duration
  opened_at :: gotime

text \<open>The zero value of \<open>openedAt\<close> is never read before the breaker opens.\<close>

definition breaker_new :: "int \<Rightarrow> duration \<Rightarrow> breaker" where
  "breaker_new thr cool =
     \<lparr>br_state = Closed, failures = 0, threshold = thr, cooldown = cool, opened_at = 0\<rparr>"

definition breaker_allow :: "gotime \<Rightarrow> breaker \<Rightarrow> bool \<times> breaker" where
  "breaker_allow now b =
     (case br_state b of
        Closed \<Rightarrow> (True, b)
      | Open \<Rightarrow> if time_sub now (opened_at b) \<ge> cooldown b
                then (True, b\<lparr>br_state := HalfOpen\<rparr>) else (False, b)
      | HalfOpen \<Rightarrow> (False, b))"

definition breaker_success :: "breaker \<Rightarrow> breaker" where
  "breaker_success b = b\<lparr>failures := 0, br_state := Closed\<rparr>"

definition breaker_failure :: "gotime \<Rightarrow> breaker \<Rightarrow> breaker" where
  "breaker_failure now b =
     (let b' = b\<lparr>failures := failures b + 1\<rparr>
      in if br_state b' = HalfOpen \<or> failures b' \<ge> threshold b'
         then b'\<lparr>br_state := Open, opened_at := now, failures := 0\<rparr> else b')"

definition state_string :: "breaker \<Rightarrow> string" where
  "state_string b =
     (case br_state b of Open \<Rightarrow> ''open'' | HalfOpen \<Rightarrow> ''half-open'' | Closed \<Rightarrow> ''closed'')"

section \<open>The breaker as a machine\<close>

datatype br_event = Try gotime | Succeed | Fail gotime

fun br_step :: "br_event \<Rightarrow> breaker \<Rightarrow> breaker" where
  "br_step (Try now) b = snd (breaker_allow now b)"
| "br_step Succeed b = breaker_success b"
| "br_step (Fail now) b = breaker_failure now b"

definition breaker_ok :: "breaker \<Rightarrow> bool" where
  "breaker_ok b \<longleftrightarrow> 0 \<le> failures b \<and> failures b < max 1 (threshold b)"

text \<open>The requests a run of \<open>Allow\<close> calls at the given times lets through.\<close>

fun granted :: "gotime list \<Rightarrow> breaker \<Rightarrow> gotime list" where
  "granted [] b = []"
| "granted (t # ts) b =
     (if fst (breaker_allow t b) then [t] else []) @ granted ts (snd (breaker_allow t b))"

lemmas breaker_defs [machine_simps] =
  breaker_allow_def breaker_success_def breaker_failure_def Let_def

lemma br_step_conf [simp]:
  "threshold (br_step e b) = threshold b" "cooldown (br_step e b) = cooldown b"
  by (cases e; simp add: machine_simps split: bstate.split)+

lemma br_step_ok: "breaker_ok b \<Longrightarrow> breaker_ok (br_step e b)"
  by (cases e) (auto simp: breaker_ok_def machine_simps split: bstate.splits)

interpretation br: machine br_step "\<lambda>_ _. True" breaker_ok
  by unfold_locales (rule br_step_ok)

text \<open>The transitions the breaker can make, and the only way each one happens.\<close>

inductive br_trans :: "bstate \<Rightarrow> br_event \<Rightarrow> bstate \<Rightarrow> bool" where
  trip: "br_trans Closed (Fail t) Open"
| stay_closed: "br_trans Closed (Fail t) Closed"
| try_closed: "br_trans Closed (Try t) Closed"
| probe: "br_trans Open (Try t) HalfOpen"
| deny: "br_trans Open (Try t) Open"
| late_failure: "br_trans Open (Fail t) Open"
| deny_half: "br_trans HalfOpen (Try t) HalfOpen"
| reopen: "br_trans HalfOpen (Fail t) Open"
| close: "br_trans s Succeed Closed"

inductive_cases from_half_open: "br_trans HalfOpen e s"
inductive_cases to_half_open: "br_trans s e HalfOpen"
inductive_simps br_trans_succeed: "br_trans s Succeed s'"

lemma br_step_trans: "br_trans (br_state b) e (br_state (br_step e b))"
  by (cases e; cases "br_state b") (auto simp: machine_simps intro: br_trans.intros)

section \<open>Opening\<close>

text \<open>The failures reported in a run.\<close>

definition failure_count :: "br_event list \<Rightarrow> int" where
  "failure_count es = int (length (filter (\<lambda>e. \<exists>t. e = Fail t) es))"

lemma failure_count_simps [simp]:
  "failure_count [] = 0" "failure_count (Fail t # es) = 1 + failure_count es"
  "failure_count (Try t # es) = failure_count es" "0 \<le> failure_count es"
  by (simp_all add: failure_count_def)

lemma failures_counted:
  assumes "br_state b = Closed" and "failures b + failure_count es < threshold b" and "Succeed \<notin> set es"
  shows "fold br_step es b = b\<lparr>failures := failures b + failure_count es\<rparr>"
  using assms
proof (induction es arbitrary: b)
  case (Cons e es)
  show ?case
  proof (cases e)
    case (Fail t)
    have "failures b + 1 < threshold b"
      using Cons.prems(2) failure_count_simps(4) [of es] unfolding Fail failure_count_simps(2) by linarith
    with Cons.prems(1) have "br_step (Fail t) b = b\<lparr>failures := failures b + 1\<rparr>"
      by (simp add: machine_simps)
    with Cons Fail show ?thesis by (simp add: add_ac del: br_step.simps)
  qed (use Cons in \<open>simp_all add: breaker_allow_def\<close>)
qed simp

lemma granted_half_open: "br_state b = HalfOpen \<Longrightarrow> granted ts b = []"
  by (induction ts) (simp_all add: machine_simps)

lemma granted_open:
  "br_state b = Open \<Longrightarrow> length (granted ts b) \<le> 1 \<and>
     (\<forall>t\<in>set (granted ts b). cooldown b \<le> time_sub t (opened_at b))"
  by (induction ts) (auto simp: machine_simps granted_half_open)

section \<open>Properties\<close>

text \<open>
  from any run of requests, successes and failures the failure counter stays between
  zero and the threshold, so the \<open>int\<close> of the code cannot overflow.
\<close>

theorem failures_bounded:
  "0 \<le> failures (fold br_step es (breaker_new thr cool)) \<and>
   failures (fold br_step es (breaker_new thr cool)) < max 1 thr"
proof -
  have "threshold (fold br_step es b) = threshold b" for b
    by (induction es arbitrary: b) simp_all
  then show ?thesis
    using br.run_inv [of "breaker_new thr cool" es]
    by (simp add: breaker_ok_def) (simp add: breaker_new_def)
qed


text \<open>
  an open breaker lets a single probe through, and only after the cooldown, however
  many requests ask before the probe's outcome is reported.
\<close>

theorem single_probe:
  assumes "br_state b \<noteq> Closed"
  shows "length (granted ts b) \<le> 1 \<and>
    (br_state b = Open \<longrightarrow> (\<forall>t\<in>set (granted ts b). cooldown b \<le> time_sub t (opened_at b))) \<and>
    (br_state b = HalfOpen \<longrightarrow> granted ts b = [])"
  using assms granted_open [of b ts] granted_half_open [of b ts] by (cases "br_state b") auto

text \<open>
  the probe decides: its success closes the breaker with a clean count, and its failure
  opens it again and restarts the cooldown from the time of that failure.
\<close>

theorem probe_decides:
  assumes "br_state b = Open" and "cooldown b \<le> time_sub now (opened_at b)"
  shows "fst (breaker_allow now b) \<and>
    granted [t] (br_step Succeed (br_step (Try now) b)) = [t] \<and>
    failures (br_step Succeed (br_step (Try now) b)) = 0 \<and>
    (time_sub t now' < cooldown b \<longrightarrow>
      granted [t] (br_step (Fail now') (br_step (Try now) b)) = [])"
  using assms by (simp add: machine_simps)

section \<open>Witnesses\<close>


lemma single_probe_witness:
  "length (granted [60, 120, 130] (br_step (Fail 10) (breaker_new 1 100))) \<le> 1"
proof -
  have "br_state (br_step (Fail 10) (breaker_new 1 100)) \<noteq> Closed"
    by (simp add: breaker_new_def machine_simps)
  from single_probe [OF this] show ?thesis by blast
qed

lemma probe_decides_witness:
  "granted [121] (br_step (Fail 121) (br_step (Try 120) (br_step (Fail 10) (breaker_new 1 100)))) = []"
proof -
  let ?b = "br_step (Fail 10) (breaker_new 1 100)"
  have open_b: "br_state ?b = Open" and cool: "cooldown ?b = 100" and at: "opened_at ?b = 10"
    by (simp_all add: breaker_new_def machine_simps)
  have "cooldown ?b \<le> time_sub 120 (opened_at ?b)"
    unfolding cool at by (simp add: time_sub_def)
  from probe_decides [OF open_b this, of 121 121] cool show ?thesis by simp
qed

end
