(* ===== verification/Epoch.thy ===== *)
theory Epoch
  imports Prelude
begin

text \<open>
  \<open>internal/epoch/epoch.go\<close>: the fencer that rejects writes carrying an epoch older than
  the newest one the node has met, and keeps that epoch in a file. The files are a map
  from paths to contents. Every system call of \<open>persist\<close> can fail; \<open>persist_io\<close> says
  which one does, and \<open>Check\<close> carries on in each case, as the code does.
\<close>

section \<open>Big-endian encoding\<close>

definition put_uint64 :: "u64 \<Rightarrow> bytes" where
  "put_uint64 v = List.map (\<lambda>i. char_of (unat (drop_bit i v))) [56, 48, 40, 32, 24, 16, 8, 0]"

definition be_uint64 :: "bytes \<Rightarrow> u64" where
  "be_uint64 bs =
     fold (\<lambda>(c, i) v. or v (push_bit i (of_nat (of_char c)))) (zip bs [56, 48, 40, 32, 24, 16, 8, 0]) 0"

lemma byte_of_word: "(of_nat (unat w mod 256) :: u64) = take_bit 8 w"
proof -
  have "unat w mod 256 = unat (take_bit 8 w)"
    by (simp only: unsigned_take_bit_eq) (simp add: take_bit_eq_mod)
  then show ?thesis by simp
qed

lemma length_put_uint64 [simp]: "length (put_uint64 v) = 8"
  by (simp add: put_uint64_def)

lemma be_put_uint64: "be_uint64 (put_uint64 v) = v"
proof (rule bit_word_eqI)
  fix n assume "n < LENGTH(64)"
  then have "n < 8 \<or> (8 \<le> n \<and> n < 16) \<or> (16 \<le> n \<and> n < 24) \<or> (24 \<le> n \<and> n < 32) \<or>
      (32 \<le> n \<and> n < 40) \<or> (40 \<le> n \<and> n < 48) \<or> (48 \<le> n \<and> n < 56) \<or> (56 \<le> n \<and> n < 64)"
    by auto
  then show "bit (be_uint64 (put_uint64 v)) n \<longleftrightarrow> bit v n"
    by (elim disjE) (auto simp: be_uint64_def put_uint64_def byte_of_word bit_or_iff bit_push_bit_iff
        bit_take_bit_iff bit_drop_bit_eq)
qed

section \<open>The fencer\<close>

type_synonym files = "string \<rightharpoonup> bytes"

record fencer =
  f_seen :: u64
  f_path :: string

datatype load_error = ReadFailed

text \<open>\<open>readable\<close> says whether the read of an existing file succeeds.\<close>

definition fencer_load :: "bool \<Rightarrow> string \<Rightarrow> files \<Rightarrow> load_error + fencer" where
  "fencer_load readable path fs =
     (case fs path of
        None \<Rightarrow> Inr \<lparr>f_seen = 0, f_path = path\<rparr>
      | Some data \<Rightarrow>
          if \<not> readable then Inl ReadFailed
          else if length data \<ge> 8 then Inr \<lparr>f_seen = be_uint64 (take 8 data), f_path = path\<rparr>
          else Inr \<lparr>f_seen = 0, f_path = path\<rparr>)"

text \<open>
  \<open>WriteFails left\<close>: the temporary file could not be written and holds \<open>left\<close>
  afterwards; \<open>OpenFails\<close>, \<open>RenameFails\<close>: that later call failed.
\<close>

datatype persist_io = Persists | WriteFails "bytes option" | OpenFails | RenameFails

definition persist :: "persist_io \<Rightarrow> fencer \<Rightarrow> files \<Rightarrow> files" where
  "persist io f fs =
     (let buf = put_uint64 (f_seen f); tmp = f_path f @ ''.tmp''
      in case io of
           WriteFails left \<Rightarrow> fs(tmp := left)
         | OpenFails \<Rightarrow> fs(tmp \<mapsto> buf)
         | RenameFails \<Rightarrow> fs(tmp \<mapsto> buf)
         | Persists \<Rightarrow> fs(f_path f \<mapsto> buf, tmp := None))"

definition fencer_check :: "persist_io \<Rightarrow> u64 \<Rightarrow> fencer \<times> files \<Rightarrow> (bool \<times> u64) \<times> fencer \<times> files" where
  "fencer_check io e s =
     (case s of (f, fs) \<Rightarrow>
        if e < f_seen f then ((False, f_seen f), f, fs)
        else if e > f_seen f then
          (let f' = f\<lparr>f_seen := e\<rparr> in ((True, f_seen f'), f', persist io f' fs))
        else ((True, f_seen f), f, fs))"

definition fencer_seen :: "fencer \<Rightarrow> u64" where
  "fencer_seen f = f_seen f"

section \<open>The fencer as a fence\<close>

text \<open>A request to the fencer: how its disk behaves, and the epoch it carries.\<close>

fun check_req :: "persist_io \<times> u64 \<Rightarrow> fencer \<times> files \<Rightarrow> bool \<times> (fencer \<times> files)" where
  "check_req (io, e) s = (case fencer_check io e s of ((ok, _), s') \<Rightarrow> (ok, s'))"

interpretation fc: fence check_req snd "\<lambda>s. f_seen (fst s)"
  by unfold_locales (auto simp: fencer_check_def Let_def max_def not_less split: prod.splits if_splits)

text \<open>What a restart finds on disk.\<close>

definition disk_epoch :: "string \<Rightarrow> files \<Rightarrow> u64" where
  "disk_epoch path fs =
     (case fs path of None \<Rightarrow> 0
      | Some data \<Rightarrow> if length data \<ge> 8 then be_uint64 (take 8 data) else 0)"

lemma fencer_load_Inr:
  "fencer_load True path fs = Inr \<lparr>f_seen = disk_epoch path fs, f_path = path\<rparr>"
  by (simp add: fencer_load_def disk_epoch_def split: option.split)

lemma tmp_path_neq [simp]: "path @ ''.tmp'' \<noteq> path" "path \<noteq> path @ ''.tmp''"
  by auto

lemma disk_epoch_persist:
  "disk_epoch (f_path f) (persist io f fs) =
     (if io = Persists then f_seen f else disk_epoch (f_path f) fs)"
  by (cases io) (simp_all add: persist_def disk_epoch_def Let_def be_put_uint64)

definition disk_behind :: "string \<Rightarrow> fencer \<times> files \<Rightarrow> bool" where
  "disk_behind path s \<longleftrightarrow> f_path (fst s) = path \<and> disk_epoch path (snd s) \<le> f_seen (fst s)"

definition disk_current :: "string \<Rightarrow> fencer \<times> files \<Rightarrow> bool" where
  "disk_current path s \<longleftrightarrow> f_path (fst s) = path \<and> disk_epoch path (snd s) = f_seen (fst s)"

abbreviation check_step :: "persist_io \<times> u64 \<Rightarrow> fencer \<times> files \<Rightarrow> fencer \<times> files" where
  "check_step r s \<equiv> snd (check_req r s)"

lemma check_step_behind: "disk_behind path s \<Longrightarrow> disk_behind path (check_step r s)"
  using disk_epoch_persist [of "fst s\<lparr>f_seen := snd r\<rparr>" "fst r" "snd s"]
  by (cases r; cases s) (auto simp: fencer_check_def Let_def disk_behind_def)

lemma check_step_current:
  "disk_current path s \<Longrightarrow> fst r = Persists \<Longrightarrow> disk_current path (check_step r s)"
  using disk_epoch_persist [of "fst s\<lparr>f_seen := snd r\<rparr>" "fst r" "snd s"]
  by (cases r; cases s) (auto simp: fencer_check_def Let_def disk_current_def)

interpretation behind: machine check_step "\<lambda>_ _. True" "disk_behind path" for path
  by unfold_locales (rule check_step_behind)

interpretation durable: machine check_step "\<lambda>r _. fst r = Persists" "disk_current path" for path
  by unfold_locales (rule check_step_current)

lemma loaded_current: "fencer_load True path fs = Inr f \<Longrightarrow> disk_current path (f, fs)"
  by (auto simp: fencer_load_Inr disk_current_def)

lemma load_persist: "fencer_load True (f_path f) (persist Persists f fs) = Inr f"
  by (simp add: fencer_load_Inr disk_epoch_persist)

lemma run_ok_fst: "run_ok (\<lambda>r _. P r) step rs s \<longleftrightarrow> (\<forall>r\<in>set rs. P r)"
  by (induction rs arbitrary: s) auto

section \<open>Properties\<close>

text \<open>
  the eight bytes the fencer writes read back as the epoch it wrote, for all
  \<open>2 ^ 64\<close> epochs.
\<close>

theorem epoch_file_roundtrip:
  "fencer_load True (f_path f) (persist Persists f fs) = Inr f"
  by (rule load_persist)

text \<open>
  the fence holds: once an epoch has been accepted, no request with a smaller one is
  accepted again, whatever is checked in between and whatever the disk does.
\<close>

theorem stale_epoch_rejected:
  assumes "e' < e"
  shows "\<not> fst (check_req (io', e') (fold check_step rs (check_step (io, e) s)))"
  using fc.stale_rejected [of "(io', e')" "(io, e)"] assms by simp

text \<open>
  C13: the fence survives a restart: after checks whose writes to disk succeeded, the
  fencer loaded from the file rejects every epoch below the highest one checked.
\<close>

theorem fence_survives_restart:
  assumes "fencer_load True path fs = Inr f" and "\<forall>r\<in>set rs. fst r = Persists"
    and "r \<in> set rs" and "e < snd r"
    and "fencer_load True path (snd (fold check_step rs (f, fs))) = Inr f'"
  shows "\<not> fst (check_req (io, e) (f', fs'))"
proof -
  let ?s = "fold check_step rs (f, fs)"
  have "disk_current path ?s"
    using assms by (intro durable.run_inv loaded_current) (simp_all add: run_ok_fst)
  then have "f_seen f' = f_seen (fst ?s)"
    using assms(5) by (auto simp: disk_current_def fencer_load_Inr)
  moreover have "snd r \<le> f_seen (fst ?s)" by (rule fc.observed_le [OF assms(3)])
  ultimately show ?thesis using assms(4) by (simp add: fc.check_iff del: check_req.simps)
qed

text \<open>
  with disk errors the file can only lag behind: the epoch a restart finds is never
  above the one the running fencer enforces.
\<close>

theorem disk_never_ahead:
  assumes "fencer_load True path fs = Inr f"
  shows "disk_epoch path (snd (fold check_step rs (f, fs))) \<le> f_seen (fst (fold check_step rs (f, fs)))"
proof -
  have "disk_behind path (f, fs)"
    using loaded_current [OF assms] by (simp add: disk_behind_def disk_current_def)
  from behind.run_inv [OF this] show ?thesis by (simp add: disk_behind_def)
qed

text \<open>
  a failed write to disk is not reported: the check answers that the epoch is
  accepted, and a restart forgets it and accepts an older epoch again.
\<close>

theorem failed_persist_forgets_epoch:
  assumes "fencer_load True path fs = Inr f" and "f_seen f \<le> e'" and "e' < e" and "io \<noteq> Persists"
  shows "fst (check_req (io, e) (f, fs)) \<and>
    (\<exists>f'. fencer_load True path (snd (check_step (io, e) (f, fs))) = Inr f' \<and>
      fst (check_req (io', e') (f', fs')))"
proof -
  have path: "f_path f = path" and seen: "f_seen f = disk_epoch path fs"
    using assms(1) by (auto simp: fencer_load_Inr)
  have "f_seen f < e" using assms by simp
  then have "disk_epoch path (snd (check_step (io, e) (f, fs))) = f_seen f"
    using disk_epoch_persist [of "f\<lparr>f_seen := e\<rparr>" io fs] path seen assms(4)
    by (auto simp: fencer_check_def Let_def)
  then show ?thesis
    using assms \<open>f_seen f < e\<close>
    by (simp add: fencer_load_Inr fc.check_iff del: check_req.simps)
qed

section \<open>Witnesses\<close>

lemma stale_epoch_rejected_witness:
  "\<not> fst (check_req (Persists, 4) (fold check_step [(Persists, 9)]
     (check_step (Persists, 5) (\<lparr>f_seen = 0, f_path = ''epoch''\<rparr>, Map.empty))))"
  by (rule stale_epoch_rejected) simp

lemma fence_survives_restart_witness:
  "\<not> fst (check_req (Persists, 41) (\<lparr>f_seen = 42, f_path = ''epoch''\<rparr>, Map.empty))"
proof -
  let ?f = "\<lparr>f_seen = 0, f_path = ''epoch''\<rparr>"
  have load: "fencer_load True ''epoch'' Map.empty = Inr ?f"
    by (simp add: fencer_load_def)
  have step: "check_step (Persists, 42) (?f, Map.empty) =
      (?f\<lparr>f_seen := 42\<rparr>, persist Persists (?f\<lparr>f_seen := 42\<rparr>) Map.empty)"
    by (simp add: fencer_check_def Let_def)
  show ?thesis
  proof (rule fence_survives_restart [OF load, of "[(Persists, 42)]" "(Persists, 42)"])
    show "fencer_load True ''epoch'' (snd (fold check_step [(Persists, 42)] (?f, Map.empty))) =
        Inr \<lparr>f_seen = 42, f_path = ''epoch''\<rparr>"
      using load_persist [of "?f\<lparr>f_seen := 42\<rparr>"] by (simp add: step del: check_req.simps)
  qed simp_all
qed

lemma disk_never_ahead_witness:
  "disk_epoch ''epoch'' (snd (fold check_step [(OpenFails, 7)]
      (\<lparr>f_seen = 0, f_path = ''epoch''\<rparr>, Map.empty)))
    \<le> f_seen (fst (fold check_step [(OpenFails, 7)] (\<lparr>f_seen = 0, f_path = ''epoch''\<rparr>, Map.empty)))"
  by (rule disk_never_ahead) (simp add: fencer_load_def)

lemma failed_persist_forgets_epoch_witness:
  "fst (check_req (WriteFails None, 7) (\<lparr>f_seen = 0, f_path = ''epoch''\<rparr>, Map.empty)) \<and>
   (\<exists>f'. fencer_load True ''epoch'' (snd (check_step (WriteFails None, 7)
       (\<lparr>f_seen = 0, f_path = ''epoch''\<rparr>, Map.empty))) = Inr f' \<and>
     fst (check_req (Persists, 3) (f', Map.empty)))"
  by (rule failed_persist_forgets_epoch) (simp_all add: fencer_load_def)

end
