(* ===== verification/Reshard.thy ===== *)
theory Reshard
  imports Prelude
begin

text \<open>
  \<open>internal/reshard/reshard.go\<close>: the transition state a node is in while a partition is
  moved. Every method runs under the mutex and is one step; the sequences in which the
  node's goroutines call them are in the theory of the node.
\<close>

section \<open>State and operations\<close>

datatype rs_status = Normal | Frozen | Loading

datatype rs_error = ErrFrozen | AlreadyInTransition | SessionMismatch

record buffered_write =
  bw_id :: string
  bw_key :: string
  bw_value :: bytes

record reshard =
  status :: rs_status
  session_id :: string
  rs_buffer :: "buffered_write list"

definition rs_init :: reshard where
  "rs_init = \<lparr>status = Normal, session_id = [], rs_buffer = []\<rparr>"

definition freeze :: "string \<Rightarrow> reshard \<Rightarrow> rs_error + reshard" where
  "freeze sid s =
     (if status s \<noteq> Normal then Inl AlreadyInTransition
      else Inr (s\<lparr>status := Frozen, session_id := sid\<rparr>))"

definition thaw :: "string \<Rightarrow> reshard \<Rightarrow> rs_error + reshard" where
  "thaw sid s =
     (if session_id s \<noteq> sid then Inl SessionMismatch
      else Inr (s\<lparr>status := Normal, session_id := []\<rparr>))"

definition start_load :: "string \<Rightarrow> reshard \<Rightarrow> rs_error + reshard" where
  "start_load sid s =
     (if status s \<noteq> Normal then Inl AlreadyInTransition
      else Inr (s\<lparr>status := Loading, session_id := sid, rs_buffer := []\<rparr>))"

definition buffer_write :: "buffered_write \<Rightarrow> reshard \<Rightarrow> reshard" where
  "buffer_write w s =
     (if status s = Loading then s\<lparr>rs_buffer := rs_buffer s @ [w]\<rparr> else s)"

definition drain_buffer :: "reshard \<Rightarrow> buffered_write list \<times> reshard" where
  "drain_buffer s = (rs_buffer s, s\<lparr>rs_buffer := []\<rparr>)"

definition finish_load :: "reshard \<Rightarrow> reshard" where
  "finish_load s = s\<lparr>status := Normal, session_id := []\<rparr>"

definition rs_check :: "reshard \<Rightarrow> rs_error option" where
  "rs_check s = (if status s = Frozen then Some ErrFrozen else None)"

definition is_loading :: "reshard \<Rightarrow> bool" where
  "is_loading s \<longleftrightarrow> status s = Loading"

definition status_string :: "reshard \<Rightarrow> string" where
  "status_string s =
     (case status s of Frozen \<Rightarrow> ''frozen'' | Loading \<Rightarrow> ''loading'' | Normal \<Rightarrow> ''normal'')"

section \<open>The transitions as a machine\<close>

datatype rs_event =
    EFreeze string | EThaw string | EStartLoad string | EBuffer buffered_write | EDrain
  | EFinishLoad

text \<open>A call that returns an error leaves the state as it is.\<close>

definition or_keep :: "reshard \<Rightarrow> rs_error + reshard \<Rightarrow> reshard" where
  "or_keep s r = (case r of Inl _ \<Rightarrow> s | Inr s' \<Rightarrow> s')"

fun rs_step :: "rs_event \<Rightarrow> reshard \<Rightarrow> reshard" where
  "rs_step (EFreeze sid) s = or_keep s (freeze sid s)"
| "rs_step (EThaw sid) s = or_keep s (thaw sid s)"
| "rs_step (EStartLoad sid) s = or_keep s (start_load sid s)"
| "rs_step (EBuffer w) s = buffer_write w s"
| "rs_step EDrain s = snd (drain_buffer s)"
| "rs_step EFinishLoad s = finish_load s"

text \<open>The handlers reject an empty session before they call these operations.\<close>

fun named_session :: "rs_event \<Rightarrow> reshard \<Rightarrow> bool" where
  "named_session (EFreeze sid) s = (sid \<noteq> [])"
| "named_session (EThaw sid) s = (sid \<noteq> [])"
| "named_session (EStartLoad sid) s = (sid \<noteq> [])"
| "named_session _ s = True"

definition session_inv :: "reshard \<Rightarrow> bool" where
  "session_inv s \<longleftrightarrow> (status s = Normal \<longleftrightarrow> session_id s = [])"

lemmas reshard_defs [machine_simps] =
  freeze_def thaw_def start_load_def buffer_write_def drain_buffer_def finish_load_def
  or_keep_def rs_check_def is_loading_def

lemma rs_step_inv: "session_inv s \<Longrightarrow> named_session e s \<Longrightarrow> session_inv (rs_step e s)"
  by (cases e) (auto simp: session_inv_def machine_simps)

interpretation rs: machine rs_step named_session session_inv
  by unfold_locales (rule rs_step_inv)

text \<open>Which status an event leads from and to.\<close>

inductive rs_trans :: "rs_status \<Rightarrow> rs_event \<Rightarrow> rs_status \<Rightarrow> bool" where
  same: "rs_trans st e st"
| frozen: "rs_trans Normal (EFreeze sid) Frozen"
| thawed: "rs_trans st (EThaw sid) Normal"
| loading: "rs_trans Normal (EStartLoad sid) Loading"
| finished: "rs_trans st EFinishLoad Normal"

inductive_cases frozen_to_loading: "rs_trans Frozen e Loading"
inductive_cases leaves_frozen: "rs_trans Frozen e st"

lemma rs_step_trans: "rs_trans (status s) e (status (rs_step e s))"
  by (cases e) (auto simp: machine_simps intro: rs_trans.intros)

lemma buffer_all:
  "status s = Loading \<Longrightarrow>
     fold rs_step (List.map EBuffer ws) s = s\<lparr>rs_buffer := rs_buffer s @ ws\<rparr>"
  by (induction ws arbitrary: s) (simp_all add: machine_simps)

text \<open>
  The handlers of a node read the state twice, with \<open>Check\<close> and then with \<open>IsLoading\<close>. The
  two reads agree with one read of both at some moment in between.
\<close>

lemma check_and_loading_as_one:
  assumes "rs_check s = None"
  shows "\<exists>earlier later. es = earlier @ later \<and> rs_check (fold rs_step earlier s) = None \<and>
    is_loading (fold rs_step earlier s) = is_loading (fold rs_step es s)"
proof (induction es rule: rev_induct)
  case Nil
  with assms show ?case by simp
next
  case (snoc e es)
  let ?t = "fold rs_step es s"
  show ?case
  proof (cases "status (rs_step e ?t) = Frozen")
    case False
    then show ?thesis by (intro exI [of _ "es @ [e]"] exI [of _ "[]"]) (simp add: rs_check_def)
  next
    case True
    then have after_e: "\<not> is_loading (rs_step e ?t)" by (simp add: is_loading_def)
    from True rs_step_trans [of ?t e] have "status ?t = Frozen \<or> status ?t = Normal"
      by (auto elim: rs_trans.cases)
    then have before_e: "\<not> is_loading ?t" by (auto simp: is_loading_def)
    from snoc obtain earlier later where "es = earlier @ later" "rs_check (fold rs_step earlier s) = None"
      "is_loading (fold rs_step earlier s) = is_loading ?t" by blast
    then show ?thesis
      using before_e after_e by (intro exI [of _ earlier] exI [of _ "later @ [e]"]) simp
  qed
qed

section \<open>Properties\<close>

text \<open>
  in every run of the handlers' calls a node is outside a transition exactly when no
  session is recorded, and a frozen node never starts loading without being thawed first.
\<close>

theorem transition_sessions:
  assumes "run_ok named_session rs_step es rs_init"
  shows "(status (fold rs_step es rs_init) = Normal \<longleftrightarrow> session_id (fold rs_step es rs_init) = []) \<and>
    (status (fold rs_step es rs_init) = Frozen \<longrightarrow>
      status (rs_step e (fold rs_step es rs_init)) \<noteq> Loading)"
proof -
  have "session_inv (fold rs_step es rs_init)"
    using assms by (intro rs.run_inv) (simp_all add: session_inv_def rs_init_def)
  moreover have "status s = Frozen \<Longrightarrow> status (rs_step e s) \<noteq> Loading" for s
    using rs_step_trans [of s e] by (auto elim: frozen_to_loading)
  ultimately show ?thesis by (simp add: session_inv_def)
qed

text \<open>
  a freeze is undone by the thaw of the same session and by no thaw of another one;
  while it lasts, writes are refused and a second freeze or a load is refused.
\<close>

theorem freeze_thaw:
  assumes "freeze sid s = Inr s'"
  shows "rs_check s' = Some ErrFrozen \<and> freeze sid' s' = Inl AlreadyInTransition \<and>
    start_load sid' s' = Inl AlreadyInTransition \<and>
    (sid' \<noteq> sid \<longrightarrow> thaw sid' s' = Inl SessionMismatch) \<and>
    (\<exists>t. thaw sid s' = Inr t \<and> rs_check t = None \<and> status t = Normal \<and> rs_buffer t = rs_buffer s)"
  using assms by (auto simp: machine_simps split: if_splits)

text \<open>
  the writes buffered during a load come back from the drain complete and in order,
  whatever an earlier load left in the buffer.
\<close>

theorem buffered_writes_drained:
  assumes "start_load sid s = Inr s'"
  shows "fst (drain_buffer (fold rs_step (List.map EBuffer ws) s')) = ws"
  using assms by (auto simp: buffer_all machine_simps split: if_splits)

section \<open>Witnesses\<close>

lemma transition_sessions_witness:
  "status (rs_step (EStartLoad ''t'') (fold rs_step [EFreeze ''s''] rs_init)) \<noteq> Loading"
proof -
  have "run_ok named_session rs_step [EFreeze ''s''] rs_init" by simp
  from transition_sessions [OF this, of "EStartLoad ''t''"] show ?thesis
    by (simp add: freeze_def rs_init_def or_keep_def)
qed

lemma freeze_thaw_witness:
  "rs_check \<lparr>status = Frozen, session_id = ''s'', rs_buffer = []\<rparr> = Some ErrFrozen"
  using freeze_thaw [of "''s''" rs_init "\<lparr>status = Frozen, session_id = ''s'', rs_buffer = []\<rparr>"]
  by (simp add: freeze_def rs_init_def)

lemma buffered_writes_drained_witness:
  "fst (drain_buffer (fold rs_step (List.map EBuffer [\<lparr>bw_id = ''e1'', bw_key = ''k1'', bw_value = ''{}''\<rparr>])
     \<lparr>status = Loading, session_id = ''s'', rs_buffer = []\<rparr>)) =
   [\<lparr>bw_id = ''e1'', bw_key = ''k1'', bw_value = ''{}''\<rparr>]"
  by (rule buffered_writes_drained [of "''s''" rs_init]) (simp add: start_load_def rs_init_def)

end
