(* ===== verification/GoStd.thy ===== *)
theory GoStd
  imports Prelude
begin

text \<open>
  The functions of Go's standard library whose results the components depend on, written
  out from their documented algorithm: FNV-1a (\<open>hash/fnv\<close>), decimal printing and
  parsing of unsigned numbers (\<open>strconv\<close>, the \<open>%d\<close> of \<open>fmt\<close>), binary search
  (\<open>sort.Search\<close>), and the contract of \<open>sort.Slice\<close>.
\<close>

section \<open>FNV-1a, 32 bits\<close>

definition fnv32a :: "bytes \<Rightarrow> u32" where
  "fnv32a s = fold (\<lambda>c h. xor h (of_nat (of_char c)) * 16777619) s 2166136261"

section \<open>Unsigned decimals\<close>

definition digit :: "nat \<Rightarrow> char" where
  "digit d = char_of (48 + d)"

fun format_uint :: "nat \<Rightarrow> string" where
  "format_uint n = (if n < 10 then [digit n] else format_uint (n div 10) @ [digit (n mod 10)])"

declare format_uint.simps [simp del]

datatype num_error = ErrSyntax | ErrRange

text \<open>
  \<open>strconv.ParseUint\<close> with base 10 and 64 bits returns a value beside the error: zero for
  a syntax error and the largest value for a number out of range.
\<close>

fun parse_digits :: "string \<Rightarrow> u64 \<Rightarrow> u64 \<times> num_error option" where
  "parse_digits [] n = (n, None)"
| "parse_digits (c # cs) n =
     (let d = (of_char c :: nat) in
      if \<not> (48 \<le> d \<and> d \<le> 57) then (0, Some ErrSyntax)
      else if n \<ge> 1844674407370955162 then (- 1, Some ErrRange)
      else (let n0 = n * 10; n1 = n0 + of_nat (d - 48)
            in if n1 < n0 then (- 1, Some ErrRange) else parse_digits cs n1))"

definition parse_uint :: "string \<Rightarrow> u64 \<times> num_error option" where
  "parse_uint s = (if s = [] then (0, Some ErrSyntax) else parse_digits s 0)"

lemma parse_digits_append:
  "parse_digits (xs @ ys) n =
     (case parse_digits xs n of (v, None) \<Rightarrow> parse_digits ys v | (v, Some e) \<Rightarrow> (v, Some e))"
  by (induction xs arbitrary: n) (simp_all add: Let_def)

lemma of_char_digit: "d < 10 \<Longrightarrow> (of_char (digit d) :: nat) = 48 + d"
  by (simp add: digit_def)

lemma unat_digit_step:
  assumes "10 * m + d < 2 ^ 64"
  shows "unat (of_nat m * 10 :: u64) = 10 * m" and "unat (of_nat m * 10 + of_nat d :: u64) = 10 * m + d"
proof -
  have "(of_nat m * 10 :: u64) = of_nat (10 * m)" by simp
  then show "unat (of_nat m * 10 :: u64) = 10 * m"
    using assms by (simp only:) (rule unat_of_nat_u64, simp)
  have "(of_nat m * 10 + of_nat d :: u64) = of_nat (10 * m + d)" by simp
  then show "unat (of_nat m * 10 + of_nat d :: u64) = 10 * m + d"
    using assms by (simp only:) (rule unat_of_nat_u64, simp)
qed

lemma parse_one_digit:
  assumes "10 * m + d < 2 ^ 64" and "d < 10"
  shows "parse_digits [digit d] (of_nat m) = (of_nat (10 * m + d), None)"
proof -
  have "unat (of_nat m :: u64) = m" using assms by (intro unat_of_nat_u64) simp
  then have "\<not> (of_nat m :: u64) \<ge> 1844674407370955162"
    using assms by (simp add: word_le_nat_alt)
  moreover have "\<not> (of_nat m * 10 + of_nat d :: u64) < of_nat m * 10"
    using unat_digit_step [OF assms(1)] by (simp add: word_less_nat_alt)
  ultimately show ?thesis
    using assms(2) by (simp add: of_char_digit Let_def mult.commute)
qed

lemma format_uint_nonempty [simp]: "format_uint n \<noteq> []"
  by (subst format_uint.simps) simp

lemma parse_digits_format: "n < 2 ^ 64 \<Longrightarrow> parse_digits (format_uint n) 0 = (of_nat n, None)"
proof (induction n rule: format_uint.induct)
  case (1 n)
  show ?case
  proof (cases "n < 10")
    case True
    then show ?thesis
      using parse_one_digit [of 0 n] "1.prems" by (subst format_uint.simps) simp
  next
    case False
    then have "parse_digits (format_uint (n div 10)) 0 = (of_nat (n div 10), None)"
      using 1 by simp
    with False show ?thesis
      using parse_one_digit [of "n div 10" "n mod 10"] "1.prems"
      by (subst format_uint.simps) (simp add: parse_digits_append)
  qed
qed

lemma parse_format_uint: "parse_uint (format_uint (unat v)) = (v, None)"
proof -
  have "unat v < 2 ^ 64" using unsigned_less [of v] by simp
  from parse_digits_format [OF this] show ?thesis by (simp add: parse_uint_def)
qed

section \<open>Binary search\<close>

text \<open>\<open>sort.Search(n, f)\<close>: the loop \<open>for i < j\<close> over the interval that holds the answer.\<close>

function search_loop :: "(nat \<Rightarrow> bool) \<Rightarrow> nat \<Rightarrow> nat \<Rightarrow> nat" where
  "search_loop f i j =
     (if i < j then (let h = (i + j) div 2 in if \<not> f h then search_loop f (h + 1) j else search_loop f i h)
      else i)"
  by pat_completeness auto
termination
  by (relation "measure (\<lambda>(f, i, j). j - i)") auto

declare search_loop.simps [simp del]

definition sort_search :: "nat \<Rightarrow> (nat \<Rightarrow> bool) \<Rightarrow> nat" where
  "sort_search n f = search_loop f 0 n"

lemma search_loop_correct:
  assumes "i \<le> j" and "\<And>a b. a \<le> b \<Longrightarrow> b < n \<Longrightarrow> f a \<Longrightarrow> f b"
    and "j \<le> n" and "\<forall>a. a < i \<longrightarrow> \<not> f a" and "\<forall>a. j \<le> a \<and> a < n \<longrightarrow> f a"
  shows "search_loop f i j \<le> n \<and> (\<forall>a. a < search_loop f i j \<longrightarrow> \<not> f a) \<and>
    (\<forall>a. search_loop f i j \<le> a \<and> a < n \<longrightarrow> f a)"
  using assms
proof (induction f i j rule: search_loop.induct)
  case (1 f i j)
  let ?h = "(i + j) div 2"
  consider "\<not> i < j" | "i < j" "f ?h" | "i < j" "\<not> f ?h" by blast
  then show ?case
  proof cases
    case 1
    then have "search_loop f i j = i" by (simp add: search_loop.simps [of f i j])
    with 1 "1.prems" show ?thesis by simp
  next
    case 2
    then have eq: "search_loop f i j = search_loop f i ?h"
      by (simp add: search_loop.simps [of f i j] Let_def)
    have "\<forall>a. ?h \<le> a \<and> a < n \<longrightarrow> f a" using "1.prems"(2) 2(2) by blast
    with 2 "1.prems" show ?thesis unfolding eq by (intro "1.IH"(2)) auto
  next
    case 3
    then have eq: "search_loop f i j = search_loop f (?h + 1) j"
      by (simp add: search_loop.simps [of f i j] Let_def)
    have "?h < n" using 3 "1.prems"(3) by auto
    then have "\<forall>a. a < ?h + 1 \<longrightarrow> \<not> f a"
      using "1.prems"(2) 3(2) by (metis Suc_eq_plus1 less_Suc_eq_le)
    with 3 "1.prems" show ?thesis unfolding eq by (intro "1.IH"(1)) auto
  qed
qed

text \<open>On a list sorted by \<open>g\<close>, searching \<open>g x \<ge> c\<close> counts the elements below \<open>c\<close>.\<close>

lemma sort_search_sorted:
  fixes g :: "'a \<Rightarrow> 'b::linorder"
  assumes "sorted (List.map g xs)"
  shows "sort_search (length xs) (\<lambda>i. g (xs ! i) \<ge> c) = length (takeWhile (\<lambda>x. g x < c) xs)"
proof -
  let ?f = "\<lambda>i. g (xs ! i) \<ge> c" and ?k = "length (takeWhile (\<lambda>x. g x < c) xs)"
  let ?s = "sort_search (length xs) ?f"
  have main: "?s \<le> length xs \<and> (\<forall>a. a < ?s \<longrightarrow> \<not> ?f a) \<and> (\<forall>a. ?s \<le> a \<and> a < length xs \<longrightarrow> ?f a)"
    unfolding sort_search_def
  proof (rule search_loop_correct)
    fix a b assume "a \<le> b" "b < length xs" "c \<le> g (xs ! a)"
    with sorted_nth_mono [OF assms, of a b] show "c \<le> g (xs ! b)" by auto
  qed auto
  note s = main [THEN conjunct1] main [THEN conjunct2, THEN conjunct1, rule_format]
    main [THEN conjunct2, THEN conjunct2, rule_format, OF conjI]
  show ?thesis
  proof (rule antisym)
    show "?s \<le> ?k"
    proof (rule ccontr)
      assume "\<not> ?s \<le> ?k"
      then have "?k < ?s" by simp
      then have "\<not> ?f ?k" by (rule s(2))
      moreover have "?k < length xs" using \<open>?k < ?s\<close> s(1) by linarith
      ultimately show False using nth_length_takeWhile [of "\<lambda>x. g x < c" xs] by simp
    qed
    show "?k \<le> ?s"
    proof (rule ccontr)
      assume "\<not> ?k \<le> ?s"
      then have lt: "?s < ?k" by simp
      then have "takeWhile (\<lambda>x. g x < c) xs ! ?s \<in> set (takeWhile (\<lambda>x. g x < c) xs)"
        by (rule nth_mem)
      then have "g (xs ! ?s) < c" using lt by (auto simp: takeWhile_nth dest: set_takeWhileD)
      moreover have "?s < length xs" using lt length_takeWhile_le [of "\<lambda>x. g x < c" xs] by linarith
      ultimately show False using s(3) [of ?s] by (simp add: not_le [symmetric])
    qed
  qed
qed

section \<open>\<open>sort.Slice\<close>\<close>

text \<open>
  \<open>sort.Slice\<close> is not stable: the documentation promises a permutation sorted by the
  comparison, and nothing about the order of elements that compare equal. Operations that
  sort take the sorting function as an argument; this is all they may rely on.
\<close>

definition is_sort_slice :: "('a \<Rightarrow> 'k::linorder) \<Rightarrow> ('a list \<Rightarrow> 'a list) \<Rightarrow> bool" where
  "is_sort_slice key srt \<longleftrightarrow> (\<forall>xs. mset (srt xs) = mset xs \<and> sorted (List.map key (srt xs)))"

lemma is_sort_slice_sort_key: "is_sort_slice key (sort_key key)"
  by (simp add: is_sort_slice_def)

lemma sort_slice_mset: "is_sort_slice key srt \<Longrightarrow> mset (srt xs) = mset xs"
  by (simp add: is_sort_slice_def)

lemma sort_slice_set: "is_sort_slice key srt \<Longrightarrow> set (srt xs) = set xs"
  by (metis is_sort_slice_def mset_eq_setD)

lemma sort_slice_length: "is_sort_slice key srt \<Longrightarrow> length (srt xs) = length xs"
  by (metis is_sort_slice_def size_mset)

lemma sort_slice_sorted: "is_sort_slice key srt \<Longrightarrow> sorted (List.map key (srt xs))"
  by (simp add: is_sort_slice_def)

text \<open>When elements with the same key are equal the result is determined by the elements.\<close>

lemma sorted_unique:
  fixes key :: "'a \<Rightarrow> 'k::linorder"
  assumes "mset xs = mset ys" and "sorted (List.map key xs)" and "sorted (List.map key ys)"
    and "inj_on key (set xs)"
  shows "xs = ys"
proof -
  have "mset (List.map key xs) = mset (List.map key ys)" using assms(1) by simp
  then have "sort (List.map key ys) = List.map key xs" using assms(2) by (rule properties_for_sort)
  then have "List.map key xs = List.map key ys" using assms(3) by (simp add: sorted_sort_id)
  moreover have "inj_on key (set xs \<union> set ys)"
    using assms(4) mset_eq_setD [OF assms(1)] by simp
  ultimately show ?thesis by (rule map_inj_on)
qed

section \<open>First occurrences\<close>

text \<open>The elements of a list that are not in \<open>S\<close>, each at its first occurrence.\<close>

fun firsts :: "'a set \<Rightarrow> 'a list \<Rightarrow> 'a list" where
  "firsts S [] = []"
| "firsts S (x # xs) = (if x \<in> S then firsts S xs else x # firsts (insert x S) xs)"

lemma set_firsts [simp]: "set (firsts S xs) = set xs - S"
  by (induction xs arbitrary: S) auto

lemma distinct_firsts [simp]: "distinct (firsts S xs)"
  by (induction xs arbitrary: S) auto

lemma firsts_insert: "x \<notin> set xs \<Longrightarrow> firsts (insert x S) xs = firsts S xs"
proof (induction xs arbitrary: S)
  case Nil
  then show ?case by simp
next
  case (Cons y xs)
  then have "firsts (insert x (insert y S)) xs = firsts (insert y S) xs" by simp
  with Cons show ?case by (auto simp: insert_commute)
qed

lemma filter_firsts: "filter P (firsts S xs) = firsts S (filter P xs)"
  by (induction xs arbitrary: S) (auto simp: firsts_insert)

lemma length_firsts: "length (firsts S xs) = card (set xs - S)"
  by (metis distinct_card distinct_firsts set_firsts)

end
