(* ===== verification/HashRing.thy ===== *)
theory HashRing
  imports GoStd
begin

text \<open>
  \<open>internal/ring/ring.go\<close>: the consistent-hash ring with 150 virtual nodes per node that
  gateways and primaries route by. The mutex makes each method one step. The sorting
  function behind \<open>sort.Slice\<close> is the argument \<open>srt\<close> (see \<open>is_sort_slice\<close>);
  \<open>sort.Strings\<close> orders a total order, so its result is the one sorted list.
\<close>

section \<open>State and operations\<close>

definition vnodes :: nat where
  "vnodes = 150"

record point =
  pt_hash :: u32
  pt_node :: string

record ring =
  points :: "point list"
  nodes :: "string list"

definition hash_key :: "string \<Rightarrow> u32" where
  "hash_key s = fnv32a s"

text \<open>The points one node adds, hashed from \<open>fmt.Sprintf("%s#%d", n, i)\<close>.\<close>

definition vnode_points :: "string \<Rightarrow> point list" where
  "vnode_points n =
     List.map (\<lambda>i. \<lparr>pt_hash = hash_key (n @ ''#'' @ format_uint i), pt_node = n\<rparr>) [0..<vnodes]"

text \<open>The loop of \<open>New\<close> that drops repeated nodes.\<close>

fun dedup_nodes :: "string list \<Rightarrow> string set \<Rightarrow> string list \<Rightarrow> string list" where
  "dedup_nodes [] seen acc = acc"
| "dedup_nodes (n # ns) seen acc =
     (if n \<in> seen then dedup_nodes ns seen acc else dedup_nodes ns (insert n seen) (acc @ [n]))"

definition ring_new :: "(point list \<Rightarrow> point list) \<Rightarrow> string list \<Rightarrow> ring" where
  "ring_new srt ns =
     (let ns' = sort (dedup_nodes ns {} [])
      in \<lparr>points = srt (concat (List.map vnode_points ns')), nodes = ns'\<rparr>)"

definition ring_add :: "(point list \<Rightarrow> point list) \<Rightarrow> string \<Rightarrow> ring \<Rightarrow> ring" where
  "ring_add srt node r =
     (if node \<in> set (nodes r) then r
      else r\<lparr>nodes := sort (nodes r @ [node]), points := srt (points r @ vnode_points node)\<rparr>)"

definition ring_remove :: "string \<Rightarrow> ring \<Rightarrow> ring" where
  "ring_remove node r =
     r\<lparr>nodes := filter (\<lambda>n. n \<noteq> node) (nodes r), points := filter (\<lambda>p. pt_node p \<noteq> node) (points r)\<rparr>"

definition ring_owner :: "ring \<Rightarrow> string \<Rightarrow> string" where
  "ring_owner r key =
     (if points r = [] then []
      else (let h = hash_key key;
                i = sort_search (length (points r)) (\<lambda>i. pt_hash (points r ! i) \<ge> h)
            in pt_node (points r ! (i mod length (points r)))))"

text \<open>
  The loop of \<open>Replicas\<close>. \<open>None\<close>: it does not end; \<open>Inl DivideByZero\<close>: the modulus by
  the number of points panics.
\<close>

partial_function (option) replica_loop ::
    "point list \<Rightarrow> int \<Rightarrow> nat \<Rightarrow> string set \<Rightarrow> string list \<Rightarrow> (panic + string list) option" where
  "replica_loop ps rf i seen result =
     (if int (length result) < rf
      then (if ps = [] then Some (Inl DivideByZero)
            else (let n = pt_node (ps ! (i mod length ps))
                  in if n \<notin> seen then replica_loop ps rf (i + 1) (insert n seen) (result @ [n])
                     else replica_loop ps rf (i + 1) seen result))
      else Some (Inr result))"

definition ring_replicas :: "ring \<Rightarrow> string \<Rightarrow> int \<Rightarrow> (panic + string list) option" where
  "ring_replicas r key rf =
     (if nodes r = [] then Some (Inr [])
      else (let rf' = (if rf > int (length (nodes r)) then int (length (nodes r)) else rf);
                h = hash_key key;
                i = sort_search (length (points r)) (\<lambda>i. pt_hash (points r ! i) \<ge> h)
            in replica_loop (points r) rf' i {} []))"

definition ring_nodes :: "ring \<Rightarrow> string list" where
  "ring_nodes r = nodes r"

section \<open>The invariant\<close>

definition ring_ok :: "ring \<Rightarrow> bool" where
  "ring_ok r \<longleftrightarrow> distinct (nodes r) \<and> sorted (nodes r) \<and> sorted (List.map pt_hash (points r)) \<and>
     mset (points r) = mset (concat (List.map vnode_points (nodes r)))"

lemma vnode_points_node: "p \<in> set (vnode_points n) \<Longrightarrow> pt_node p = n"
  by (auto simp: vnode_points_def)

lemma vnode_points_nonempty [simp]: "vnode_points n \<noteq> []"
  by (simp add: vnode_points_def vnodes_def)

lemma filter_vnode_points:
  "filter (\<lambda>p. pt_node p \<noteq> m) (vnode_points n) = (if n = m then [] else vnode_points n)"
  by (auto simp: filter_id_conv filter_empty_conv dest: vnode_points_node)

lemma set_dedup_nodes: "set (dedup_nodes ns seen acc) = set acc \<union> (set ns - seen)"
  by (induction ns seen acc rule: dedup_nodes.induct) auto

lemma distinct_dedup_nodes:
  "distinct acc \<Longrightarrow> set acc \<subseteq> seen \<Longrightarrow> distinct (dedup_nodes ns seen acc)"
  by (induction ns seen acc rule: dedup_nodes.induct) auto

lemma ring_new_ok: "is_sort_slice pt_hash srt \<Longrightarrow> ring_ok (ring_new srt ns)"
  by (simp add: ring_ok_def ring_new_def Let_def distinct_dedup_nodes sort_slice_mset sort_slice_sorted)

lemma mset_concat_perm: "mset xs = mset ys \<Longrightarrow> mset (concat (List.map f xs)) = mset (concat (List.map f ys))"
proof -
  assume eq: "mset xs = mset ys"
  have "mset (concat (List.map f zs)) = sum_mset (image_mset (\<lambda>x. mset (f x)) (mset zs))" for zs
    by (simp add: mset_concat comp_def flip: sum_mset_sum_list)
  with eq show ?thesis by simp
qed

lemma ring_add_ok: "is_sort_slice pt_hash srt \<Longrightarrow> ring_ok r \<Longrightarrow> ring_ok (ring_add srt n r)"
  using mset_concat_perm [of "sort (nodes r @ [n])" "nodes r @ [n]" vnode_points]
  by (auto simp: ring_ok_def ring_add_def sort_slice_mset sort_slice_sorted)

lemma sorted_map_filter: "sorted (List.map f xs) \<Longrightarrow> sorted (List.map f (filter P xs))"
  by (rule sorted_filter)

lemma filter_concat_vnodes:
  "filter (\<lambda>p. pt_node p \<noteq> m) (concat (List.map vnode_points ns)) =
     concat (List.map vnode_points (filter (\<lambda>n. n \<noteq> m) ns))"
  by (induction ns) (auto simp: filter_vnode_points)

lemma ring_remove_ok: "ring_ok r \<Longrightarrow> ring_ok (ring_remove n r)"
  by (simp add: ring_ok_def ring_remove_def sorted_map_filter sorted_filter [where f = "\<lambda>x. x", simplified]
      mset_filter filter_concat_vnodes [symmetric])

text \<open>Membership updates as a machine.\<close>

datatype ring_event = AddNode string | RemoveNode string

fun ring_step :: "(point list \<Rightarrow> point list) \<Rightarrow> ring_event \<Rightarrow> ring \<Rightarrow> ring" where
  "ring_step srt (AddNode n) r = ring_add srt n r"
| "ring_step srt (RemoveNode n) r = ring_remove n r"

interpretation rg: machine "ring_step srt" "\<lambda>_ _. is_sort_slice pt_hash srt" ring_ok for srt
proof
  fix r e assume "ring_ok r" "is_sort_slice pt_hash srt"
  then show "ring_ok (ring_step srt e r)"
    by (cases e) (simp_all add: ring_add_ok ring_remove_ok)
qed

lemma vnode_points_nodes: "pt_node ` set (vnode_points n) = {n}"
  using vnode_points_node vnode_points_nonempty [of n]
  by (auto simp: image_iff) (metis list.set_sel(1) vnode_points_nonempty)

lemma ring_ok_points_nodes:
  assumes "ring_ok r"
  shows "pt_node ` set (points r) = set (nodes r)"
proof -
  have "set (points r) = set (concat (List.map vnode_points (nodes r)))"
    using assms unfolding ring_ok_def by (metis mset_eq_setD)
  then have "pt_node ` set (points r) = (\<Union>n\<in>set (nodes r). pt_node ` set (vnode_points n))"
    by auto
  then show ?thesis by (simp add: vnode_points_nodes)
qed

lemma ring_ok_points_empty: "ring_ok r \<Longrightarrow> points r = [] \<longleftrightarrow> nodes r = []"
  using ring_ok_points_nodes [of r] by auto

section \<open>The clockwise walk\<close>

text \<open>
  The points in the order the ring visits them from the hash of a key: those at or above
  the hash, then the others. The two loops of the code are a walk along this list.
\<close>

definition clockwise :: "ring \<Rightarrow> string \<Rightarrow> point list" where
  "clockwise r key = dropWhile (\<lambda>p. pt_hash p < hash_key key) (points r) @
     takeWhile (\<lambda>p. pt_hash p < hash_key key) (points r)"

lemma clockwise_rotate:
  "clockwise r key = rotate (length (takeWhile (\<lambda>p. pt_hash p < hash_key key) (points r))) (points r)"
  using rotate_append [of "takeWhile (\<lambda>p. pt_hash p < hash_key key) (points r)"
      "dropWhile (\<lambda>p. pt_hash p < hash_key key) (points r)"]
  by (simp add: clockwise_def)

lemma clockwise_filter:
  assumes "sorted (List.map pt_hash (points r))"
  shows "clockwise r key = filter (\<lambda>p. \<not> pt_hash p < hash_key key) (points r) @
     filter (\<lambda>p. pt_hash p < hash_key key) (points r)"
  using assms sorted_wrt_filter_drop [of pt_hash "points r" "hash_key key"]
    sorted_wrt_filter_take [of pt_hash "points r" "hash_key key"]
  by (simp add: clockwise_def)

lemma clockwise_remove:
  assumes "sorted (List.map pt_hash (points r))"
  shows "clockwise (ring_remove n r) key = filter (\<lambda>p. pt_node p \<noteq> n) (clockwise r key)"
  using assms
  by (simp add: clockwise_filter ring_remove_def sorted_map_filter conj_commute)

lemma set_clockwise: "set (clockwise r key) = set (points r)"
  by (simp add: clockwise_rotate)

definition walk :: "point list \<Rightarrow> nat \<Rightarrow> nat \<Rightarrow> string list" where
  "walk ps i k = List.map (\<lambda>j. pt_node (ps ! ((i + j) mod length ps))) [0..<k]"

lemma walk_0 [simp]: "walk ps i 0 = []"
  by (simp add: walk_def)

lemma walk_Suc: "walk ps i (Suc k) = pt_node (ps ! (i mod length ps)) # walk ps (i + 1) k"
  by (simp add: walk_def upt_conv_Cons map_Suc_upt [symmetric] comp_def del: upt_Suc)

lemma walk_all: "walk ps i (length ps) = List.map pt_node (rotate i ps)"
  by (rule nth_equalityI) (simp_all add: walk_def nth_rotate)

text \<open>
  While enough new nodes lie ahead, the loop ends and collects the first occurrences of
  the nodes it passes.
\<close>

lemma replica_loop_walk:
  assumes "ps \<noteq> []" and "int (length result) \<le> rf"
    and "rf \<le> int (length result + length (firsts seen (walk ps i k)))"
  shows "replica_loop ps rf i seen result =
    Some (Inr (take (nat rf) (result @ firsts seen (walk ps i k))))"
  using assms
proof (induction k arbitrary: i seen result)
  case 0
  then show ?case by (subst replica_loop.simps) simp
next
  case (Suc k)
  let ?n = "pt_node (ps ! (i mod length ps))"
  show ?case
  proof (cases "int (length result) < rf")
    case False
    with Suc.prems(2) have "nat rf = length result" by simp
    with False show ?thesis by (subst replica_loop.simps) simp
  next
    case True
    then have "replica_loop ps rf i seen result =
      (if ?n \<notin> seen then replica_loop ps rf (i + 1) (insert ?n seen) (result @ [?n])
       else replica_loop ps rf (i + 1) seen result)"
      using Suc.prems(1) by (subst replica_loop.simps) (simp add: Let_def)
    with True Suc.prems Suc.IH [of result seen "i + 1"]
      Suc.IH [of "result @ [?n]" "insert ?n seen" "i + 1"] show ?thesis
      by (cases "?n \<in> seen") (simp_all add: walk_Suc)
  qed
qed

text \<open>The nodes of the walk from a key, each once: the order in which they hold replicas.\<close>

definition preference :: "ring \<Rightarrow> string \<Rightarrow> string list" where
  "preference r key = firsts {} (List.map pt_node (clockwise r key))"

lemma set_preference: "ring_ok r \<Longrightarrow> set (preference r key) = set (nodes r)"
  by (simp add: preference_def set_clockwise ring_ok_points_nodes)

lemma distinct_preference [simp]: "distinct (preference r key)"
  by (simp add: preference_def)

lemma length_preference: "ring_ok r \<Longrightarrow> length (preference r key) = length (nodes r)"
  by (metis distinct_card distinct_preference ring_ok_def set_preference)

lemma ring_search:
  "ring_ok r \<Longrightarrow> sort_search (length (points r)) (\<lambda>i. pt_hash (points r ! i) \<ge> hash_key key) =
     length (takeWhile (\<lambda>p. pt_hash p < hash_key key) (points r))"
  by (rule sort_search_sorted) (simp add: ring_ok_def)

lemma replicas_preference:
  assumes "ring_ok r"
  shows "ring_replicas r key rf = Some (Inr (take (nat rf) (preference r key)))"
proof (cases "nodes r = []")
  case True
  then have "points r = []" using assms by (simp add: ring_ok_points_empty)
  with True show ?thesis by (simp add: ring_replicas_def preference_def clockwise_def)
next
  case False
  let ?i = "length (takeWhile (\<lambda>p. pt_hash p < hash_key key) (points r))"
  let ?rf = "if rf > int (length (nodes r)) then int (length (nodes r)) else rf"
  have ps: "points r \<noteq> []" using False assms by (simp add: ring_ok_points_empty)
  have walk: "firsts {} (walk (points r) ?i (length (points r))) = preference r key"
    by (simp add: walk_all preference_def clockwise_rotate)
  have "replica_loop (points r) ?rf ?i {} [] = Some (Inr (take (nat ?rf) (preference r key)))"
  proof (cases "rf < 0")
    case True
    then show ?thesis by (subst replica_loop.simps) simp
  next
    case False
    then show ?thesis
      using replica_loop_walk [OF ps, of "[]" ?rf "{}" ?i "length (points r)"] assms
      by (simp add: walk length_preference)
  qed
  moreover have "take (nat ?rf) (preference r key) = take (nat rf) (preference r key)"
    using assms by (simp add: length_preference)
  ultimately show ?thesis
    using False assms by (simp add: ring_replicas_def ring_search Let_def)
qed

lemma owner_preference:
  assumes "ring_ok r" and "nodes r \<noteq> []"
  shows "ring_owner r key = hd (preference r key)"
proof -
  let ?i = "length (takeWhile (\<lambda>p. pt_hash p < hash_key key) (points r))"
  have ps: "points r \<noteq> []" using assms by (simp add: ring_ok_points_empty)
  have "hd (preference r key) = hd (List.map pt_node (rotate ?i (points r)))"
    using ps unfolding preference_def clockwise_rotate
    by (cases "List.map pt_node (rotate ?i (points r))") auto
  also have "\<dots> = pt_node (points r ! (?i mod length (points r)))"
    using ps by (simp add: hd_map hd_rotate_conv_nth)
  finally show ?thesis using ps assms by (simp add: ring_owner_def ring_search Let_def)
qed

lemma preference_remove:
  assumes "ring_ok r"
  shows "preference (ring_remove n r) key = filter (\<lambda>m. m \<noteq> n) (preference r key)"
  using assms
  by (simp add: preference_def clockwise_remove ring_ok_def filter_firsts filter_map comp_def)

section \<open>Adding a node\<close>

text \<open>
  No two points of different nodes share a hash. Without this, \<open>sort.Slice\<close> may order the
  tied points either way.
\<close>

definition no_collisions :: "string list \<Rightarrow> bool" where
  "no_collisions ns \<longleftrightarrow> (let ps = concat (List.map vnode_points ns) in
     \<forall>p\<in>set ps. \<forall>q\<in>set ps. pt_hash p = pt_hash q \<longrightarrow> pt_node p = pt_node q)"

lemma no_collisions_inj: "no_collisions ns \<Longrightarrow> inj_on pt_hash (set (concat (List.map vnode_points ns)))"
  by (rule inj_onI) (metis no_collisions_def point.equality unit.exhaust)

lemma points_determined:
  assumes "ring_ok r" and "ring_ok r'" and "set (nodes r) = set (nodes r')"
    and "no_collisions (nodes r)"
  shows "r = r'"
proof -
  have nodes: "nodes r = nodes r'"
    using assms by (auto simp: ring_ok_def intro: sorted_distinct_set_unique)
  have "set (points r) = set (concat (List.map vnode_points (nodes r)))"
    using assms(1) unfolding ring_ok_def by (metis mset_eq_setD)
  then have "inj_on pt_hash (set (points r))"
    using no_collisions_inj [OF assms(4)] by simp
  moreover have "mset (points r) = mset (points r')"
    using assms(1,2) nodes by (simp add: ring_ok_def)
  ultimately have "points r = points r'"
    using assms(1,2) by (intro sorted_unique) (auto simp: ring_ok_def)
  with nodes show ?thesis by simp
qed

lemma ring_remove_add:
  assumes "is_sort_slice pt_hash srt" and "ring_ok r" and "n \<notin> set (nodes r)"
    and "no_collisions (nodes r)"
  shows "ring_remove n (ring_add srt n r) = r"
proof (rule sym, rule points_determined)
  show "ring_ok (ring_remove n (ring_add srt n r))"
    using assms by (intro ring_remove_ok ring_add_ok)
  show "set (nodes r) = set (nodes (ring_remove n (ring_add srt n r)))"
    using assms(3) by (auto simp: ring_remove_def ring_add_def)
qed (use assms in auto)

lemma preference_add:
  assumes "is_sort_slice pt_hash srt" and "ring_ok r" and "n \<notin> set (nodes r)"
    and "no_collisions (nodes r)"
  shows "filter (\<lambda>m. m \<noteq> n) (preference (ring_add srt n r) key) = preference r key"
  using preference_remove [OF ring_add_ok [OF assms(1,2)], of n n key] ring_remove_add [OF assms]
  by simp

lemma hd_filter: "filter P xs \<noteq> [] \<Longrightarrow> P (hd xs) \<Longrightarrow> hd (filter P xs) = hd xs"
  by (cases xs) auto

lemma length_filter_neq:
  "distinct xs \<Longrightarrow> length (filter (\<lambda>m. m \<noteq> n) xs) = length xs - (if n \<in> set xs then 1 else 0)"
proof (induction xs)
  case Nil
  then show ?case by simp
next
  case (Cons x xs)
  then show ?case by (cases "n \<in> set xs") (auto dest: length_pos_if_in_set)
qed

lemma filter_take_preference:
  assumes "distinct P"
  shows "(\<exists>zs. length zs \<le> 1 \<and>
      take k (filter (\<lambda>m. m \<noteq> n) P) = filter (\<lambda>m. m \<noteq> n) (take k P) @ zs) \<and>
    (n \<notin> set (take k P) \<longrightarrow> take k (filter (\<lambda>m. m \<noteq> n) P) = take k P)"
proof -
  let ?f = "filter (\<lambda>m. m \<noteq> n)"
  define zs where "zs = take (k - length (?f (take k P))) (?f (drop k P))"
  have eq: "take k (?f P) = ?f (take k P) @ zs"
    using length_filter_le [of "\<lambda>m. m \<noteq> n" "take k P"] unfolding zs_def
    by (metis append_take_drop_id filter_append length_take min.bounded_iff take_append take_all)
  have len: "length (?f (take k P)) = length (take k P) - (if n \<in> set (take k P) then 1 else 0)"
    using assms by (intro length_filter_neq distinct_take)
  have zs: "length zs \<le> (if n \<in> set (take k P) then 1 else 0)"
    using len by (cases "length P \<le> k") (auto simp: zs_def min_def)
  moreover have "?f (take k P) = take k P" if "n \<notin> set (take k P)"
    using that by (auto simp: filter_id_conv)
  ultimately show ?thesis
    unfolding eq by (cases "n \<in> set (take k P)") (auto simp del: filter_False filter_True)
qed

section \<open>Properties\<close>

text \<open>
  C20: on every ring that \<open>New\<close>, \<open>Add\<close> and \<open>Remove\<close> can build, the loop of
  \<open>Replicas\<close> ends without a panic, and returns distinct nodes of the ring, as many as
  asked for or all there are, beginning with the owner of the key.
\<close>

theorem replicas_terminate:
  assumes "is_sort_slice pt_hash srt" and "r = fold (ring_step srt) es (ring_new srt ns)"
  shows "\<exists>xs. ring_replicas r key rf = Some (Inr xs) \<and> distinct xs \<and> set xs \<subseteq> set (nodes r) \<and>
    length xs = min (nat rf) (length (nodes r)) \<and> (xs \<noteq> [] \<longrightarrow> hd xs = ring_owner r key)"
proof -
  have "ring_ok r"
    unfolding assms(2) using assms(1)
    by (intro rg.run_inv ring_new_ok) (induction es arbitrary: ns, auto)
  moreover have "preference r key \<noteq> [] \<longrightarrow> hd (preference r key) = ring_owner r key"
    using owner_preference [of r key] set_preference [of r key] \<open>ring_ok r\<close> by (cases "nodes r = []") auto
  ultimately show ?thesis
    using replicas_preference [of r key rf] set_preference [of r key] length_preference [of r key]
    by (auto simp: min.commute hd_take dest: in_set_takeD)
qed

text \<open>
  C21: the two loops of the code agree with the definition of consistent hashing: the
  replicas of a key are the first \<open>rf\<close> different nodes met when walking clockwise from
  the hash of the key, and the owner is the first of them (the empty string on an empty
  ring).
\<close>

theorem replicas_clockwise:
  assumes "ring_ok r"
  shows "ring_replicas r key rf =
      Some (Inr (take (nat rf) (firsts {} (List.map pt_node (clockwise r key))))) \<and>
    ring_owner r key =
      (if nodes r = [] then [] else hd (firsts {} (List.map pt_node (clockwise r key))))"
proof -
  have "ring_owner r key = []" if "nodes r = []"
    using that assms by (simp add: ring_owner_def ring_ok_points_empty)
  then show ?thesis
    using replicas_preference [OF assms] owner_preference [OF assms, of key] by (simp add: preference_def)
qed

text \<open>
  C22: removing a node moves only its keys: a key it did not own keeps its owner, and the
  replicas of every key keep their order, losing that node and gaining at most one at the
  end.
\<close>

theorem remove_moves_only_its_keys:
  assumes "ring_ok r" and "ring_replicas r key rf = Some (Inr xs)"
    and "ring_replicas (ring_remove n r) key rf = Some (Inr ys)"
  shows "(nodes r \<noteq> [] \<and> ring_owner r key \<noteq> n \<longrightarrow>
      ring_owner (ring_remove n r) key = ring_owner r key) \<and>
    (\<exists>zs. length zs \<le> 1 \<and> ys = filter (\<lambda>m. m \<noteq> n) xs @ zs) \<and> (n \<notin> set xs \<longrightarrow> ys = xs)"
proof -
  let ?P = "preference r key"
  have ok: "ring_ok (ring_remove n r)" using assms(1) by (rule ring_remove_ok)
  have xs: "xs = take (nat rf) ?P" using assms by (simp add: replicas_preference)
  have ys: "ys = take (nat rf) (filter (\<lambda>m. m \<noteq> n) ?P)"
    using assms by (simp add: replicas_preference [OF ok] preference_remove)
  have "ring_owner (ring_remove n r) key = ring_owner r key" if "nodes r \<noteq> []" "ring_owner r key \<noteq> n"
  proof -
    have hd: "hd ?P = ring_owner r key" and ne: "?P \<noteq> []"
      using that assms(1) owner_preference [of r key] set_preference [of r key] by auto
    then have "filter (\<lambda>m. m \<noteq> n) ?P \<noteq> []" using that(2) by (cases ?P) auto
    moreover have "nodes (ring_remove n r) \<noteq> []"
      using set_preference [OF ok, of key] calculation assms(1)
      by (metis empty_set preference_remove set_empty)
    ultimately show ?thesis
      using hd that(2) assms(1) by (simp add: owner_preference [OF ok] preference_remove hd_filter)
  qed
  with filter_take_preference [of ?P "nat rf" n] show ?thesis unfolding xs ys by simp
qed

text \<open>
  adding a node moves keys only to that node: a key the new node does not own keeps
  its owner, provided no virtual nodes of different nodes share a hash.
\<close>

theorem add_moves_keys_only_to_it:
  assumes "is_sort_slice pt_hash srt" and "ring_ok r" and "no_collisions (nodes r)"
    and "nodes r \<noteq> []"
  shows "ring_owner (ring_add srt n r) key \<in> {ring_owner r key, n}"
proof (cases "n \<in> set (nodes r)")
  case True
  then show ?thesis by (simp add: ring_add_def)
next
  case False
  let ?r = "ring_add srt n r"
  have ok: "ring_ok ?r" and ne: "nodes ?r \<noteq> []"
    using assms False by (auto simp: ring_add_ok) (auto simp: ring_add_def simp flip: set_empty)
  have "preference r key \<noteq> []" using assms by (metis length_0_conv length_preference)
  then have "hd (preference ?r key) \<noteq> n \<longrightarrow> hd (preference ?r key) = hd (preference r key)"
    using preference_add [OF assms(1,2) False assms(3), of key] by (metis (mono_tags, lifting) hd_filter)
  then show ?thesis using owner_preference [OF ok ne] owner_preference [OF assms(2,4)] by auto
qed

text \<open>
  routing is a function of the set of nodes: two rings built by any constructions and
  any histories of joins and deaths, even with different sorting functions, are equal once
  they hold the same nodes, provided no virtual nodes of different nodes share a hash.
\<close>

theorem routing_determined_by_nodes:
  assumes "is_sort_slice pt_hash srt" and "is_sort_slice pt_hash srt'"
    and "r = fold (ring_step srt) es (ring_new srt ns)"
    and "r' = fold (ring_step srt') es' (ring_new srt' ns')"
    and "set (nodes r) = set (nodes r')" and "no_collisions (nodes r)"
  shows "r = r'"
proof (rule points_determined)
  show "ring_ok r"
    unfolding assms(3) using assms(1)
    by (intro rg.run_inv ring_new_ok) (induction es arbitrary: ns, auto)
  show "ring_ok r'"
    unfolding assms(4) using assms(2)
    by (intro rg.run_inv ring_new_ok) (induction es' arbitrary: ns', auto)
qed (use assms in auto)

section \<open>Witnesses\<close>

abbreviation stable :: "point list \<Rightarrow> point list" where
  "stable \<equiv> sort_key pt_hash"

lemma no_collisions_single: "no_collisions [n]"
  by (auto simp: no_collisions_def Let_def dest: vnode_points_node)

lemma replicas_terminate_witness:
  "\<exists>xs. ring_replicas (fold (ring_step stable) [AddNode ''b'', RemoveNode ''a''] (ring_new stable [''a'', ''c'']))
       ''key'' 5 = Some (Inr xs) \<and> distinct xs \<and>
     set xs \<subseteq> set (nodes (fold (ring_step stable) [AddNode ''b'', RemoveNode ''a''] (ring_new stable [''a'', ''c'']))) \<and>
     length xs = min (nat 5) (length (nodes
       (fold (ring_step stable) [AddNode ''b'', RemoveNode ''a''] (ring_new stable [''a'', ''c''])))) \<and>
     (xs \<noteq> [] \<longrightarrow> hd xs = ring_owner (fold (ring_step stable) [AddNode ''b'', RemoveNode ''a'']
       (ring_new stable [''a'', ''c''])) ''key'')"
  by (rule replicas_terminate [OF is_sort_slice_sort_key]) (rule refl)

lemma replicas_clockwise_witness:
  "ring_replicas (ring_new stable [''a'', ''b'']) ''key'' 2 =
    Some (Inr (take (nat 2) (firsts {} (List.map pt_node (clockwise (ring_new stable [''a'', ''b'']) ''key'')))))"
  using replicas_clockwise [OF ring_new_ok [OF is_sort_slice_sort_key], of "[''a'', ''b'']" "''key''" 2] by blast

lemma remove_moves_only_its_keys_witness:
  "\<exists>xs ys. ring_replicas (ring_new stable [''a'', ''b'']) ''key'' 1 = Some (Inr xs) \<and>
     ring_replicas (ring_remove ''a'' (ring_new stable [''a'', ''b''])) ''key'' 1 = Some (Inr ys) \<and>
     (''a'' \<notin> set xs \<longrightarrow> ys = xs)"
proof -
  let ?r = "ring_new stable [''a'', ''b'']"
  have ok: "ring_ok ?r" by (rule ring_new_ok [OF is_sort_slice_sort_key])
  obtain xs ys where "ring_replicas ?r ''key'' 1 = Some (Inr xs)"
    and "ring_replicas (ring_remove ''a'' ?r) ''key'' 1 = Some (Inr ys)"
    using replicas_preference [OF ok] replicas_preference [OF ring_remove_ok [OF ok]] by blast
  with remove_moves_only_its_keys [OF ok this] show ?thesis by blast
qed

lemma add_moves_keys_only_to_it_witness:
  "ring_owner (ring_add stable ''b'' (ring_new stable [''a''])) ''key''
     \<in> {ring_owner (ring_new stable [''a'']) ''key'', ''b''}"
  by (rule add_moves_keys_only_to_it [OF is_sort_slice_sort_key ring_new_ok [OF is_sort_slice_sort_key]])
    (simp_all add: ring_new_def Let_def no_collisions_single)

lemma routing_determined_by_nodes_witness:
  "fold (ring_step stable) [AddNode ''a'', RemoveNode ''b''] (ring_new stable [''b'']) =
   fold (ring_step stable) [] (ring_new stable [''a'', ''a''])"
  by (rule routing_determined_by_nodes [OF is_sort_slice_sort_key is_sort_slice_sort_key refl refl])
    (simp_all add: ring_new_def ring_add_def ring_remove_def Let_def no_collisions_single
      sort_key_simps insort_key.simps)

end
