(* ===== verification/Dedup.thy ===== *)
theory Dedup
  imports Prelude
begin

text \<open>
  The deduplication set of \<open>internal/log/log.go\<close>: the identifiers seen in the last
  \<open>ttl\<close>, in buckets of one second, with an index from identifier to bucket. The interface
  the log relies on is the locale \<open>dedup_index\<close>; it is interpreted on the code's model at
  the end.
\<close>

section \<open>The interface\<close>

text \<open>
  \<open>live d t\<close> is the set of identifiers that count as duplicates at time \<open>t\<close>.
\<close>

locale dedup_index =
  fixes seen :: "'i \<Rightarrow> gotime \<Rightarrow> 'd \<Rightarrow> bool \<times> 'd"
    and add :: "'i \<Rightarrow> gotime \<Rightarrow> 'd \<Rightarrow> 'd"
    and live :: "'d \<Rightarrow> gotime \<Rightarrow> 'i set"
    and good :: "'d \<Rightarrow> bool"
  assumes seen_iff: "good d \<Longrightarrow> fst (seen i now d) \<longleftrightarrow> i \<in> live d now"
    and live_seen: "good d \<Longrightarrow> now \<le> t \<Longrightarrow> live (snd (seen i now d)) t = live d t"
    and live_add: "good d \<Longrightarrow> i \<notin> live d now \<Longrightarrow>
      live (add i now (snd (seen i now d))) now = insert i (live d now)"
    and good_seen: "good d \<Longrightarrow> good (snd (seen i now d))"
    and good_add: "good d \<Longrightarrow> good (add i now d)"
begin

text \<open>Asking for each identifier in turn at one time, and adding those not seen.\<close>

fun admit_ids :: "gotime \<Rightarrow> 'i list \<Rightarrow> 'd \<Rightarrow> 'i list" where
  "admit_ids now [] d = []"
| "admit_ids now (i # is) d =
     (case seen i now d of
        (True, d') \<Rightarrow> admit_ids now is d'
      | (False, d') \<Rightarrow> i # admit_ids now is (add i now d'))"

lemma set_admit_ids: "good d \<Longrightarrow> set (admit_ids now is d) = set is - live d now"
proof (induction "is" arbitrary: d)
  case Nil
  then show ?case by simp
next
  case (Cons i "is")
  obtain b d' where s: "seen i now d = (b, d')" by fastforce
  with Cons.prems good_seen [of d i now] good_add [of d' i now]
  have g: "good d'" "good (add i now d')" by auto
  show ?case
  proof (cases b)
    case True
    with Cons g s seen_iff [of d i now] live_seen [of d now now i] show ?thesis by auto
  next
    case False
    with Cons g s seen_iff [of d i now] live_add [of d i now] show ?thesis by auto
  qed
qed

lemma distinct_admit_ids: "good d \<Longrightarrow> distinct (admit_ids now is d)"
proof (induction "is" arbitrary: d)
  case Nil
  then show ?case by simp
next
  case (Cons i "is")
  obtain b d' where s: "seen i now d = (b, d')" by fastforce
  with Cons.prems good_seen [of d i now] good_add [of d' i now]
  have g: "good d'" "good (add i now d')" by auto
  have "i \<in> live (add i now d') now" if "\<not> b"
    using s that Cons.prems seen_iff [of d i now] live_add [of d i now] by auto
  with Cons.IH g s set_admit_ids [OF g(2), of now "is"] show ?case by (cases b) auto
qed

end

section \<open>State and operations\<close>

definition dedup_ttl :: duration where
  "dedup_ttl = 5 * 60 * second"

record dedup =
  d_ttl :: duration
  d_buckets :: "(int, string list) gomap"
  d_at :: "(string, int) gomap"

definition new_dedup :: "duration \<Rightarrow> dedup" where
  "new_dedup ttl = \<lparr>d_ttl = ttl, d_buckets = [], d_at = []\<rparr>"

text \<open>\<open>Time.Unix\<close>: whole seconds, rounded down.\<close>

definition unix :: "gotime \<Rightarrow> int" where
  "unix t = t div second"

fun evict_loop :: "int \<Rightarrow> (int, string list) gomap \<Rightarrow> (string, int) gomap \<Rightarrow>
    (int, string list) gomap \<times> (string, int) gomap" where
  "evict_loop cutoff [] at = ([], at)"
| "evict_loop cutoff ((b, bucket) # rest) at =
     (if b > cutoff then (let (bs, at') = evict_loop cutoff rest at in ((b, bucket) # bs, at'))
      else evict_loop cutoff rest (fold AList.delete bucket at))"

definition dedup_evict :: "gotime \<Rightarrow> dedup \<Rightarrow> dedup" where
  "dedup_evict now d =
     (let (bs, at) = evict_loop (unix (now - d_ttl d)) (d_buckets d) (d_at d)
      in d\<lparr>d_buckets := bs, d_at := at\<rparr>)"

definition dedup_seen :: "string \<Rightarrow> gotime \<Rightarrow> dedup \<Rightarrow> bool \<times> dedup" where
  "dedup_seen i now d = (let d' = dedup_evict now d in (map_of (d_at d') i \<noteq> None, d'))"

definition dedup_add :: "string \<Rightarrow> gotime \<Rightarrow> dedup \<Rightarrow> dedup" where
  "dedup_add i now d =
     (if map_of (d_at d) i \<noteq> None then d
      else (let b = unix now;
                bucket = (case map_of (d_buckets d) b of None \<Rightarrow> [] | Some s \<Rightarrow> s)
            in d\<lparr>d_buckets := AList.update b (List.insert i bucket) (d_buckets d),
                 d_at := AList.update i b (d_at d)\<rparr>))"

definition dedup_len :: "dedup \<Rightarrow> nat" where
  "dedup_len d = length (d_at d)"

section \<open>The invariant\<close>

text \<open>The index and the buckets say the same.\<close>

definition dedup_ok :: "dedup \<Rightarrow> bool" where
  "dedup_ok d \<longleftrightarrow> map_ok (d_buckets d) \<and> map_ok (d_at d) \<and>
     (\<forall>i b. map_of (d_at d) i = Some b \<longleftrightarrow> (\<exists>s. map_of (d_buckets d) b = Some s \<and> i \<in> set s))"

lemma dedup_okD:
  "dedup_ok d \<Longrightarrow> map_of (d_at d) i = Some b \<longleftrightarrow> (\<exists>s. map_of (d_buckets d) b = Some s \<and> i \<in> set s)"
  by (simp add: dedup_ok_def)

lemma map_of_fold_delete:
  "map_of (fold AList.delete ks m) k = (if k \<in> set ks then None else map_of m k)"
  by (induction ks arbitrary: m) (auto simp: map_simps)

lemma map_ok_fold_delete: "map_ok m \<Longrightarrow> map_ok (fold AList.delete ks m)"
  by (induction ks arbitrary: m) auto

lemma fst_evict_loop: "fst (evict_loop c bs at) = filter (\<lambda>(b, _). b > c) bs"
  by (induction c bs at rule: evict_loop.induct) (auto simp: case_prod_beta)

lemma map_of_evict_loop:
  "map_of (snd (evict_loop c bs at)) i =
     (if \<exists>(b, s) \<in> set bs. b \<le> c \<and> i \<in> set s then None else map_of at i)"
  by (induction c bs at rule: evict_loop.induct) (auto simp: case_prod_beta map_of_fold_delete)

lemma map_ok_evict_loop: "map_ok at \<Longrightarrow> map_ok (snd (evict_loop c bs at))"
  by (induction c bs at rule: evict_loop.induct) (auto simp: case_prod_beta map_ok_fold_delete)

lemma dedup_evict_ttl [simp]: "d_ttl (dedup_evict now d) = d_ttl d"
  by (simp add: dedup_evict_def case_prod_beta Let_def)

lemma map_of_evict:
  assumes "dedup_ok d"
  shows "map_of (d_at (dedup_evict now d)) i =
    (case map_of (d_at d) i of None \<Rightarrow> None
     | Some b \<Rightarrow> if b > unix (now - d_ttl d) then Some b else None)"
proof -
  have "(\<exists>(b, s) \<in> set (d_buckets d). b \<le> c \<and> i \<in> set s) \<longleftrightarrow>
      (\<exists>b s. map_of (d_buckets d) b = Some s \<and> b \<le> c \<and> i \<in> set s)" for c
    using map_of_in_set [of "d_buckets d"] assms unfolding dedup_ok_def by fast
  then have "(\<exists>(b, s) \<in> set (d_buckets d). b \<le> c \<and> i \<in> set s) \<longleftrightarrow>
      (\<exists>b. map_of (d_at d) i = Some b \<and> b \<le> c)" for c
    using dedup_okD [OF assms] by blast
  then show ?thesis
    by (auto simp: dedup_evict_def case_prod_beta Let_def map_of_evict_loop split: option.split)
qed

lemma map_of_evict_buckets:
  "dedup_ok d \<Longrightarrow> map_of (d_buckets (dedup_evict now d)) b =
    (if b > unix (now - d_ttl d) then map_of (d_buckets d) b else None)"
  using map_of_filter_val [of "d_buckets d" "\<lambda>b _. b > unix (now - d_ttl d)" b]
  by (auto simp: dedup_ok_def dedup_evict_def case_prod_beta Let_def fst_evict_loop split: option.splits)

lemma map_of_evict_Some:
  "dedup_ok d \<Longrightarrow> map_of (d_at (dedup_evict now d)) i = Some b \<longleftrightarrow>
    map_of (d_at d) i = Some b \<and> unix (now - d_ttl d) < b"
  by (auto simp: map_of_evict split: option.splits if_splits)

lemma dedup_evict_ok:
  assumes "dedup_ok d"
  shows "dedup_ok (dedup_evict now d)"
proof -
  have "map_ok (d_buckets (dedup_evict now d))" and "map_ok (d_at (dedup_evict now d))"
    using assms
    by (auto simp: dedup_ok_def dedup_evict_def case_prod_beta Let_def fst_evict_loop map_ok_evict_loop)
  then show ?thesis
    using assms dedup_okD [OF assms]
    unfolding dedup_ok_def [of "dedup_evict now d"]
    by (auto simp only: map_of_evict_Some map_of_evict_buckets split: if_splits)
qed

lemma dedup_add_ok:
  assumes "dedup_ok d"
  shows "dedup_ok (dedup_add i now d)"
proof (cases "map_of (d_at d) i")
  case None
  let ?s = "case map_of (d_buckets d) (unix now) of None \<Rightarrow> [] | Some s \<Rightarrow> s"
  have old: "j \<in> set ?s \<longleftrightarrow> map_of (d_at d) j = Some (unix now)" for j
    using dedup_okD [OF assms, of j "unix now"] by (auto split: option.splits)
  have "map_of (d_at (dedup_add i now d)) j = Some b \<longleftrightarrow>
      (\<exists>s. map_of (d_buckets (dedup_add i now d)) b = Some s \<and> j \<in> set s)" for j b
    using None dedup_okD [OF assms, of j b] old [of j]
    by (cases "j = i"; cases "b = unix now") (simp_all add: dedup_add_def Let_def map_simps)
  moreover have "map_ok (d_buckets (dedup_add i now d))" and "map_ok (d_at (dedup_add i now d))"
    using assms by (simp_all add: dedup_ok_def dedup_add_def Let_def)
  ultimately show ?thesis by (simp add: dedup_ok_def)
qed (simp add: dedup_add_def assms)

lemma new_dedup_ok [simp]: "dedup_ok (new_dedup ttl)"
  by (simp add: dedup_ok_def new_dedup_def)

section \<open>What counts as a duplicate\<close>

definition live :: "dedup \<Rightarrow> gotime \<Rightarrow> string set" where
  "live d t = {i. \<exists>b. map_of (d_at d) i = Some b \<and> unix (t - d_ttl d) < b}"

lemma unix_mono: "s \<le> t \<Longrightarrow> unix s \<le> unix t"
  by (simp add: unix_def zdiv_mono1)

lemma live_evict: "dedup_ok d \<Longrightarrow> now \<le> t \<Longrightarrow> live (dedup_evict now d) t = live d t"
  using unix_mono [of "now - d_ttl d" "t - d_ttl d"]
  by (auto simp: live_def map_of_evict split: option.splits if_splits)

lemma dedup_seen_iff: "dedup_ok d \<Longrightarrow> fst (dedup_seen i now d) \<longleftrightarrow> i \<in> live d now"
  by (auto simp: dedup_seen_def Let_def map_of_evict live_def split: option.splits if_splits)

lemma live_add_absent:
  "map_of (d_at d) i = None \<Longrightarrow>
     live (dedup_add i now d) t = live d t \<union> (if unix (t - d_ttl d) < unix now then {i} else {})"
  by (auto simp: live_def dedup_add_def Let_def map_simps split: if_splits)

lemma unix_ttl: "second \<le> ttl \<Longrightarrow> unix (now - ttl) < unix now"
proof -
  assume "second \<le> ttl"
  then have "(now - ttl) div second \<le> (now - second) div second" by (intro zdiv_mono1) simp_all
  also have "\<dots> = now div second - 1" by simp
  finally show ?thesis by (simp add: unix_def)
qed

text \<open>
  The set is only used with a time to live of at least a second, so an identifier just
  added is live.
\<close>

definition dedup_good :: "dedup \<Rightarrow> bool" where
  "dedup_good d \<longleftrightarrow> dedup_ok d \<and> second \<le> d_ttl d"

interpretation dd: dedup_index dedup_seen dedup_add live dedup_good
proof
  fix d :: dedup and i now
  assume g: "dedup_good d" and "i \<notin> live d now"
  then have "map_of (d_at (dedup_evict now d)) i = None"
    using dedup_seen_iff [of d i now] by (simp add: dedup_seen_def Let_def dedup_good_def)
  then show "live (dedup_add i now (snd (dedup_seen i now d))) now = insert i (live d now)"
    using g unix_ttl [of "d_ttl d" now]
    by (simp add: dedup_seen_def Let_def live_add_absent dedup_good_def live_evict)
next
  fix d :: dedup and i now
  assume "dedup_good d"
  then show "dedup_good (dedup_add i now d)"
    by (simp add: dedup_good_def dedup_add_ok) (simp add: dedup_add_def Let_def)
next
  fix d :: dedup and i now
  assume "dedup_good d"
  then show "fst (dedup_seen i now d) \<longleftrightarrow> i \<in> live d now"
    by (intro dedup_seen_iff) (simp add: dedup_good_def)
qed (simp_all add: dedup_good_def dedup_seen_def Let_def live_evict dedup_evict_ok)

end
