(* ===== verification/EventLog.thy ===== *)
theory EventLog
  imports Dedup
begin

text \<open>
  \<open>internal/log/log.go\<close>: the append-only log of a partition, its write-ahead file, the
  snapshot file and recovery. The files of the data directory are a record of their
  contents; JSON is the argument \<open>codec\<close>, of which the lemmas use only that decoding
  inverts encoding and that an encoded value holds no line break (\<open>codec_ok\<close>). The
  failures of system calls that the code reports are the arguments \<open>open_io\<close> and
  \<open>compact_io\<close>; the errors of writes to the open file, which the code ignores, are not
  modelled, and neither is the periodic \<open>fsync\<close>, which changes no content.
\<close>

section \<open>Data\<close>

record entry =
  e_offset :: u64
  e_id :: string
  e_key :: string
  e_value :: bytes
  e_time :: gotime

text \<open>The zero \<open>Entry\<close> of Go; the zero time is January 1 of year 1.\<close>

definition zero_entry :: entry where
  "zero_entry = \<lparr>e_offset = 0, e_id = [], e_key = [], e_value = [], e_time = - 62135596800 * second\<rparr>"

record snapshot_entry =
  se_key :: string
  se_at :: gotime

record snapshot =
  s_base :: u64
  s_counts :: "(string, u64) gomap"
  s_timeline :: "snapshot_entry list"

record codec =
  enc :: "entry \<Rightarrow> bytes"
  dec :: "bytes \<Rightarrow> entry option"
  enc_snap :: "snapshot \<Rightarrow> bytes"
  dec_snap :: "bytes \<Rightarrow> snapshot option"

abbreviation newline :: char where
  "newline \<equiv> CHR 0x0A"

abbreviation carriage_return :: char where
  "carriage_return \<equiv> CHR 0x0D"

definition codec_ok :: "codec \<Rightarrow> entry \<Rightarrow> bool" where
  "codec_ok c e \<longleftrightarrow> dec c (enc c e) = Some e \<and> newline \<notin> set (enc c e) \<and>
     (enc c e \<noteq> [] \<longrightarrow> last (enc c e) \<noteq> carriage_return)"

record disk =
  wal_file :: "bytes option"
  snap_file :: "bytes option"
  snap_tmp :: "bytes option"

definition empty_disk :: disk where
  "empty_disk = \<lparr>wal_file = None, snap_file = None, snap_tmp = None\<rparr>"

text \<open>The field \<open>wal\<close>: nil, an open file, or a file that was closed and not replaced.\<close>

datatype wal_handle = NoWal | OpenWal | ClosedWal

record log =
  l_entries :: "entry list"
  l_base :: u64
  l_dedup :: dedup
  l_wal :: wal_handle
  l_dir :: string
  l_noidem :: bool

section \<open>Reading the write-ahead file\<close>

function lines_of :: "bytes \<Rightarrow> bytes list" where
  "lines_of s =
     (if s = [] then []
      else takeWhile (\<lambda>x. x \<noteq> newline) s # lines_of (tl (dropWhile (\<lambda>x. x \<noteq> newline) s)))"
  by pat_completeness auto
termination
  by (relation "measure length")
    (auto intro: le_less_trans [OF diff_le_mono [OF length_dropWhile_le]])

declare lines_of.simps [simp del]

definition drop_cr :: "bytes \<Rightarrow> bytes" where
  "drop_cr l = (if l \<noteq> [] \<and> last l = carriage_return then butlast l else l)"

text \<open>
  \<open>bufio.Scanner\<close> with its default limit of 64 KiB: a line has to fit in the buffer
  with its line break, and scanning stops for good at the first that does not.
\<close>

definition max_scan_token :: nat where
  "max_scan_token = 65536"

definition scan :: "bytes \<Rightarrow> bytes list" where
  "scan s = List.map drop_cr (takeWhile (\<lambda>l. length l < max_scan_token) (lines_of s))"

text \<open>The loop of \<open>Open\<close> over the scanned lines.\<close>

fun replay :: "codec \<Rightarrow> u64 \<Rightarrow> bytes list \<Rightarrow> entry list \<times> string set \<times> dedup \<Rightarrow>
    entry list \<times> string set \<times> dedup" where
  "replay c base [] st = st"
| "replay c base (line # lines) (es, replayed, dd) =
     (case dec c line of
        None \<Rightarrow> replay c base lines (es, replayed, dd)
      | Some e \<Rightarrow>
          if e_id e \<in> replayed then replay c base lines (es, replayed, dd)
          else (let e' = e\<lparr>e_offset := base + of_nat (length es)\<rparr>
                in replay c base lines
                     (es @ [e'], insert (e_id e) replayed, dedup_add (e_id e) (e_time e) dd)))"

definition load_snapshot :: "codec \<Rightarrow> disk \<Rightarrow> snapshot option" where
  "load_snapshot c d = (case snap_file d of None \<Rightarrow> None | Some data \<Rightarrow> dec_snap c data)"

datatype open_io = OpenOk | MkdirFails | WalOpenFails
datatype log_error = MkdirError | OpenError | MarshalError | WriteError | RenameError

definition log_open :: "codec \<Rightarrow> open_io \<Rightarrow> gotime \<Rightarrow> string \<Rightarrow> disk \<Rightarrow> log_error + (log \<times> disk)" where
  "log_open c io now dir d =
     (let l0 = \<lparr>l_entries = [], l_base = 0, l_dedup = new_dedup dedup_ttl, l_wal = NoWal,
                l_dir = dir, l_noidem = False\<rparr>
      in if dir = [] then Inr (l0, d)
         else if io = MkdirFails then Inl MkdirError
         else (let base = (case load_snapshot c d of None \<Rightarrow> 0 | Some s \<Rightarrow> s_base s)
               in if io = WalOpenFails then Inl OpenError
                  else (let data = (case wal_file d of None \<Rightarrow> [] | Some b \<Rightarrow> b);
                            (es, _, dd) = replay c base (scan data) ([], {}, l_dedup l0)
                        in Inr (l0\<lparr>l_base := base, l_entries := es, l_dedup := dedup_evict now dd,
                                   l_wal := OpenWal\<rparr>,
                                d\<lparr>wal_file := Some data\<rparr>))))"

definition log_new :: log where
  "log_new = \<lparr>l_entries = [], l_base = 0, l_dedup = new_dedup dedup_ttl, l_wal = NoWal,
     l_dir = [], l_noidem = False\<rparr>"

section \<open>Operations\<close>

definition wal_write :: "wal_handle \<Rightarrow> bytes \<Rightarrow> disk \<Rightarrow> disk" where
  "wal_write w buf d =
     (case w of OpenWal \<Rightarrow> d\<lparr>wal_file := Some ((case wal_file d of None \<Rightarrow> [] | Some b \<Rightarrow> b) @ buf)\<rparr>
      | _ \<Rightarrow> d)"

definition wal_line :: "codec \<Rightarrow> entry \<Rightarrow> bytes" where
  "wal_line c e = enc c e @ [newline]"

definition log_append :: "codec \<Rightarrow> gotime \<Rightarrow> string \<Rightarrow> string \<Rightarrow> bytes \<Rightarrow> log \<times> disk \<Rightarrow>
    (entry \<times> bool) \<times> log \<times> disk" where
  "log_append c now i k v s =
     (case s of (l, d) \<Rightarrow>
        let (dup, dd) = (if l_noidem l then (False, l_dedup l) else dedup_seen i now (l_dedup l));
            l1 = l\<lparr>l_dedup := dd\<rparr>
        in if dup then ((zero_entry, False), l1, d)
           else (let e = \<lparr>e_offset = l_base l + of_nat (length (l_entries l)), e_id = i, e_key = k,
                          e_value = v, e_time = now\<rparr>
                 in ((e, True), l1\<lparr>l_entries := l_entries l @ [e], l_dedup := dedup_add i now dd\<rparr>,
                     wal_write (l_wal l) (wal_line c e) d)))"

text \<open>
  The loop of \<open>AppendBatch\<close>: it reads the clock once and collects the lines in \<open>buf\<close>.
\<close>

fun batch_loop :: "codec \<Rightarrow> gotime \<Rightarrow> (string \<times> string \<times> bytes) list \<Rightarrow> bytes \<Rightarrow> log \<Rightarrow>
    (entry \<times> bool) list \<times> bytes \<times> log" where
  "batch_loop c now [] buf l = ([], buf, l)"
| "batch_loop c now ((i, k, v) # rest) buf l =
     (let (dup, dd) = (if l_noidem l then (False, l_dedup l) else dedup_seen i now (l_dedup l));
          l1 = l\<lparr>l_dedup := dd\<rparr>
      in if dup then (let (rs, buf', l') = batch_loop c now rest buf l1 in ((zero_entry, False) # rs, buf', l'))
         else (let e = \<lparr>e_offset = l_base l + of_nat (length (l_entries l)), e_id = i, e_key = k,
                        e_value = v, e_time = now\<rparr>;
                   l2 = l1\<lparr>l_entries := l_entries l @ [e], l_dedup := dedup_add i now dd\<rparr>;
                   buf1 = (if l_wal l \<noteq> NoWal then buf @ wal_line c e else buf);
                   (rs, buf', l') = batch_loop c now rest buf1 l2
               in ((e, True) # rs, buf', l')))"

definition log_append_batch :: "codec \<Rightarrow> gotime \<Rightarrow> (string \<times> string \<times> bytes) list \<Rightarrow> log \<times> disk \<Rightarrow>
    (entry \<times> bool) list \<times> log \<times> disk" where
  "log_append_batch c now reqs s =
     (case s of (l, d) \<Rightarrow>
        let (rs, buf, l') = batch_loop c now reqs [] l
        in (rs, l', if l_wal l' \<noteq> NoWal \<and> buf \<noteq> [] then wal_write (l_wal l') buf d else d))"

definition log_since :: "u64 \<Rightarrow> log \<Rightarrow> entry list" where
  "log_since offset l =
     (let offset' = (if offset < l_base l then l_base l else offset);
          idx = offset' - l_base l
      in if idx \<ge> of_nat (length (l_entries l)) then [] else drop (unat idx) (l_entries l))"

definition log_head :: "log \<Rightarrow> u64" where
  "log_head l = l_base l + of_nat (length (l_entries l))"

definition log_base_offset :: "log \<Rightarrow> u64" where
  "log_base_offset l = l_base l"

definition set_no_idempotent :: "bool \<Rightarrow> log \<Rightarrow> log" where
  "set_no_idempotent v l = l\<lparr>l_noidem := v\<rparr>"

datatype compact_io = CompactOk | MarshalFails | TmpWriteFails "bytes option" | SnapRenameFails | ReopenFails

definition log_compact :: "codec \<Rightarrow> compact_io \<Rightarrow> snapshot \<Rightarrow> log \<times> disk \<Rightarrow>
    log_error option \<times> log \<times> disk" where
  "log_compact c io snap s =
     (case s of (l, d) \<Rightarrow>
        if l_dir l = [] then (None, l, d)
        else if io = MarshalFails then (Some MarshalError, l, d)
        else (case io of
          TmpWriteFails left \<Rightarrow> (Some WriteError, l, d\<lparr>snap_tmp := left\<rparr>)
        | SnapRenameFails \<Rightarrow> (Some RenameError, l, d\<lparr>snap_tmp := Some (enc_snap c snap)\<rparr>)
        | _ \<Rightarrow>
          (let d1 = d\<lparr>snap_tmp := None, snap_file := Some (enc_snap c snap)\<rparr>;
               keep0 = s_base snap - l_base l;
               keep = (if keep0 > of_nat (length (l_entries l)) then of_nat (length (l_entries l)) else keep0);
               l1 = l\<lparr>l_entries := drop (unat keep) (l_entries l), l_base := s_base snap\<rparr>
           in if l_wal l = NoWal then (None, l1, d1)
              else if io = ReopenFails then (Some OpenError, l1\<lparr>l_wal := ClosedWal\<rparr>, d1)
              else (None, l1\<lparr>l_wal := OpenWal\<rparr>,
                    d1\<lparr>wal_file := Some (concat (List.map (wal_line c) (l_entries l1)))\<rparr>))))"

section \<open>Dense offsets\<close>

definition dense :: "u64 \<Rightarrow> entry list \<Rightarrow> bool" where
  "dense base es \<longleftrightarrow> (\<forall>j<length es. e_offset (es ! j) = base + of_nat j)"

lemma dense_Nil [simp]: "dense base []"
  by (simp add: dense_def)

lemma dense_snoc: "dense base (es @ [e]) \<longleftrightarrow> dense base es \<and> e_offset e = base + of_nat (length es)"
  by (auto simp: dense_def nth_append less_Suc_eq)

lemma dense_drop: "dense base es \<Longrightarrow> dense (base + of_nat n) (drop n es)"
  by (auto simp: dense_def add.assoc)

definition log_ok :: "log \<times> disk \<Rightarrow> bool" where
  "log_ok s \<longleftrightarrow> dense (l_base (fst s)) (l_entries (fst s)) \<and> dedup_good (l_dedup (fst s))"

text \<open>The operations that change the log, as events of a machine on log and files.\<close>

datatype log_event =
    LAppend gotime string string bytes
  | LBatch gotime "(string \<times> string \<times> bytes) list"
  | LCompact compact_io snapshot
  | LSetNoIdempotent bool

fun log_step :: "codec \<Rightarrow> log_event \<Rightarrow> log \<times> disk \<Rightarrow> log \<times> disk" where
  "log_step c (LAppend now i k v) s = snd (log_append c now i k v s)"
| "log_step c (LBatch now reqs) s = snd (log_append_batch c now reqs s)"
| "log_step c (LCompact io snap) s = snd (log_compact c io snap s)"
| "log_step c (LSetNoIdempotent v) s = (set_no_idempotent v (fst s), snd s)"

text \<open>The partition compacts up to the head of the log, so within the log.\<close>

fun log_event_ok :: "log_event \<Rightarrow> log \<times> disk \<Rightarrow> bool" where
  "log_event_ok (LCompact io snap) s =
     (s_base snap - l_base (fst s) \<le> of_nat (length (l_entries (fst s))))"
| "log_event_ok _ s = True"

lemmas log_defs [machine_simps] =
  log_append_def log_append_batch_def log_compact_def set_no_idempotent_def

text \<open>The sequence of appends that a batch stands for, all at one reading of the clock.\<close>

fun append_all :: "codec \<Rightarrow> gotime \<Rightarrow> (string \<times> string \<times> bytes) list \<Rightarrow> log \<times> disk \<Rightarrow>
    (entry \<times> bool) list \<times> log \<times> disk" where
  "append_all c now [] s = ([], s)"
| "append_all c now ((i, k, v) # rest) s =
     (let (r, s1) = log_append c now i k v s; (rs, s2) = append_all c now rest s1 in (r # rs, s2))"

lemma wal_write_append:
  "a \<noteq> [] \<Longrightarrow> wal_write w b (wal_write w a d) = wal_write w (a @ b) d"
  by (cases w) (simp_all add: wal_write_def)

lemma wal_line_nonempty [simp]: "wal_line c e \<noteq> []"
  by (simp add: wal_line_def)

lemma batch_loop_append_all:
  assumes "batch_loop c now reqs buf l = (rs, buf', l')"
  shows "l_wal l' = l_wal l \<and> (\<exists>bs. buf' = (if l_wal l = NoWal then buf else buf @ bs) \<and>
    append_all c now reqs (l, d) = (rs, l', if bs = [] then d else wal_write (l_wal l) bs d))"
  using assms
proof (induction reqs arbitrary: buf l rs d)
  case Nil
  then show ?case by (auto intro: exI [of _ "[]"])
next
  case (Cons r reqs)
  obtain i k v where r: "r = (i, k, v)" by (cases r)
  obtain dup dd where s: "(if l_noidem l then (False, l_dedup l) else dedup_seen i now (l_dedup l)) = (dup, dd)"
    by fastforce
  show ?case
  proof (cases dup)
    case True
    obtain rs1 b1 l1 where rec: "batch_loop c now reqs buf (l\<lparr>l_dedup := dd\<rparr>) = (rs1, b1, l1)"
      by (metis prod_cases3)
    with Cons.prems True have eq: "rs = (zero_entry, False) # rs1" "b1 = buf'" "l1 = l'"
      by (simp_all add: r s)
    have "log_append c now i k v (l, d) = ((zero_entry, False), l\<lparr>l_dedup := dd\<rparr>, d)"
      using s True by (simp add: log_append_def)
    moreover from Cons.IH [OF rec [unfolded eq(2,3)], of d] obtain bs where
      "l_wal l' = l_wal l" "buf' = (if l_wal l = NoWal then buf else buf @ bs)"
      "append_all c now reqs (l\<lparr>l_dedup := dd\<rparr>, d) =
        (rs1, l', if bs = [] then d else wal_write (l_wal l) bs d)"
      by auto
    ultimately show ?thesis using r eq(1) by (intro conjI exI [of _ bs]) simp_all
  next
    case False
    let ?e = "\<lparr>e_offset = l_base l + of_nat (length (l_entries l)), e_id = i, e_key = k,
                e_value = v, e_time = now\<rparr>"
    let ?l = "l\<lparr>l_entries := l_entries l @ [?e], l_dedup := dedup_add i now dd\<rparr>"
    let ?buf = "if l_wal l \<noteq> NoWal then buf @ wal_line c ?e else buf"
    let ?d = "wal_write (l_wal l) (wal_line c ?e) d"
    obtain rs1 b1 l1 where rec: "batch_loop c now reqs ?buf ?l = (rs1, b1, l1)"
      by (metis prod_cases3)
    with Cons.prems False have eq: "rs = (?e, True) # rs1" "b1 = buf'" "l1 = l'"
      by (simp_all add: r s Let_def split: if_splits)
    from Cons.IH [OF rec [unfolded eq(2,3)], of ?d] obtain bs where
      bs: "l_wal l' = l_wal l" "buf' = (if l_wal l = NoWal then ?buf else ?buf @ bs)"
      "append_all c now reqs (?l, ?d) = (rs1, l', if bs = [] then ?d else wal_write (l_wal l) bs ?d)"
      by auto
    have "log_append c now i k v (l, d) = ((?e, True), ?l, ?d)"
      using s False by (simp add: log_append_def Let_def)
    then have "append_all c now (r # reqs) (l, d) =
        (rs, l', wal_write (l_wal l) (wal_line c ?e @ bs) d)"
      using bs r eq(1) by (simp add: wal_write_append)
    with bs show ?thesis
      by (intro conjI exI [of _ "wal_line c ?e @ bs"]) (auto split: if_splits)
  qed
qed

lemma wal_write_NoWal [simp]: "wal_write NoWal bs d = d"
  by (simp add: wal_write_def)

lemma append_batch_append_all: "log_append_batch c now reqs s = append_all c now reqs s"
proof -
  obtain l d where s: "s = (l, d)" by fastforce
  obtain rs buf l' where b: "batch_loop c now reqs [] l = (rs, buf, l')" by (metis prod_cases3)
  from batch_loop_append_all [OF b, of d] obtain bs where
    "l_wal l' = l_wal l" "buf = (if l_wal l = NoWal then [] else bs)"
    "append_all c now reqs (l, d) = (rs, l', if bs = [] then d else wal_write (l_wal l) bs d)" by auto
  then show ?thesis using b s by (auto simp: log_append_batch_def)
qed

section \<open>The invariant over runs\<close>

text \<open>The two outcomes of an append.\<close>

abbreviation new_entry :: "log \<Rightarrow> gotime \<Rightarrow> string \<Rightarrow> string \<Rightarrow> bytes \<Rightarrow> entry" where
  "new_entry l now i k v \<equiv>
     \<lparr>e_offset = l_base l + of_nat (length (l_entries l)), e_id = i, e_key = k, e_value = v, e_time = now\<rparr>"

definition dedup_after :: "string \<Rightarrow> gotime \<Rightarrow> log \<Rightarrow> dedup" where
  "dedup_after i now l = (if l_noidem l then l_dedup l else snd (dedup_seen i now (l_dedup l)))"

lemma log_append_cases:
  assumes "dedup_good (l_dedup l)"
  shows "log_append c now i k v (l, d) =
    (if \<not> l_noidem l \<and> i \<in> live (l_dedup l) now
     then ((zero_entry, False), l\<lparr>l_dedup := dedup_after i now l\<rparr>, d)
     else ((new_entry l now i k v, True),
           l\<lparr>l_entries := l_entries l @ [new_entry l now i k v],
             l_dedup := dedup_add i now (dedup_after i now l)\<rparr>,
           wal_write (l_wal l) (wal_line c (new_entry l now i k v)) d))"
  using dd.seen_iff [OF assms, of i now]
  by (auto simp: log_append_def dedup_after_def Let_def split: prod.splits)

lemma dedup_after_good: "dedup_good (l_dedup l) \<Longrightarrow> dedup_good (dedup_after i now l)"
  by (simp add: dedup_after_def dd.good_seen)

lemma log_append_ok: "log_ok s \<Longrightarrow> log_ok (snd (log_append c now i k v s))"
  by (cases s) (auto simp: log_ok_def log_append_cases dense_snoc dd.good_add dedup_after_good)

lemma append_all_ok: "log_ok s \<Longrightarrow> log_ok (snd (append_all c now reqs s))"
proof (induction reqs arbitrary: s)
  case Nil
  then show ?case by simp
next
  case (Cons r reqs)
  obtain i k v where r: "r = (i, k, v)" by (cases r)
  from Cons.IH [OF log_append_ok [OF Cons.prems, of c now i k v]] show ?case
    by (simp add: r case_prod_beta)
qed

lemma log_compact_ok:
  assumes "log_ok s" and "log_event_ok (LCompact io snap) s"
  shows "log_ok (snd (log_compact c io snap s))"
proof -
  obtain l d where s: "s = (l, d)" by fastforce
  have "dense (s_base snap) (drop (unat (s_base snap - l_base l)) (l_entries l))"
    using dense_drop [of "l_base l" "l_entries l" "unat (s_base snap - l_base l)"] assms
    by (simp add: s log_ok_def)
  then show ?thesis
    using assms by (auto simp: s log_ok_def log_compact_def Let_def split: compact_io.splits)
qed

lemma log_step_ok: "log_ok s \<Longrightarrow> log_event_ok e s \<Longrightarrow> log_ok (log_step c e s)"
proof (cases e)
  case (LSetNoIdempotent v)
  then show "log_ok s \<Longrightarrow> log_ok (log_step c e s)"
    by (simp add: log_ok_def set_no_idempotent_def)
qed (simp_all add: log_append_ok append_batch_append_all append_all_ok log_compact_ok)

interpretation lg: machine "log_step c" log_event_ok log_ok for c
  by unfold_locales (rule log_step_ok)

lemma dedup_evict_good: "dedup_good d \<Longrightarrow> dedup_good (dedup_evict now d)"
  by (simp add: dedup_good_def dedup_evict_ok)

lemma renumbered: "dense base es \<Longrightarrow> dense base (es @ [e\<lparr>e_offset := base + of_nat (length es)\<rparr>])"
  by (simp add: dense_snoc)

lemma replay_ok:
  "dense base es \<Longrightarrow> dedup_good dd \<Longrightarrow> replay c base lines (es, S, dd) = (es', S', dd') \<Longrightarrow>
    dense base es' \<and> dedup_good dd'"
  by (induction c base lines "(es, S, dd)" arbitrary: es S dd rule: replay.induct)
    (auto simp: Let_def dense_snoc dd.good_add split: option.splits if_splits)

lemma log_open_ok: "log_open c io now dir d = Inr s \<Longrightarrow> log_ok s"
proof -
  have new: "dedup_good (new_dedup dedup_ttl)"
    by (simp add: dedup_good_def dedup_ttl_def new_dedup_ok) (simp add: new_dedup_def)
  assume "log_open c io now dir d = Inr s"
  then show ?thesis
    using new replay_ok [OF dense_Nil new]
    by (auto simp: log_open_def log_ok_def Let_def dedup_evict_good
        split: if_splits prod.splits)
qed

section \<open>Reading from an offset\<close>

lemma log_since_filter:
  assumes "dense (l_base l) (l_entries l)" and "unat (l_base l) + length (l_entries l) < 2 ^ 64"
  shows "log_since offset l = filter (\<lambda>e. offset \<le> e_offset e) (l_entries l)"
proof -
  let ?b = "unat (l_base l)" and ?n = "length (l_entries l)"
  define off where "off = (if offset < l_base l then l_base l else offset)"
  have off: "unat (l_base l) \<le> unat off" and idx: "unat (off - l_base l) = unat off - ?b"
    by (auto simp: off_def word_le_nat_alt word_less_nat_alt unat_sub not_less)
  have nth: "unat (e_offset (l_entries l ! j)) = ?b + j" if "j < ?n" for j
  proof -
    have "unat (l_base l + of_nat j) = ?b + j"
      using that assms(2) unat_of_nat_u64 [of j] by (simp add: unat_plus_if')
    with that assms(1) show ?thesis by (simp add: dense_def)
  qed
  have "filter (\<lambda>e. offset \<le> e_offset e) (l_entries l) = drop (unat off - ?b) (l_entries l)"
  proof (rule filter_eq_drop)
    fix j assume "j < ?n"
    then show "offset \<le> e_offset (l_entries l ! j) \<longleftrightarrow> unat off - ?b \<le> j"
      using nth [of j] by (auto simp: word_le_nat_alt off_def word_less_nat_alt)
  qed
  moreover have "unat (of_nat ?n :: u64) = ?n" using assms(2) by (intro unat_of_nat_u64) simp
  ultimately show ?thesis
    by (simp add: log_since_def off_def [symmetric] Let_def idx word_le_nat_alt)
qed

section \<open>Duplicates\<close>

lemma live_dedup_after:
  "dedup_good (l_dedup l) \<Longrightarrow> now \<le> t \<Longrightarrow> live (dedup_after i now l) t = live (l_dedup l) t"
  by (simp add: dedup_after_def dd.live_seen)

lemma live_add_mono: "live d t \<subseteq> live (dedup_add i now d) t"
  by (cases "map_of (d_at d) i") (auto simp: live_add_absent, simp add: dedup_add_def)

lemma log_append_live:
  assumes "dedup_good (l_dedup (fst s))" and "now \<le> t"
  shows "live (l_dedup (fst s)) t \<subseteq> live (l_dedup (fst (snd (log_append c now i k v s)))) t"
proof -
  obtain l d where s: "s = (l, d)" by fastforce
  then show ?thesis
    using assms live_add_mono [of "dedup_after i now l" t i now]
    by (auto simp: log_append_cases live_dedup_after)
qed

lemma append_all_live:
  "log_ok s \<Longrightarrow> now \<le> t \<Longrightarrow>
    live (l_dedup (fst s)) t \<subseteq> live (l_dedup (fst (snd (append_all c now reqs s)))) t"
proof (induction reqs arbitrary: s)
  case Nil
  then show ?case by simp
next
  case (Cons r reqs)
  obtain i k v where r: "r = (i, k, v)" by (cases r)
  let ?s = "snd (log_append c now i k v s)"
  have "live (l_dedup (fst s)) t \<subseteq> live (l_dedup (fst ?s)) t"
    using Cons.prems by (intro log_append_live) (auto simp: log_ok_def)
  also have "\<dots> \<subseteq> live (l_dedup (fst (snd (append_all c now reqs ?s)))) t"
    using Cons.prems by (intro Cons.IH log_append_ok)
  finally show ?case by (simp add: r case_prod_beta)
qed

fun event_time :: "log_event \<Rightarrow> gotime option" where
  "event_time (LAppend now i k v) = Some now"
| "event_time (LBatch now reqs) = Some now"
| "event_time _ = None"

definition before :: "gotime \<Rightarrow> log_event \<Rightarrow> bool" where
  "before t e \<longleftrightarrow> (\<forall>now. event_time e = Some now \<longrightarrow> now \<le> t)"

lemma log_compact_dedup [simp]:
  "l_dedup (fst (snd (log_compact c io snap s))) = l_dedup (fst s)"
  by (cases s) (simp add: log_compact_def Let_def split: compact_io.split)

lemma log_step_live:
  "log_ok s \<Longrightarrow> before t e \<Longrightarrow>
    live (l_dedup (fst s)) t \<subseteq> live (l_dedup (fst (log_step c e s))) t"
  by (cases e) (simp_all add: before_def log_append_live log_ok_def append_batch_append_all
      append_all_live set_no_idempotent_def)

lemma log_run_live:
  "log_ok s \<Longrightarrow> run_ok log_event_ok (log_step c) es s \<Longrightarrow> \<forall>e\<in>set es. before t e \<Longrightarrow>
    live (l_dedup (fst s)) t \<subseteq> live (l_dedup (fst (fold (log_step c) es s))) t"
proof (induction es arbitrary: s)
  case Nil
  then show ?case by simp
next
  case (Cons e es)
  have "live (l_dedup (fst s)) t \<subseteq> live (l_dedup (fst (log_step c e s))) t"
    using Cons.prems by (intro log_step_live) auto
  also have "\<dots> \<subseteq> live (l_dedup (fst (fold (log_step c) es (log_step c e s)))) t"
    using Cons.prems by (intro Cons.IH) (auto intro: log_step_ok)
  finally show ?case by simp
qed

lemma d_ttl_add [simp]: "d_ttl (dedup_add i now d) = d_ttl d"
  by (simp add: dedup_add_def Let_def)

lemma d_ttl_dedup_after [simp]: "d_ttl (dedup_after i now l) = d_ttl (l_dedup l)"
  by (simp add: dedup_after_def dedup_seen_def Let_def)

lemma added_live:
  assumes "map_of (d_at d) i = None" and "unix (t - d_ttl d) < unix now"
  shows "i \<in> live (dedup_add i now d) t"
  using assms by (simp add: live_add_absent)

lemma unix_within: "t - now \<le> ttl - second \<Longrightarrow> unix (t - ttl) < unix now"
proof -
  assume "t - now \<le> ttl - second"
  then have "(t - ttl) div second \<le> (now - second) div second" by (intro zdiv_mono1) simp_all
  also have "\<dots> = now div second - 1" by simp
  finally show ?thesis by (simp add: unix_def)
qed

fun keeps_idempotent :: "log_event \<Rightarrow> bool" where
  "keeps_idempotent (LSetNoIdempotent v) = (\<not> v)"
| "keeps_idempotent e = True"

lemma log_append_noidem [simp]: "l_noidem (fst (snd (log_append c now i k v s))) = l_noidem (fst s)"
  by (cases s) (simp add: log_append_def Let_def case_prod_beta)

lemma append_all_noidem [simp]: "l_noidem (fst (snd (append_all c now reqs s))) = l_noidem (fst s)"
proof (induction reqs arbitrary: s)
  case Nil
  then show ?case by simp
next
  case (Cons r reqs)
  then show ?case by (cases r) (simp only: append_all.simps case_prod_beta Let_def snd_conv log_append_noidem)
qed

lemma log_step_noidem: "keeps_idempotent e \<Longrightarrow> \<not> l_noidem (fst s) \<Longrightarrow> \<not> l_noidem (fst (log_step c e s))"
  by (cases e; cases s) (auto simp: append_batch_append_all set_no_idempotent_def log_compact_def Let_def
      split: compact_io.split)

lemma log_run_noidem:
  "\<forall>e\<in>set es. keeps_idempotent e \<Longrightarrow> \<not> l_noidem (fst s) \<Longrightarrow>
    \<not> l_noidem (fst (fold (log_step c) es s))"
  by (induction es arbitrary: s) (auto simp: log_step_noidem)

lemma fresh_append_absent:
  assumes "log_ok (l, d)" and "\<not> l_noidem l" and "snd (fst (log_append c now i k v (l, d)))"
  shows "map_of (d_at (dedup_after i now l)) i = None"
  using assms dedup_seen_iff [of "l_dedup l" i now]
  by (auto simp: log_ok_def log_append_cases dedup_after_def dedup_seen_def Let_def dedup_good_def
      split: if_splits)

lemma log_append_added_live:
  assumes "log_ok s" and "\<not> l_noidem (fst s)" and "snd (fst (log_append c now i k v s))"
    and "t - now \<le> d_ttl (l_dedup (fst s)) - second"
  shows "i \<in> live (l_dedup (fst (snd (log_append c now i k v s)))) t"
proof -
  obtain l d where s: "s = (l, d)" by fastforce
  have "i \<in> live (dedup_add i now (dedup_after i now l)) t"
    using assms fresh_append_absent [of l d c now i k v] unix_within [of t now "d_ttl (l_dedup l)"]
    by (intro added_live) (auto simp: s)
  then show ?thesis
    using assms(1-3) by (auto simp: s log_ok_def log_append_cases split: if_splits)
qed

lemma append_dup:
  assumes "log_ok s" and "\<not> l_noidem (fst s)" and "i \<in> live (l_dedup (fst s)) now"
  shows "fst (log_append c now i k v s) = (zero_entry, False) \<and>
    l_entries (fst (snd (log_append c now i k v s))) = l_entries (fst s) \<and>
    snd (snd (log_append c now i k v s)) = snd s"
  using assms by (cases s) (simp add: log_ok_def log_append_cases)

section \<open>Properties\<close>

text \<open>
  C23: offsets are dense: in a log opened from any files, after any appends, batches and
  compactions, the \<open>j\<close>-th entry kept in memory has offset \<open>base + j\<close>.
\<close>

theorem offsets_dense:
  assumes "log_open c io now dir d = Inr s" and "run_ok log_event_ok (log_step c) es s"
    and "j < length (l_entries (fst (fold (log_step c) es s)))"
  shows "e_offset (l_entries (fst (fold (log_step c) es s)) ! j) =
    log_base_offset (fst (fold (log_step c) es s)) + of_nat j"
  using lg.run_inv [OF log_open_ok [OF assms(1)] assms(2)] assms(3)
  by (simp add: log_ok_def dense_def log_base_offset_def)

text \<open>
  \<open>Since\<close> returns exactly the entries whose offset is at least the one asked for, in
  order, for every offset, as long as the offsets fit in 64 bits.
\<close>

theorem since_returns_suffix:
  assumes "log_open c io now dir d = Inr s" and "run_ok log_event_ok (log_step c) es s"
    and "l = fst (fold (log_step c) es s)" and "unat (l_base l) + length (l_entries l) < 2 ^ 64"
  shows "log_since offset l = filter (\<lambda>e. offset \<le> e_offset e) (l_entries l)"
  using lg.run_inv [OF log_open_ok [OF assms(1)] assms(2)] assms(3,4)
  by (intro log_since_filter) (simp_all add: log_ok_def)

text \<open>
  C8: a write is applied once: after an append of an identifier was accepted at \<open>now\<close>,
  an append of the same identifier up to a second before the time to live ends is
  answered as a duplicate and changes neither the entries nor the files, whatever
  appends, batches and compactions come in between.
\<close>

theorem append_idempotent:
  assumes "log_ok s" and "\<not> l_noidem (fst s)" and "snd (fst (log_append c now i k v s))"
    and "run_ok log_event_ok (log_step c) es (snd (log_append c now i k v s))"
    and "\<forall>e\<in>set es. before t e \<and> keeps_idempotent e"
    and "t - now \<le> d_ttl (l_dedup (fst s)) - second"
    and "s' = fold (log_step c) es (snd (log_append c now i k v s))"
  shows "fst (log_append c t i k' v' s') = (zero_entry, False) \<and>
    l_entries (fst (snd (log_append c t i k' v' s'))) = l_entries (fst s') \<and>
    snd (snd (log_append c t i k' v' s')) = snd s'"
proof -
  let ?s = "snd (log_append c now i k v s)"
  have "i \<in> live (l_dedup (fst ?s)) t" by (rule log_append_added_live [OF assms(1-3,6)])
  moreover have ok: "log_ok ?s" using assms(1) by (rule log_append_ok)
  ultimately have "i \<in> live (l_dedup (fst s')) t"
    using log_run_live [OF ok assms(4), of t] assms(5,7) by auto
  moreover have "log_ok s'" unfolding assms(7) by (rule lg.run_inv [OF ok assms(4)])
  moreover have "\<not> l_noidem (fst s')"
    unfolding assms(7) using assms(2,5) by (intro log_run_noidem) auto
  ultimately show ?thesis by (intro append_dup)
qed

text \<open>
  the deduplication forgets: once the time to live has passed, the same identifier is
  appended a second time.
\<close>

theorem id_accepted_again_after_ttl:
  assumes "log_ok s" and "snd (fst (log_append c now i k v s))"
    and "d_ttl (l_dedup (fst s)) \<le> t - now"
  shows "snd (fst (log_append c t i k v (snd (log_append c now i k v s))))"
proof -
  obtain l d where s: "s = (l, d)" by fastforce
  let ?l = "fst (snd (log_append c now i k v s))"
  have good: "dedup_good (l_dedup ?l)" using log_append_ok [OF assms(1)] by (simp add: log_ok_def)
  show ?thesis
  proof (cases "l_noidem l")
    case True
    then have "l_noidem ?l" by (simp add: s)
    with good show ?thesis
      by (cases "snd (log_append c now i k v s)") (simp add: log_append_cases)
  next
    case False
    have "unix now \<le> unix (t - d_ttl (l_dedup l))" using assms(3) by (intro unix_mono) (simp add: s)
    then have "i \<notin> live (dedup_add i now (dedup_after i now l)) t"
      using fresh_append_absent [of l d c now i k v] assms(1,2) False
      by (simp add: s live_add_absent) (simp add: live_def)
    then have "i \<notin> live (l_dedup ?l) t"
      using assms(1,2) by (auto simp: s log_ok_def log_append_cases split: if_splits)
    with good show ?thesis
      by (cases "snd (log_append c now i k v s)") (simp add: log_append_cases)
  qed
qed

text \<open>
  batching changes nothing but the number of system calls: \<open>AppendBatch\<close> returns the
  results, the log and the file contents of the same appends done one by one at the same
  time.
\<close>

theorem batch_equals_appends:
  "log_append_batch c now reqs s = append_all c now reqs s"
  by (rule append_batch_append_all)

section \<open>Witnesses\<close>

definition no_codec :: codec where
  "no_codec = \<lparr>enc = (\<lambda>_. ''{}''), dec = (\<lambda>_. None), enc_snap = (\<lambda>_. ''{}''), dec_snap = (\<lambda>_. None)\<rparr>"

lemma log_open_memory: "log_open c io now [] d = Inr (log_new, d)"
  by (simp add: log_open_def log_new_def)

lemma log_new_ok: "log_ok (log_new, d)"
  by (rule log_open_ok [OF log_open_memory [of no_codec OpenOk 0 d]])

abbreviation first_append :: "log \<times> disk" where
  "first_append \<equiv> snd (log_append no_codec 0 ''a'' ''k'' ''v'' (log_new, empty_disk))"

lemma append_to_new: "log_append c now i k v (log_new, d) =
   ((new_entry log_new now i k v, True),
    log_new\<lparr>l_entries := [new_entry log_new now i k v],
      l_dedup := new_dedup dedup_ttl\<lparr>d_buckets := [(unix now, [i])], d_at := [(i, unix now)]\<rparr>\<rparr>, d)"
  by (simp add: log_append_def log_new_def dedup_seen_def dedup_evict_def new_dedup_def dedup_add_def
      wal_write_def Let_def)

lemma offsets_dense_witness:
  "e_offset (l_entries (fst (fold (log_step no_codec) [LAppend 0 ''a'' ''k'' ''v''] (log_new, empty_disk))) ! 0)
   = log_base_offset (fst (fold (log_step no_codec) [LAppend 0 ''a'' ''k'' ''v''] (log_new, empty_disk))) + of_nat 0"
  by (rule offsets_dense [OF log_open_memory]) (simp_all add: append_to_new)

lemma since_returns_suffix_witness:
  "log_since 0 (fst first_append) = filter (\<lambda>e. 0 \<le> e_offset e) (l_entries (fst first_append))"
  by (rule since_returns_suffix [OF log_open_memory, of _ "[LAppend 0 ''a'' ''k'' ''v'']"])
    (simp_all add: append_to_new, simp add: log_new_def)

lemma append_idempotent_witness:
  "fst (log_append no_codec second ''a'' ''k'' ''w'' first_append) = (zero_entry, False)"
  using append_idempotent [of "(log_new, empty_disk)" no_codec 0 "''a''" "''k''" "''v''" "[]" second
      first_append "''k''" "''w''"]
  by (simp add: log_new_ok append_to_new) (simp add: log_new_def new_dedup_def dedup_ttl_def)

lemma id_accepted_again_after_ttl_witness:
  "snd (fst (log_append no_codec (300 * second) ''a'' ''k'' ''v'' first_append))"
  by (rule id_accepted_again_after_ttl)
    (simp_all add: log_new_ok append_to_new, simp add: log_new_def new_dedup_def dedup_ttl_def)

end
