(* ===== verification/Recovery.thy ===== *)
theory Recovery
  imports EventLog
begin

text \<open>
  Restarts of the log of \<open>internal/log/log.go\<close>: what \<open>Open\<close> rebuilds from the files that
  \<open>Append\<close>, \<open>AppendBatch\<close> and \<open>Compact\<close> leave behind, when it is everything, and the
  cases in which entries that were acknowledged do not come back.
\<close>

section \<open>The write-ahead file\<close>

definition wal_image :: "codec \<Rightarrow> entry list \<Rightarrow> bytes" where
  "wal_image c es = concat (List.map (wal_line c) es)"

lemma wal_image_simps [simp]:
  "wal_image c [] = []"
  "wal_image c (e # es) = wal_line c e @ wal_image c es"
  "wal_image c (es @ fs) = wal_image c es @ wal_image c fs"
  by (simp_all add: wal_image_def)

text \<open>An entry that the file can give back: it decodes, on a line the scanner accepts.\<close>

definition storable :: "codec \<Rightarrow> entry \<Rightarrow> bool" where
  "storable c e \<longleftrightarrow> codec_ok c e \<and> length (enc c e) < max_scan_token"

lemma storableD:
  "storable c e \<Longrightarrow> dec c (enc c e) = Some e"
  "storable c e \<Longrightarrow> newline \<notin> set (enc c e)"
  "storable c e \<Longrightarrow> length (enc c e) < max_scan_token"
  "storable c e \<Longrightarrow> drop_cr (enc c e) = enc c e"
  by (auto simp: storable_def codec_ok_def drop_cr_def)

lemma lines_of_Nil [simp]: "lines_of [] = []"
  by (simp add: lines_of.simps)

lemma before_newline [simp]:
  "newline \<notin> set x \<Longrightarrow> takeWhile (\<lambda>c. c \<noteq> newline) (x @ newline # s) = x"
  "newline \<notin> set x \<Longrightarrow> dropWhile (\<lambda>c. c \<noteq> newline) (x @ newline # s) = newline # s"
  by (induction x) auto

lemma lines_of_line: "newline \<notin> set x \<Longrightarrow> lines_of (x @ newline # s) = x # lines_of s"
  by (subst lines_of.simps) simp

lemma lines_of_last:
  assumes "newline \<notin> set x" and "x \<noteq> []"
  shows "lines_of x = [x]"
proof -
  have "takeWhile (\<lambda>c. c \<noteq> newline) x = x" and "dropWhile (\<lambda>c. c \<noteq> newline) x = []"
    using assms(1) by (auto simp: takeWhile_eq_all_conv)
  with assms(2) show ?thesis
    by (subst lines_of.simps) (simp del: dropWhile_eq_Nil_conv takeWhile_eq_all_conv)
qed

lemma lines_of_wal_image:
  "\<forall>e\<in>set es. newline \<notin> set (enc c e) \<Longrightarrow>
    lines_of (wal_image c es @ s) = List.map (enc c) es @ lines_of s"
  by (induction es) (simp_all add: wal_line_def lines_of_line)

lemma scan_wal_image:
  assumes "\<forall>e\<in>set es. storable c e"
  shows "scan (wal_image c es @ s) = List.map (enc c) es @ scan s"
proof -
  have lines: "lines_of (wal_image c es @ s) = List.map (enc c) es @ lines_of s"
    using assms by (intro lines_of_wal_image) (auto dest: storableD)
  have "takeWhile (\<lambda>l. length l < max_scan_token) (List.map (enc c) es @ ls) =
      List.map (enc c) es @ takeWhile (\<lambda>l. length l < max_scan_token) ls" for ls
    using assms by (intro takeWhile_append2) (auto dest: storableD)
  moreover have "List.map drop_cr (List.map (enc c) es) = List.map (enc c) es"
    using assms by (simp add: storableD)
  ultimately show ?thesis by (simp only: scan_def lines map_append)
qed

lemma scan_Nil [simp]: "scan [] = []"
  by (simp add: scan_def)

lemma replay_append: "replay c base (xs @ ys) st = replay c base ys (replay c base xs st)"
  by (induction c base xs st rule: replay.induct) (auto simp: Let_def split: option.splits)

text \<open>Replaying encoded entries with distinct identifiers gives them back.\<close>

lemma replay_encoded:
  assumes "\<forall>e\<in>set es. storable c e" and "distinct (List.map e_id es)"
    and "S \<inter> e_id ` set es = {}" and "dense base (pre @ es)"
  shows "replay c base (List.map (enc c) es) (pre, S, dd) =
    (pre @ es, S \<union> e_id ` set es, fold (\<lambda>e. dedup_add (e_id e) (e_time e)) es dd)"
  using assms
proof (induction es arbitrary: pre S dd)
  case Nil
  then show ?case by simp
next
  case (Cons e es)
  have "e_offset e = base + of_nat (length pre)"
    using Cons.prems(4) by (auto simp: dense_def dest: spec [of _ "length pre"])
  then have "e\<lparr>e_offset := base + of_nat (length pre)\<rparr> = e" by simp
  moreover have "replay c base (List.map (enc c) es) (pre @ [e], insert (e_id e) S, dedup_add (e_id e) (e_time e) dd)
      = ((pre @ [e]) @ es, insert (e_id e) S \<union> e_id ` set es,
         fold (\<lambda>e. dedup_add (e_id e) (e_time e)) es (dedup_add (e_id e) (e_time e) dd))"
    using Cons.prems by (intro Cons.IH) auto
  ultimately show ?case using Cons.prems by (simp add: storableD Let_def)
qed

section \<open>What makes a log recoverable\<close>

definition snap_base :: "codec \<Rightarrow> disk \<Rightarrow> u64" where
  "snap_base c d = (case load_snapshot c d of None \<Rightarrow> 0 | Some s \<Rightarrow> s_base s)"

definition durable :: "codec \<Rightarrow> log \<times> disk \<Rightarrow> bool" where
  "durable c s \<longleftrightarrow> (case s of (l, d) \<Rightarrow>
     log_ok (l, d) \<and> l_dir l \<noteq> [] \<and> l_wal l = OpenWal \<and>
     wal_file d = Some (wal_image c (l_entries l)) \<and> snap_base c d = l_base l \<and>
     distinct (List.map e_id (l_entries l)) \<and> (\<forall>e\<in>set (l_entries l). storable c e))"

lemma log_open_eq:
  assumes "dir \<noteq> []" and "replay c (snap_base c d) (scan (case wal_file d of None \<Rightarrow> [] | Some b \<Rightarrow> b))
      ([], {}, new_dedup dedup_ttl) = (es, S, dd)"
  shows "log_open c OpenOk now dir d =
    Inr (\<lparr>l_entries = es, l_base = snap_base c d, l_dedup = dedup_evict now dd, l_wal = OpenWal,
          l_dir = dir, l_noidem = False\<rparr>,
         d\<lparr>wal_file := Some (case wal_file d of None \<Rightarrow> [] | Some b \<Rightarrow> b)\<rparr>)"
  using assms by (simp add: log_open_def snap_base_def Let_def)

lemma durable_open:
  assumes "durable c (l, d)"
  shows "log_open c OpenOk now (l_dir l) d =
    Inr (l\<lparr>l_dedup := dedup_evict now
             (fold (\<lambda>e. dedup_add (e_id e) (e_time e)) (l_entries l) (new_dedup dedup_ttl)),
           l_noidem := False\<rparr>, d)"
proof -
  have "replay c (snap_base c d) (scan (wal_image c (l_entries l))) ([], {}, new_dedup dedup_ttl) =
      (l_entries l, e_id ` set (l_entries l),
       fold (\<lambda>e. dedup_add (e_id e) (e_time e)) (l_entries l) (new_dedup dedup_ttl))"
    using assms scan_wal_image [of "l_entries l" c "[]"]
      replay_encoded [of "l_entries l" c "{}" "snap_base c d" "[]" "new_dedup dedup_ttl"]
    by (simp add: durable_def log_ok_def)
  then show ?thesis
    using assms by (simp add: durable_def log_open_eq)
qed

section \<open>Every operation keeps the files recoverable\<close>

text \<open>
  The environment of the runs below: what is appended can be stored, an identifier is not
  accepted twice (it is when it comes again after the time to live, or with the check
  turned off), snapshots encode and lie within the log, and reopening the file during a
  compaction succeeds.
\<close>

definition append_storable :: "codec \<Rightarrow> gotime \<Rightarrow> string \<Rightarrow> string \<Rightarrow> bytes \<Rightarrow> log \<times> disk \<Rightarrow> bool" where
  "append_storable c now i k v s \<longleftrightarrow>
     (case fst (log_append c now i k v s) of (e, fresh) \<Rightarrow>
        fresh \<longrightarrow> storable c e \<and> i \<notin> e_id ` set (l_entries (fst s)))"

fun batch_storable :: "codec \<Rightarrow> gotime \<Rightarrow> (string \<times> string \<times> bytes) list \<Rightarrow> log \<times> disk \<Rightarrow> bool" where
  "batch_storable c now [] s = True"
| "batch_storable c now ((i, k, v) # rest) s =
     (append_storable c now i k v s \<and> batch_storable c now rest (snd (log_append c now i k v s)))"

fun durable_event :: "codec \<Rightarrow> log_event \<Rightarrow> log \<times> disk \<Rightarrow> bool" where
  "durable_event c (LAppend now i k v) s = append_storable c now i k v s"
| "durable_event c (LBatch now reqs) s = batch_storable c now reqs s"
| "durable_event c (LCompact io snap) s =
     (io \<noteq> ReopenFails \<and> dec_snap c (enc_snap c snap) = Some snap \<and>
      s_base snap - l_base (fst s) \<le> of_nat (length (l_entries (fst s))))"
| "durable_event c (LSetNoIdempotent v) s = True"

lemma durable_append:
  assumes "durable c s" and "append_storable c now i k v s"
  shows "durable c (snd (log_append c now i k v s))"
proof -
  obtain l d where s: "s = (l, d)" by fastforce
  have good: "dedup_good (l_dedup l)" and "log_ok (snd (log_append c now i k v (l, d)))"
    using assms log_append_ok [of "(l, d)" c now i k v] by (auto simp: durable_def log_ok_def s)
  then show ?thesis
    using assms
    by (auto simp: s durable_def append_storable_def log_append_cases [OF good] wal_write_def
        snap_base_def load_snapshot_def split: if_splits)
qed

lemma durable_append_all:
  "durable c s \<Longrightarrow> batch_storable c now reqs s \<Longrightarrow> durable c (snd (append_all c now reqs s))"
proof (induction reqs arbitrary: s)
  case Nil
  then show ?case by simp
next
  case (Cons r reqs)
  obtain i k v where r: "r = (i, k, v)" by (cases r)
  from Cons.IH [OF durable_append [of c s now i k v]] Cons.prems show ?case
    by (simp add: r case_prod_beta)
qed

lemma durable_compact:
  assumes "durable c s" and "durable_event c (LCompact io snap) s"
  shows "durable c (snd (log_compact c io snap s))"
proof -
  obtain l d where s: "s = (l, d)" by fastforce
  have ok: "log_ok (snd (log_compact c io snap (l, d)))"
    using assms by (intro log_compact_ok) (auto simp: durable_def s)
  let ?n = "unat (s_base snap - l_base l)"
  have sub: "set (drop ?n (l_entries l)) \<subseteq> set (l_entries l)" by (rule set_drop_subset)
  have keep: "\<not> s_base snap - l_base l > of_nat (length (l_entries l))"
    using assms by (auto simp: s not_less)
  show ?thesis
  proof (cases io)
    case CompactOk
    have "snd (log_compact c io snap (l, d)) =
        (l\<lparr>l_entries := drop ?n (l_entries l), l_base := s_base snap, l_wal := OpenWal\<rparr>,
         d\<lparr>wal_file := Some (wal_image c (drop ?n (l_entries l))),
           snap_file := Some (enc_snap c snap), snap_tmp := None\<rparr>)"
      using assms keep by (auto simp: log_compact_def Let_def CompactOk durable_def s wal_image_def)
    then show ?thesis
      using assms ok sub
      by (auto simp: s durable_def snap_base_def load_snapshot_def drop_map [symmetric])
  qed (use assms in \<open>auto simp: s durable_def log_compact_def snap_base_def load_snapshot_def log_ok_def\<close>)
qed

lemma durable_step: "durable c s \<Longrightarrow> durable_event c e s \<Longrightarrow> durable c (log_step c e s)"
proof (cases e)
  case (LSetNoIdempotent v)
  then show "durable c s \<Longrightarrow> durable c (log_step c e s)"
    by (cases s) (simp add: durable_def log_ok_def set_no_idempotent_def)
qed (simp_all add: durable_append append_batch_append_all durable_append_all durable_compact
    del: durable_event.simps(3))

interpretation dur: machine "log_step c" "durable_event c" "durable c" for c
  by unfold_locales (rule durable_step)

lemma durable_new:
  assumes "dir \<noteq> []" and "log_open c OpenOk now dir empty_disk = Inr s"
  shows "durable c s"
proof -
  have "log_ok s" using assms(2) by (rule log_open_ok)
  moreover have "snap_base c empty_disk = 0"
    by (simp add: snap_base_def load_snapshot_def empty_disk_def)
  moreover have "wal_file empty_disk = None" by (simp add: empty_disk_def)
  ultimately show ?thesis
    using assms log_open_eq [of dir c empty_disk "[]" "{}" "new_dedup dedup_ttl" now]
    by (auto simp: durable_def snap_base_def load_snapshot_def)
qed

section \<open>The deduplication set after a restart\<close>

lemma map_of_replayed_ids:
  assumes "distinct (List.map e_id es)" and "\<forall>e\<in>set es. map_of (d_at d) (e_id e) = None"
  shows "map_of (d_at (fold (\<lambda>e. dedup_add (e_id e) (e_time e)) es d)) i =
    (case find (\<lambda>e. e_id e = i) es of None \<Rightarrow> map_of (d_at d) i | Some e \<Rightarrow> Some (unix (e_time e)))"
  using assms
proof (induction es arbitrary: d)
  case Nil
  then show ?case by simp
next
  case (Cons e es)
  let ?d = "dedup_add (e_id e) (e_time e) d"
  have at: "map_of (d_at ?d) j = (if j = e_id e then Some (unix (e_time e)) else map_of (d_at d) j)" for j
    using Cons.prems(2) by (simp add: dedup_add_def Let_def map_simps)
  have new: "\<forall>f\<in>set es. e_id f \<noteq> e_id e"
    using Cons.prems(1) by (auto intro: rev_image_eqI)
  then have "find (\<lambda>f. e_id f = e_id e) es = None"
    by (auto simp: find_None_iff)
  moreover have "\<forall>f\<in>set es. map_of (d_at ?d) (e_id f) = None"
    using Cons.prems(2) new by (simp add: at)
  ultimately show ?case
    using Cons.IH [of ?d] Cons.prems(1) by (cases "i = e_id e") (simp_all add: at split: option.split)
qed

lemma d_ttl_fold_add [simp]: "d_ttl (fold (\<lambda>e. dedup_add (e_id e) (e_time e)) es d) = d_ttl d"
proof (induction es arbitrary: d)
  case (Cons e es)
  have "d_ttl (dedup_add (e_id e) (e_time e) d) = d_ttl d" by (simp add: dedup_add_def Let_def)
  with Cons show ?case by simp
qed simp

lemma dedup_ok_fold_add: "dedup_ok d \<Longrightarrow> dedup_ok (fold (\<lambda>e. dedup_add (e_id e) (e_time e)) es d)"
  by (induction es arbitrary: d) (simp_all add: dedup_add_ok)

definition recent_ids :: "entry list \<Rightarrow> gotime \<Rightarrow> string set" where
  "recent_ids es now = e_id ` {e \<in> set es. unix (now - dedup_ttl) < unix (e_time e)}"

lemma live_replayed:
  assumes "distinct (List.map e_id es)"
  shows "live (dedup_evict now (fold (\<lambda>e. dedup_add (e_id e) (e_time e)) es (new_dedup dedup_ttl))) now =
    recent_ids es now"
proof -
  let ?d = "fold (\<lambda>e. dedup_add (e_id e) (e_time e)) es (new_dedup dedup_ttl)"
  have at: "map_of (d_at ?d) i = Some b \<longleftrightarrow> (\<exists>e\<in>set es. e_id e = i \<and> b = unix (e_time e))" for i b
  proof -
    have "map_of (d_at ?d) i = map_option (\<lambda>e. unix (e_time e)) (find (\<lambda>e. e_id e = i) es)"
      using map_of_replayed_ids [OF assms, of "new_dedup dedup_ttl" i]
      by (simp add: new_dedup_def split: option.split)
    moreover have "find (\<lambda>e. e_id e = i) es = Some e \<longleftrightarrow> e \<in> set es \<and> e_id e = i" for e
      using assms by (induction es) (auto simp: find_None_iff)
    ultimately show ?thesis by auto
  qed
  have "d_ttl ?d = dedup_ttl" by (simp add: new_dedup_def)
  moreover have "live (dedup_evict now ?d) now = live ?d now"
    by (intro live_evict dedup_ok_fold_add) simp_all
  ultimately show ?thesis by (auto simp: live_def at recent_ids_def)
qed

section \<open>Files cut short by a crash\<close>

lemma cut_wal_image:
  "\<exists>k t. k \<le> length es \<and> take n (wal_image c es) = wal_image c (take k es) @ t \<and>
     (t = [] \<or> k < length es \<and> (\<exists>m\<le>length (enc c (es ! k)). t = take m (enc c (es ! k)))) \<and>
     (\<forall>j\<le>length es. length (wal_image c (take j es)) \<le> n \<longrightarrow> j \<le> k)"
proof (induction es arbitrary: n)
  case Nil
  then show ?case by simp
next
  case (Cons e es)
  show ?case
  proof (cases "length (wal_line c e) \<le> n")
    case True
    from Cons.IH [of "n - length (wal_line c e)"] obtain k t where
      k: "k \<le> length es" "take (n - length (wal_line c e)) (wal_image c es) = wal_image c (take k es) @ t"
        "t = [] \<or> k < length es \<and> (\<exists>m\<le>length (enc c (es ! k)). t = take m (enc c (es ! k)))"
        "\<forall>j\<le>length es. length (wal_image c (take j es)) \<le> n - length (wal_line c e) \<longrightarrow> j \<le> k"
      by auto
    have "j \<le> Suc k" if "j \<le> Suc (length es)" "length (wal_image c (take j (e # es))) \<le> n" for j
      using that k(4) by (cases j) auto
    with k True show ?thesis
      by (intro exI [of _ "Suc k"] exI [of _ t]) auto
  next
    case False
    then have "n \<le> length (enc c e)" by (simp add: wal_line_def)
    moreover have "j = 0" if "length (wal_image c (take j (e # es))) \<le> n" for j
      using that False by (cases j) auto
    ultimately show ?thesis
      by (intro exI [of _ 0] exI [of _ "take n (enc c e)"]) (auto simp: wal_line_def)
  qed
qed

lemma drop_cr_take:
  assumes "m < length x"
  shows "\<exists>m'<length x. drop_cr (take m x) = take m' x"
proof (cases "take m x \<noteq> [] \<and> last (take m x) = carriage_return")
  case True
  with assms show ?thesis by (intro exI [of _ "m - 1"]) (simp add: drop_cr_def butlast_take)
next
  case False
  with assms show ?thesis by (intro exI [of _ m]) (auto simp: drop_cr_def)
qed

lemma scan_torn:
  assumes "storable c e" and "m \<le> length (enc c e)" and "take m (enc c e) \<noteq> []"
  shows "scan (take m (enc c e)) = [drop_cr (take m (enc c e))]"
proof -
  have "newline \<notin> set (take m (enc c e))"
    using assms(1) by (auto dest: storableD in_set_takeD)
  then have "lines_of (take m (enc c e)) = [take m (enc c e)]" using assms(3) by (rule lines_of_last)
  then show ?thesis using assms(1,2) storableD(3) [of c e] by (simp add: scan_def)
qed

lemma dense_take: "dense base es \<Longrightarrow> dense base (take k es)"
  by (simp add: dense_def)

lemma log_open_replay:
  assumes "dir \<noteq> []" and "\<forall>e\<in>set es. storable c e" and "distinct (List.map e_id es)"
    and "dense (snap_base c d) es" and "wal_file d = Some data"
    and "replay c (snap_base c d) (scan data) ([], {}, new_dedup dedup_ttl) =
      replay c (snap_base c d) (List.map (enc c) es) ([], {}, new_dedup dedup_ttl)"
  shows "log_open c OpenOk now dir d =
    Inr (\<lparr>l_entries = es, l_base = snap_base c d,
          l_dedup = dedup_evict now (fold (\<lambda>e. dedup_add (e_id e) (e_time e)) es (new_dedup dedup_ttl)),
          l_wal = OpenWal, l_dir = dir, l_noidem = False\<rparr>, d)"
proof -
  have "replay c (snap_base c d) (scan data) ([], {}, new_dedup dedup_ttl) =
      (es, {} \<union> e_id ` set es, fold (\<lambda>e. dedup_add (e_id e) (e_time e)) es (new_dedup dedup_ttl))"
    using assms(2-4,6) replay_encoded [of es c "{}" "snap_base c d" "[]" "new_dedup dedup_ttl"]
    by simp
  then show ?thesis using assms(1,5) by (simp add: log_open_eq)
qed

lemma reopened_record:
  "l_base l = b \<Longrightarrow> l_wal l = OpenWal \<Longrightarrow>
    \<lparr>l_entries = es, l_base = b, l_dedup = dd, l_wal = OpenWal, l_dir = l_dir l, l_noidem = False\<rparr> =
    l\<lparr>l_entries := es, l_dedup := dd, l_noidem := False\<rparr>"
  by (cases l) simp

text \<open>
  A durable log whose file was changed behind its back: what \<open>Open\<close> finds is decided by the
  lines the scanner still delivers.
\<close>

lemma durable_reopen:
  assumes "durable c (l, d)" and "set es \<subseteq> set (l_entries l)" and "distinct (List.map e_id es)"
    and "dense (l_base l) es"
    and "replay c (l_base l) (scan data) ([], {}, new_dedup dedup_ttl) =
      replay c (l_base l) (List.map (enc c) es) ([], {}, new_dedup dedup_ttl)"
  shows "\<exists>dd. log_open c OpenOk now (l_dir l) (d\<lparr>wal_file := Some data\<rparr>) =
    Inr (l\<lparr>l_entries := es, l_dedup := dd, l_noidem := False\<rparr>, d\<lparr>wal_file := Some data\<rparr>)"
proof -
  let ?d = "d\<lparr>wal_file := Some data\<rparr>"
  have base: "snap_base c ?d = l_base l" and wal: "l_wal l = OpenWal"
    using assms(1) by (auto simp: durable_def snap_base_def load_snapshot_def)
  have "\<forall>e\<in>set es. storable c e" and "l_dir l \<noteq> []"
    using assms(1,2) by (auto simp: durable_def)
  with assms(3-5) log_open_replay [of "l_dir l" es c ?d data now] base show ?thesis
    by (simp add: reopened_record [OF refl wal]) blast
qed

section \<open>Properties\<close>

lemma log_step_dir: "l_dir (fst (log_step c e s)) = l_dir (fst s)"
proof -
  have append: "l_dir (fst (snd (log_append c now i k v s))) = l_dir (fst s)" for now i k v s
    by (cases s) (simp add: log_append_def Let_def split: prod.split)
  have all: "l_dir (fst (snd (append_all c now reqs s))) = l_dir (fst s)" for now reqs s
  proof (induction reqs arbitrary: s)
    case (Cons r reqs)
    then show ?case by (cases r) (simp add: case_prod_beta append)
  qed simp
  show ?thesis
    by (cases e; cases s)
      (simp_all add: append append_batch_append_all all set_no_idempotent_def log_compact_def Let_def
        split: compact_io.split)
qed

lemma log_run_dir: "l_dir (fst (fold (log_step c) es s)) = l_dir (fst s)"
  by (induction es arbitrary: s) (simp_all add: log_step_dir)

text \<open>
  C4: A restart loses nothing that was written completely: after any run of appends, batches
  and compactions on a fresh data directory, \<open>Open\<close> finds the same entries with the same
  offsets and the same base, leaves the files as they are, and refuses as duplicates
  exactly the identifiers of the entries it finds that are younger than the time to live
  (those of entries compacted before are forgotten). The run (\<open>durable_event\<close>) accepts no
  identifier that an entry of the log has, writes lines the codec reads back and that are
  shorter than 64 KiB, and its file operations succeed, but for compactions that fail
  without losing the write-ahead file. Without these the code does lose entries
  (\<open>repeated_id_lost\<close>, \<open>oversized_entry_ends_recovery\<close>).
\<close>

theorem reopen_recovers_log:
  assumes "dir \<noteq> []" and "log_open c OpenOk t0 dir empty_disk = Inr s0"
    and "run_ok (durable_event c) (log_step c) es s0"
  shows "\<exists>dd. log_open c OpenOk now dir (snd (fold (log_step c) es s0)) =
      Inr ((fst (fold (log_step c) es s0))\<lparr>l_dedup := dd, l_noidem := False\<rparr>,
           snd (fold (log_step c) es s0)) \<and>
    live dd now = recent_ids (l_entries (fst (fold (log_step c) es s0))) now"
proof -
  obtain l d where s: "fold (log_step c) es s0 = (l, d)" by fastforce
  have d: "durable c (l, d)"
    using dur.run_inv [OF durable_new [OF assms(1,2)] assms(3)] by (simp add: s)
  have "l_dir (fst s0) = dir" using assms(1,2) by (auto simp: log_open_def Let_def split: prod.splits)
  then have "l_dir l = dir" using log_run_dir [of c es s0] by (simp add: s)
  moreover have "distinct (List.map e_id (l_entries l))" using d by (simp add: durable_def)
  ultimately show ?thesis
    using durable_open [OF d, of now] live_replayed by (auto simp: s)
qed


section \<open>Entries that do not come back\<close>

lemma scan_line:
  assumes "newline \<notin> set x"
  shows "scan (x @ newline # rest) = (if length x < max_scan_token then drop_cr x # scan rest else [])"
  using assms by (simp add: scan_def lines_of_line)

text \<open>An append extends an open file and touches no other.\<close>

definition extends :: "log \<times> disk \<Rightarrow> log \<times> disk \<Rightarrow> bool" where
  "extends s s' \<longleftrightarrow> l_wal (fst s') = l_wal (fst s) \<and> l_dir (fst s') = l_dir (fst s) \<and>
     (\<forall>f. wal_file (snd s) = Some f \<longrightarrow> (\<exists>x. snd s' = (snd s)\<lparr>wal_file := Some (f @ x)\<rparr>))"

lemma extends_append:
  assumes "l_wal (fst s) = OpenWal"
  shows "extends s (snd (log_append c now i k v s))"
proof -
  obtain l d where s: "s = (l, d)" by fastforce
  have "d = d\<lparr>wal_file := wal_file d\<rparr>" by simp
  then show ?thesis
    using assms by (auto simp: s extends_def log_append_def wal_write_def Let_def split: prod.splits
        intro: exI [of _ "[]"])
qed

lemma extends_refl: "extends s s"
  by (cases "snd s") (auto simp: extends_def intro: exI [of _ "[]"])

lemma extends_trans: "extends s t \<Longrightarrow> extends t u \<Longrightarrow> extends s u"
  by (fastforce simp: extends_def)

abbreviation appends :: "(gotime \<times> string \<times> string \<times> bytes) list \<Rightarrow> log_event list" where
  "appends \<equiv> List.map (\<lambda>(t, i, k, v). LAppend t i k v)"

lemma extends_appends: "l_wal (fst s) = OpenWal \<Longrightarrow> extends s (fold (log_step c) (appends reqs) s)"
proof (induction reqs arbitrary: s)
  case Nil
  then show ?case by (simp add: extends_refl)
next
  case (Cons r reqs)
  obtain t i k v where r: "r = (t, i, k, v)" by (cases r)
  let ?t = "snd (log_append c t i k v s)"
  have step: "extends s ?t" using Cons.prems by (rule extends_append)
  then have "l_wal (fst ?t) = OpenWal" using Cons.prems by (simp add: extends_def)
  from extends_trans [OF step Cons.IH [OF this]] show ?case by (simp add: r)
qed

lemma durable_fields:
  "durable c (l, d) \<Longrightarrow> l_wal l = OpenWal \<and> wal_file d = Some (wal_image c (l_entries l)) \<and>
     distinct (List.map e_id (l_entries l)) \<and> dense (l_base l) (l_entries l) \<and>
     (\<forall>e\<in>set (l_entries l). storable c e)"
  by (simp add: durable_def log_ok_def)

lemma log_append_fresh:
  assumes "log_append c now i k v (l, d) = ((e, True), s)" and "l_wal l = OpenWal"
    and "wal_file d = Some f"
  shows "e = new_entry l now i k v \<and> l_entries (fst s) = l_entries l @ [e] \<and>
    snd s = d\<lparr>wal_file := Some (f @ wal_line c e)\<rparr> \<and> l_wal (fst s) = OpenWal"
  using assms by (auto simp: log_append_def wal_write_def Let_def split: prod.splits if_splits)

text \<open>
  the first entry appended after a crash that left a torn line is acknowledged, is in
  the log and in the file, and is gone at the next restart: \<open>Open\<close> skips the torn line but
  leaves it in the file, and the new line is written right behind it.
\<close>

theorem append_after_torn_tail_lost:
  assumes "durable c (l, d)" and "newline \<notin> set t" and "t \<noteq> []" and "length t < max_scan_token"
    and "dec c (drop_cr t) = None" and "dec c (drop_cr (t @ enc c (new_entry l now i k v))) = None"
    and "newline \<notin> set (enc c (new_entry l now i k v))"
    and "log_open c OpenOk t1 (l_dir l) (d\<lparr>wal_file := Some (wal_image c (l_entries l) @ t)\<rparr>) = Inr s"
    and "log_append c now i k v s = ((e, True), s')"
  shows "e \<in> set (l_entries (fst s')) \<and>
    (\<exists>l'. log_open c OpenOk t2 (l_dir l) (snd s') = Inr (l', snd s') \<and> l_entries l' = l_entries l)"
proof -
  let ?f = "wal_image c (l_entries l)"
  note du = durable_fields [OF assms(1)]
  have scan: "scan (?f @ x) = List.map (enc c) (l_entries l) @ scan x" for x
    using du by (intro scan_wal_image) simp
  have drop: "replay c (l_base l) (scan (?f @ x)) st = replay c (l_base l) (List.map (enc c) (l_entries l)) st"
    if "scan x = [] \<or> (\<exists>y. scan x = [y] \<and> dec c y = None)" for x st
  proof -
    have "replay c (l_base l) (scan x) st' = st'" for st' using that by (cases st') auto
    then show ?thesis by (simp add: scan replay_append)
  qed
  have "scan t = [drop_cr t]" using assms(2-4) by (simp add: scan_def lines_of_last)
  then have torn: "replay c (l_base l) (scan (?f @ t)) st = replay c (l_base l) (List.map (enc c) (l_entries l)) st" for st
    using assms(5) by (intro drop) simp
  obtain dd where s: "s = (l\<lparr>l_dedup := dd, l_noidem := False\<rparr>, d\<lparr>wal_file := Some (?f @ t)\<rparr>)"
    using durable_reopen [OF assms(1) subset_refl _ _ torn, of t1] du assms(8) by auto
  have e: "e = new_entry l now i k v" "e \<in> set (l_entries (fst s'))"
    and wal: "snd s' = d\<lparr>wal_file := Some (?f @ t @ wal_line c e)\<rparr>"
    using log_append_fresh [OF assms(9) [unfolded s]] du by simp_all
  have "scan (t @ wal_line c e) = [] \<or> (\<exists>y. scan (t @ wal_line c e) = [y] \<and> dec c y = None)"
    using scan_line [of "t @ enc c e" "[]"] assms(2,6,7) by (auto simp: wal_line_def e(1))
  then have "replay c (l_base l) (scan (?f @ t @ wal_line c e)) st =
      replay c (l_base l) (List.map (enc c) (l_entries l)) st" for st
    by (intro drop)
  from durable_reopen [OF assms(1) subset_refl _ _ this, of t2] du e(2) wal show ?thesis by auto
qed

text \<open>
  an entry whose line does not fit in the scanner's buffer is acknowledged and written,
  and ends every later recovery: the entry itself and everything appended after it are
  gone after a restart.
\<close>

theorem oversized_entry_ends_recovery:
  assumes "durable c (l, d)" and "log_append c now i k v (l, d) = ((e, True), s)"
    and "newline \<notin> set (enc c e)" and "max_scan_token \<le> length (enc c e)"
  shows "\<exists>l'. log_open c OpenOk t (l_dir l) (snd (fold (log_step c) (appends reqs) s)) =
      Inr (l', snd (fold (log_step c) (appends reqs) s)) \<and> l_entries l' = l_entries l"
proof -
  let ?f = "wal_image c (l_entries l)" and ?s = "fold (log_step c) (appends reqs) s"
  note du = durable_fields [OF assms(1)]
  have s: "l_wal (fst s) = OpenWal" "snd s = d\<lparr>wal_file := Some (?f @ wal_line c e)\<rparr>"
    using log_append_fresh [OF assms(2)] du by simp_all
  obtain x where x: "snd ?s = d\<lparr>wal_file := Some (?f @ wal_line c e @ x)\<rparr>"
    using extends_appends [OF s(1), of c reqs] by (auto simp: extends_def s(2))
  have "scan (wal_line c e @ x) = []"
    using scan_line [of "enc c e" x] assms(3,4) by (simp add: wal_line_def)
  then have "scan (?f @ wal_line c e @ x) = List.map (enc c) (l_entries l)"
    using scan_wal_image [of "l_entries l" c "wal_line c e @ x"] du by simp
  then have "replay c (l_base l) (scan (?f @ wal_line c e @ x)) st =
      replay c (l_base l) (List.map (enc c) (l_entries l)) st" for st by simp
  from durable_reopen [OF assms(1) subset_refl _ _ this, of t] du x show ?thesis by auto
qed

text \<open>
  \<open>Open\<close> drops every entry whose identifier occurred before, whatever its age and with
  the identity check turned off as well: an entry accepted under a repeated identifier
  is lost by a restart.
\<close>

theorem repeated_id_lost:
  assumes "durable c (l, d)" and "log_append c now i k v (l, d) = ((e, True), s)"
    and "i \<in> e_id ` set (l_entries l)" and "storable c e"
  shows "l_entries (fst s) = l_entries l @ [e] \<and>
    (\<exists>l'. log_open c OpenOk t (l_dir l) (snd s) = Inr (l', snd s) \<and> l_entries l' = l_entries l)"
proof -
  let ?f = "wal_image c (l_entries l)"
  note du = durable_fields [OF assms(1)]
  have s: "e = new_entry l now i k v" "l_entries (fst s) = l_entries l @ [e]"
      "snd s = d\<lparr>wal_file := Some (?f @ wal_line c e)\<rparr>"
    using log_append_fresh [OF assms(2)] du by simp_all
  have "scan (?f @ wal_line c e) = List.map (enc c) (l_entries l) @ [enc c e]"
    using scan_wal_image [of "l_entries l @ [e]" c "[]"] du assms(4) by simp
  moreover have "replay c (l_base l) (List.map (enc c) (l_entries l) @ [enc c e]) ([], {}, dd) =
      replay c (l_base l) (List.map (enc c) (l_entries l)) ([], {}, dd)" for dd
    using replay_encoded [of "l_entries l" c "{}" "l_base l" "[]" dd] du assms(3,4) s(1)
    by (simp add: replay_append storableD)
  ultimately have "replay c (l_base l) (scan (?f @ wal_line c e)) ([], {}, dd) =
      replay c (l_base l) (List.map (enc c) (l_entries l)) ([], {}, dd)" for dd by simp
  from durable_reopen [OF assms(1) subset_refl _ _ this, of t] du s show ?thesis by auto
qed

lemma compact_at_head:
  assumes "durable c (l, d)" and "s_base snap = log_head l" and "length (l_entries l) < 2 ^ 64"
  shows "log_compact c CompactOk snap (l, d) =
    (None, l\<lparr>l_entries := [], l_base := log_head l\<rparr>,
     d\<lparr>wal_file := Some [], snap_file := Some (enc_snap c snap), snap_tmp := None\<rparr>)"
proof -
  have "unat (log_head l - l_base l) = length (l_entries l)"
    using unat_of_nat_u64 [OF assms(3)] by (simp add: log_head_def)
  moreover have "l = l\<lparr>l_wal := OpenWal\<rparr>" and "l_wal l = OpenWal" and "l_dir l \<noteq> []"
    using assms(1) by (auto simp: durable_def)
  ultimately show ?thesis
    using assms(2) by (simp add: log_compact_def Let_def log_head_def)
qed

text \<open>
  a compaction empties the file from which \<open>Open\<close> rebuilds the deduplication set: an
  identifier that the running log still refuses is accepted again after a compaction
  followed by a restart.
\<close>

theorem compaction_and_restart_forget_ids:
  assumes "durable c (l, d)" and "s_base snap = log_head l" and "length (l_entries l) < 2 ^ 64"
    and "dec_snap c (enc_snap c snap) = Some snap"
    and "\<not> l_noidem l" and "i \<in> live (l_dedup l) now"
    and "log_compact c CompactOk snap (l, d) = (None, s)"
    and "log_open c OpenOk now (l_dir l) (snd s) = Inr s'"
  shows "fst (log_append c now i k v s) = (zero_entry, False) \<and> snd (fst (log_append c now i k v s'))"
proof -
  have s: "s = (l\<lparr>l_entries := [], l_base := log_head l\<rparr>,
     d\<lparr>wal_file := Some [], snap_file := Some (enc_snap c snap), snap_tmp := None\<rparr>)"
    using compact_at_head [OF assms(1-3)] assms(7) by simp
  have "s' = (\<lparr>l_entries = [], l_base = log_head l, l_dedup = dedup_evict now (new_dedup dedup_ttl),
      l_wal = OpenWal, l_dir = l_dir l, l_noidem = False\<rparr>, snd s)"
    using assms(1,2,4,8) log_open_eq [of "l_dir l" c "snd s" "[]" "{}" "new_dedup dedup_ttl" now]
    by (auto simp: s durable_def snap_base_def load_snapshot_def)
  moreover have "live (dedup_evict now (new_dedup dedup_ttl)) now = {}"
    by (simp add: live_evict) (simp add: live_def new_dedup_def)
  moreover have "dedup_good (dedup_evict now (new_dedup dedup_ttl))"
    by (simp add: dedup_good_def dedup_evict_ok) (simp add: new_dedup_def dedup_ttl_def)
  moreover have "dedup_good (l_dedup l)" using assms(1) by (simp add: durable_def log_ok_def)
  ultimately show ?thesis
    using assms(5,6) by (simp add: s log_append_cases)
qed

section \<open>Witnesses\<close>

text \<open>A codec that knows one entry and one snapshot.\<close>

definition one_codec :: "entry \<Rightarrow> snapshot \<Rightarrow> codec" where
  "one_codec e s = \<lparr>enc = (\<lambda>f. if f = e then ''{}'' else ''{x}''), dec = (\<lambda>b. if b = ''{}'' then Some e else None),
     enc_snap = (\<lambda>_. ''{}''), dec_snap = (\<lambda>_. Some s)\<rparr>"

definition no_snapshot :: snapshot where
  "no_snapshot = \<lparr>s_base = 1, s_counts = [], s_timeline = []\<rparr>"

definition fresh_log :: log where
  "fresh_log = log_new\<lparr>l_wal := OpenWal, l_dir := ''d''\<rparr>"

definition fresh_disk :: disk where
  "fresh_disk = empty_disk\<lparr>wal_file := Some []\<rparr>"

abbreviation entry_a :: entry where
  "entry_a \<equiv> \<lparr>e_offset = 0, e_id = ''a'', e_key = ''k'', e_value = ''v'', e_time = 0\<rparr>"

abbreviation codec_a :: codec where
  "codec_a \<equiv> one_codec entry_a no_snapshot"

lemma open_fresh: "log_open c OpenOk now ''d'' empty_disk = Inr (fresh_log, fresh_disk)"
  by (simp add: log_open_def fresh_log_def log_new_def fresh_disk_def load_snapshot_def empty_disk_def
      Let_def dedup_evict_def new_dedup_def)

lemma fresh_durable: "durable c (fresh_log, fresh_disk)"
  using durable_new [OF _ open_fresh, of c] by simp

lemma fresh_append: "log_append c now i k v (fresh_log, fresh_disk) =
   ((new_entry fresh_log now i k v, True),
    fresh_log\<lparr>l_entries := [new_entry fresh_log now i k v],
      l_dedup := new_dedup dedup_ttl\<lparr>d_buckets := [(unix now, [i])], d_at := [(i, unix now)]\<rparr>\<rparr>,
    fresh_disk\<lparr>wal_file := Some (wal_line c (new_entry fresh_log now i k v))\<rparr>)"
  by (simp add: log_append_def fresh_log_def log_new_def dedup_seen_def dedup_evict_def new_dedup_def
      dedup_add_def wal_write_def Let_def fresh_disk_def)

lemma storable_a: "storable codec_a entry_a"
  by (simp add: storable_def codec_ok_def one_codec_def max_scan_token_def)

abbreviation one_entry :: "log \<times> disk" where
  "one_entry \<equiv> snd (log_append codec_a 0 ''a'' ''k'' ''v'' (fresh_log, fresh_disk))"

lemma one_entry_storable: "append_storable codec_a 0 ''a'' ''k'' ''v'' (fresh_log, fresh_disk)"
  using storable_a by (simp add: append_storable_def fresh_append) (simp add: fresh_log_def log_new_def)

lemma one_entry_durable: "durable codec_a one_entry"
  using durable_append [OF fresh_durable one_entry_storable] .

lemma one_entry_entries: "l_entries (fst one_entry) = [entry_a]"
  by (simp add: fresh_append) (simp add: fresh_log_def log_new_def)

lemma one_entry_base: "l_base (fst one_entry) = 0"
  by (simp add: fresh_append) (simp add: fresh_log_def log_new_def)

lemma reopen_recovers_log_witness:
  "\<exists>dd. log_open codec_a OpenOk 5 ''d'' (snd one_entry) =
      Inr ((fst one_entry)\<lparr>l_dedup := dd, l_noidem := False\<rparr>, snd one_entry)"
  using reopen_recovers_log [OF _ open_fresh, where es = "[LAppend 0 ''a'' ''k'' ''v'']" and c = codec_a and now = 5]
    one_entry_storable
  by auto


lemma append_after_torn_tail_lost_witness:
  "\<exists>l' d'. log_open codec_a OpenOk 9 ''d'' d' = Inr (l', d') \<and> l_entries l' = [] \<and>
     wal_file d' = Some (''{{}'' @ [newline])"
proof -
  let ?d = "fresh_disk\<lparr>wal_file := Some ''{''\<rparr>"
  have scan: "scan ''{'' = [''{'']"
    by (simp add: scan_def lines_of_last drop_cr_def max_scan_token_def)
  have opened: "log_open codec_a OpenOk 5 (l_dir fresh_log)
      (fresh_disk\<lparr>wal_file := Some (wal_image codec_a (l_entries fresh_log) @ ''{'')\<rparr>) = Inr (fresh_log, ?d)"
    by (simp add: log_open_def fresh_log_def log_new_def fresh_disk_def load_snapshot_def empty_disk_def
        Let_def dedup_evict_def new_dedup_def scan one_codec_def)
  have app: "log_append codec_a 0 ''a'' ''k'' ''v'' (fresh_log, ?d) =
      ((entry_a, True), fst one_entry, ?d\<lparr>wal_file := Some (''{{}'' @ [newline])\<rparr>)"
    by (simp add: log_append_def fresh_log_def log_new_def dedup_seen_def dedup_evict_def new_dedup_def
        dedup_add_def wal_write_def Let_def fresh_disk_def wal_line_def one_codec_def)
  have "new_entry fresh_log 0 ''a'' ''k'' ''v'' = entry_a" by (simp add: fresh_log_def log_new_def)
  then have "dec codec_a (drop_cr (''{'' @ enc codec_a (new_entry fresh_log 0 ''a'' ''k'' ''v''))) = None"
    and "newline \<notin> set (enc codec_a (new_entry fresh_log 0 ''a'' ''k'' ''v''))"
    by (simp_all add: one_codec_def drop_cr_def)
  moreover have "newline \<notin> set ''{''" "''{'' \<noteq> []" "length ''{'' < max_scan_token"
    "dec codec_a (drop_cr ''{'') = None"
    by (simp_all add: one_codec_def drop_cr_def max_scan_token_def)
  ultimately obtain l' where l': "log_open codec_a OpenOk 9 (l_dir fresh_log) (snd (fst one_entry, ?d\<lparr>wal_file := Some (''{{}'' @ [newline])\<rparr>))
      = Inr (l', snd (fst one_entry, ?d\<lparr>wal_file := Some (''{{}'' @ [newline])\<rparr>))" "l_entries l' = l_entries fresh_log"
    using append_after_torn_tail_lost [OF fresh_durable _ _ _ _ _ _ opened app, of 9] by blast
  have "l_dir fresh_log = ''d''" and "l_entries fresh_log = []" by (simp_all add: fresh_log_def log_new_def)
  with l' show ?thesis
    by (intro exI [of _ l'] exI [of _ "?d\<lparr>wal_file := Some (''{{}'' @ [newline])\<rparr>"]) simp
qed

definition wide_codec :: codec where
  "wide_codec = \<lparr>enc = (\<lambda>_. replicate max_scan_token CHR ''x''), dec = (\<lambda>_. None),
     enc_snap = (\<lambda>_. []), dec_snap = (\<lambda>_. None)\<rparr>"

lemma oversized_entry_ends_recovery_witness:
  "\<exists>l' d'. log_open wide_codec OpenOk 9 ''d'' d' = Inr (l', d') \<and> l_entries l' = [] \<and>
     d' = snd (fold (log_step wide_codec) [LAppend 1 ''b'' ''k'' ''v'']
       (snd (log_append wide_codec 0 ''a'' ''k'' ''v'' (fresh_log, fresh_disk))))"
proof -
  let ?s = "snd (log_append wide_codec 0 ''a'' ''k'' ''v'' (fresh_log, fresh_disk))"
  have wide: "newline \<notin> set (enc wide_codec e)" "max_scan_token \<le> length (enc wide_codec e)" for e
    by (simp_all add: wide_codec_def)
  have app: "log_append wide_codec 0 ''a'' ''k'' ''v'' (fresh_log, fresh_disk) =
      ((new_entry fresh_log 0 ''a'' ''k'' ''v'', True), ?s)"
    by (simp add: fresh_append)
  have l: "l_dir fresh_log = ''d''" "l_entries fresh_log = []" by (simp_all add: fresh_log_def log_new_def)
  obtain l' where "log_open wide_codec OpenOk 9 (l_dir fresh_log)
      (snd (fold (log_step wide_codec) (appends [(1, ''b'', ''k'', ''v'')]) ?s)) =
      Inr (l', snd (fold (log_step wide_codec) (appends [(1, ''b'', ''k'', ''v'')]) ?s))"
    "l_entries l' = l_entries fresh_log"
    using oversized_entry_ends_recovery [OF fresh_durable app wide, of 9 "[(1, ''b'', ''k'', ''v'')]"] by blast
  then show ?thesis unfolding l by (simp del: log_step.simps)
qed

text \<open>The identity check is off, and the same identifier comes twice.\<close>

abbreviation entry_b :: entry where
  "entry_b \<equiv> \<lparr>e_offset = 1, e_id = ''a'', e_key = ''k'', e_value = ''w'', e_time = 7\<rparr>"

definition two_codec :: codec where
  "two_codec = \<lparr>enc = (\<lambda>f. if f = entry_a then ''{}'' else ''{b}''),
     dec = (\<lambda>b. if b = ''{}'' then Some entry_a else Some entry_b), enc_snap = (\<lambda>_. []), dec_snap = (\<lambda>_. None)\<rparr>"

lemma repeated_id_lost_witness:
  "\<exists>l d s l'. durable two_codec (l, d) \<and> log_append two_codec 7 ''a'' ''k'' ''w'' (l, d) = ((entry_b, True), s) \<and>
     log_open two_codec OpenOk 9 (l_dir l) (snd s) = Inr (l', snd s) \<and> l_entries l' = [entry_a]"
proof -
  let ?events = "[LAppend 0 ''a'' ''k'' ''v'', LSetNoIdempotent True]"
  let ?s = "fold (log_step two_codec) ?events (fresh_log, fresh_disk)"
  have st: "storable two_codec entry_a" "storable two_codec entry_b"
    by (simp_all add: storable_def codec_ok_def two_codec_def max_scan_token_def)
  have "durable two_codec ?s"
    using st(1) by (intro dur.run_inv fresh_durable)
      (simp add: append_storable_def fresh_append, simp add: fresh_log_def log_new_def)
  then have d: "durable two_codec (fst ?s, snd ?s)" by (simp only: prod.collapse)
  have es: "l_entries (fst ?s) = [entry_a]" "l_noidem (fst ?s)" "l_base (fst ?s) = 0"
    by (simp_all add: fresh_append set_no_idempotent_def) (simp_all add: fresh_log_def log_new_def)
  obtain s where s: "log_append two_codec 7 ''a'' ''k'' ''w'' (fst ?s, snd ?s) = ((entry_b, True), s)"
    using es by (simp add: log_append_def Let_def)
  have "''a'' \<in> e_id ` set (l_entries (fst ?s))" by (simp only: es) simp
  from repeated_id_lost [OF d s this st(2), of 9] obtain l' where
    "log_open two_codec OpenOk 9 (l_dir (fst ?s)) (snd s) = Inr (l', snd s)" "l_entries l' = [entry_a]"
    unfolding es by blast
  with d s show ?thesis by blast
qed

lemma compaction_and_restart_forget_ids_witness:
  "snd (fst (log_append codec_a second ''a'' ''k'' ''v''
     (\<lparr>l_entries = [], l_base = 1, l_dedup = new_dedup dedup_ttl, l_wal = OpenWal, l_dir = ''d'', l_noidem = False\<rparr>,
      fresh_disk\<lparr>snap_file := Some ''{}''\<rparr>)))"
proof -
  have d: "durable codec_a (fst one_entry, snd one_entry)" using one_entry_durable by simp
  have head: "s_base no_snapshot = log_head (fst one_entry)"
    by (simp only: log_head_def one_entry_entries one_entry_base) (simp add: no_snapshot_def)
  have short: "length (l_entries (fst one_entry)) < 2 ^ 64" by (simp add: one_entry_entries)
  have ids: "\<not> l_noidem (fst one_entry)" "''a'' \<in> live (l_dedup (fst one_entry)) second"
    by (simp_all add: fresh_append live_def unix_def new_dedup_def dedup_ttl_def) (simp add: fresh_log_def log_new_def)
  let ?s = "((fst one_entry)\<lparr>l_entries := [], l_base := log_head (fst one_entry)\<rparr>,
     (snd one_entry)\<lparr>wal_file := Some [], snap_file := Some (enc_snap codec_a no_snapshot), snap_tmp := None\<rparr>)"
  have "log_open codec_a OpenOk second (l_dir (fst one_entry)) (snd ?s) =
     Inr (\<lparr>l_entries = [], l_base = 1, l_dedup = new_dedup dedup_ttl, l_wal = OpenWal, l_dir = ''d'', l_noidem = False\<rparr>,
      fresh_disk\<lparr>snap_file := Some ''{}''\<rparr>)"
    by (simp add: log_open_def fresh_append load_snapshot_def one_codec_def Let_def dedup_evict_def new_dedup_def)
      (simp add: fresh_log_def log_new_def fresh_disk_def empty_disk_def no_snapshot_def dedup_ttl_def)
  from compaction_and_restart_forget_ids [OF d head short _ ids compact_at_head [OF d head short] this]
  show ?thesis by (simp add: one_codec_def)
qed

end
