(* ===== verification/Aggregate.thy ===== *)
theory Aggregate
  imports EventLog GoStd
begin

text \<open>
  \<open>internal/aggregate/aggregate.go\<close>: event counts per key over a sliding window, kept
  incrementally as a counter map and the timeline of the events still counted. The
  counters are \<open>uint64\<close> and wrap; the order in which Go iterates over a map matters only
  for \<open>TopK\<close>, whose sorting function is an argument.
\<close>

section \<open>State and operations\<close>

record timed_key =
  tk_key :: string
  tk_at :: gotime

record aggregate =
  ag_window :: duration
  ag_topk :: int
  ag_counts :: "(string, u64) gomap"
  ag_timeline :: "timed_key list"

type_synonym top_entry = "string \<times> u64"

definition agg_new :: "duration \<Rightarrow> int \<Rightarrow> aggregate" where
  "agg_new window k = \<lparr>ag_window = window, ag_topk = k, ag_counts = [], ag_timeline = []\<rparr>"

text \<open>The loop of \<open>evict\<close>. Decrementing reads an absent counter as zero, and wraps.\<close>

fun agg_evict_loop :: "gotime \<Rightarrow> timed_key list \<Rightarrow> (string, u64) gomap \<Rightarrow>
    timed_key list \<times> (string, u64) gomap" where
  "agg_evict_loop cutoff [] counts = ([], counts)"
| "agg_evict_loop cutoff (t # ts) counts =
     (if tk_at t < cutoff
      then (let counts1 = AList.update (tk_key t) (get0 counts (tk_key t) - 1) counts;
                counts2 = (if get0 counts1 (tk_key t) = 0 then AList.delete (tk_key t) counts1 else counts1)
            in agg_evict_loop cutoff ts counts2)
      else (t # ts, counts))"

definition agg_evict :: "gotime \<Rightarrow> aggregate \<Rightarrow> aggregate" where
  "agg_evict now a =
     (let (ts, counts) = agg_evict_loop (now - ag_window a) (ag_timeline a) (ag_counts a)
      in a\<lparr>ag_counts := counts, ag_timeline := ts\<rparr>)"

definition agg_apply :: "entry \<Rightarrow> aggregate \<Rightarrow> aggregate" where
  "agg_apply e a =
     (let a1 = agg_evict (e_time e) a
      in a1\<lparr>ag_counts := AList.update (e_key e) (get0 (ag_counts a1) (e_key e) + 1) (ag_counts a1),
            ag_timeline := ag_timeline a1 @ [\<lparr>tk_key = e_key e, tk_at = e_time e\<rparr>]\<rparr>)"

definition agg_counts :: "gotime \<Rightarrow> aggregate \<Rightarrow> (string, u64) gomap \<times> aggregate" where
  "agg_counts now a = (let a1 = agg_evict now a in (ag_counts a1, a1))"

definition agg_top_k :: "(top_entry list \<Rightarrow> top_entry list) \<Rightarrow> gotime \<Rightarrow> aggregate \<Rightarrow>
    (panic + top_entry list) \<times> aggregate" where
  "agg_top_k srt now a =
     (let a1 = agg_evict now a;
          buckets = srt (ag_counts a1);
          k = (if ag_topk a1 > int (length buckets) then int (length buckets) else ag_topk a1)
      in (if k < 0 then Inl NegativeLength else Inr (take (nat k) buckets), a1))"

definition agg_rebuild :: "entry list \<Rightarrow> aggregate \<Rightarrow> aggregate" where
  "agg_rebuild es a = fold agg_apply es (a\<lparr>ag_counts := [], ag_timeline := []\<rparr>)"

definition agg_snapshot :: "gotime \<Rightarrow> u64 \<Rightarrow> aggregate \<Rightarrow> snapshot \<times> aggregate" where
  "agg_snapshot now base a =
     (let a1 = agg_evict now a
      in (\<lparr>s_base = base, s_counts = ag_counts a1,
           s_timeline = List.map (\<lambda>t. \<lparr>se_key = tk_key t, se_at = tk_at t\<rparr>) (ag_timeline a1)\<rparr>, a1))"

definition agg_load_snapshot :: "snapshot \<Rightarrow> aggregate \<Rightarrow> aggregate" where
  "agg_load_snapshot s a =
     a\<lparr>ag_counts := s_counts s,
       ag_timeline := List.map (\<lambda>t. \<lparr>tk_key = se_key t, tk_at = se_at t\<rparr>) (s_timeline s)\<rparr>"

section \<open>The counters count the timeline\<close>

definition occurrences :: "timed_key list \<Rightarrow> string \<Rightarrow> nat" where
  "occurrences ts k = count_list (List.map tk_key ts) k"

lemma occurrences_simps [simp]:
  "occurrences [] k = 0"
  "occurrences (t # ts) k = (if tk_key t = k then Suc (occurrences ts k) else occurrences ts k)"
  "occurrences (ts @ us) k = occurrences ts k + occurrences us k"
  by (auto simp: occurrences_def)

lemma occurrences_le: "occurrences ts k \<le> length ts"
  using count_list_le_length [of "List.map tk_key ts" k] by (simp add: occurrences_def)

text \<open>A counter map says how often each key occurs, and holds no zero counter.\<close>

definition counts_of :: "timed_key list \<Rightarrow> (string, u64) gomap \<Rightarrow> bool" where
  "counts_of ts m \<longleftrightarrow> map_ok m \<and>
     (\<forall>k. map_of m k = (if occurrences ts k = 0 then None else Some (of_nat (occurrences ts k))))"

lemma counts_of_get0: "counts_of ts m \<Longrightarrow> get0 m k = of_nat (occurrences ts k)"
  by (simp add: counts_of_def get0_def)

lemma evict_loop_timeline: "fst (agg_evict_loop c ts m) = dropWhile (\<lambda>t. tk_at t < c) ts"
  by (induction c ts m rule: agg_evict_loop.induct) (simp_all add: Let_def)

lemma counts_of_evict_loop:
  "counts_of ts m \<Longrightarrow> length ts < 2 ^ 64 \<Longrightarrow>
     counts_of (dropWhile (\<lambda>t. tk_at t < c) ts) (snd (agg_evict_loop c ts m))"
proof (induction ts arbitrary: m)
  case Nil
  then show ?case by simp
next
  case (Cons t ts)
  let ?k = "tk_key t" and ?n = "occurrences ts (tk_key t)"
  define m1 where "m1 = AList.update ?k (get0 m ?k - 1) m"
  define m2 where "m2 = (if get0 m1 ?k = 0 then AList.delete ?k m1 else m1)"
  have n: "?n < 2 ^ 64" using Cons.prems(2) occurrences_le [of ts ?k] by simp
  have "get0 m ?k - 1 = of_nat ?n" using counts_of_get0 [OF Cons.prems(1), of ?k] by simp
  then have "counts_of ts m2"
    using Cons.prems(1) of_nat_eq_0_u64 [OF n] by (auto simp: m1_def m2_def counts_of_def map_simps)
  then have "counts_of (dropWhile (\<lambda>t. tk_at t < c) ts) (snd (agg_evict_loop c ts m2))"
    using Cons.prems(2) by (intro Cons.IH) simp_all
  moreover have "snd (agg_evict_loop c (t # ts) m) = snd (agg_evict_loop c ts m2)" if "tk_at t < c"
    using that by (simp add: m1_def m2_def Let_def)
  ultimately show ?case using Cons.prems(1) by (cases "tk_at t < c") simp_all
qed

lemma counts_of_append:
  assumes "counts_of ts m"
    and "length ts + 1 < 2 ^ 64"
  shows "counts_of (ts @ [\<lparr>tk_key = k, tk_at = t\<rparr>]) (AList.update k (get0 m k + 1) m)"
  using assms counts_of_get0 [OF assms(1), of k] by (auto simp: counts_of_def map_simps)

definition agg_ok :: "aggregate \<Rightarrow> bool" where
  "agg_ok a \<longleftrightarrow> counts_of (ag_timeline a) (ag_counts a) \<and> length (ag_timeline a) < 2 ^ 64"

lemma agg_new_ok: "agg_ok (agg_new w k)"
  by (simp add: agg_ok_def agg_new_def counts_of_def)

lemma agg_evict_fields [simp]:
  "ag_window (agg_evict now a) = ag_window a" "ag_topk (agg_evict now a) = ag_topk a"
  by (simp_all add: agg_evict_def case_prod_beta Let_def)

lemma agg_evict_timeline:
  "ag_timeline (agg_evict now a) = dropWhile (\<lambda>t. tk_at t < now - ag_window a) (ag_timeline a)"
  by (simp add: evict_loop_timeline agg_evict_def case_prod_beta Let_def)

lemma agg_evict_ok:
  assumes "agg_ok a"
  shows "agg_ok (agg_evict now a)"
proof -
  have "length (ag_timeline (agg_evict now a)) \<le> length (ag_timeline a)"
    unfolding agg_evict_timeline by (rule length_dropWhile_le)
  moreover have "ag_counts (agg_evict now a) =
      snd (agg_evict_loop (now - ag_window a) (ag_timeline a) (ag_counts a))"
    by (simp add: agg_evict_def case_prod_beta Let_def)
  ultimately show ?thesis
    using counts_of_evict_loop assms by (simp add: agg_ok_def agg_evict_timeline)
qed

lemma agg_evict_length: "length (ag_timeline (agg_evict now a)) \<le> length (ag_timeline a)"
  by (simp add: agg_evict_timeline length_dropWhile_le)

lemma agg_apply_timeline:
  "ag_timeline (agg_apply e a) =
     dropWhile (\<lambda>t. tk_at t < e_time e - ag_window a) (ag_timeline a) @ [\<lparr>tk_key = e_key e, tk_at = e_time e\<rparr>]"
  by (simp add: agg_apply_def Let_def agg_evict_timeline)

lemma agg_apply_ok:
  assumes "agg_ok a" and "length (ag_timeline a) + 1 < 2 ^ 64"
  shows "agg_ok (agg_apply e a)"
proof -
  have "agg_ok (agg_evict (e_time e) a)" by (rule agg_evict_ok [OF assms(1)])
  moreover have "length (ag_timeline (agg_evict (e_time e) a)) + 1 < 2 ^ 64"
    using agg_evict_length [of "e_time e" a] assms(2) by simp
  ultimately show ?thesis
    using counts_of_append by (simp add: agg_ok_def agg_apply_def Let_def)
qed

lemma agg_apply_length: "length (ag_timeline (agg_apply e a)) \<le> Suc (length (ag_timeline a))"
  by (simp add: agg_apply_timeline length_dropWhile_le)

lemma agg_apply_fields [simp]:
  "ag_window (agg_apply e a) = ag_window a" "ag_topk (agg_apply e a) = ag_topk a"
  by (simp_all add: agg_apply_def Let_def)

lemma agg_apply_all_ok:
  "agg_ok a \<Longrightarrow> length (ag_timeline a) + length es < 2 ^ 64 \<Longrightarrow> agg_ok (fold agg_apply es a)"
proof (induction es arbitrary: a)
  case Nil
  then show ?case by simp
next
  case (Cons e es)
  then have "agg_ok (agg_apply e a)" by (intro agg_apply_ok) simp_all
  moreover have "length (ag_timeline (agg_apply e a)) + length es < 2 ^ 64"
    using agg_apply_length [of e a] Cons.prems by simp
  ultimately show ?case using Cons.IH by simp
qed

section \<open>The aggregate as a machine\<close>

datatype agg_event =
    AApply entry
  | ACounts gotime
  | ATopK gotime
  | ASnapshot gotime u64
  | ALoad snapshot
  | ARebuild "entry list"

fun agg_step :: "(top_entry list \<Rightarrow> top_entry list) \<Rightarrow> agg_event \<Rightarrow> aggregate \<Rightarrow> aggregate" where
  "agg_step srt (AApply e) a = agg_apply e a"
| "agg_step srt (ACounts now) a = snd (agg_counts now a)"
| "agg_step srt (ATopK now) a = snd (agg_top_k srt now a)"
| "agg_step srt (ASnapshot now base) a = snd (agg_snapshot now base a)"
| "agg_step srt (ALoad s) a = agg_load_snapshot s a"
| "agg_step srt (ARebuild es) a = agg_rebuild es a"

text \<open>
  What the steps need: fewer than \<open>2 ^ 64\<close> events in the window, and a snapshot whose
  counters agree with its timeline, as those that \<open>Snapshot\<close> writes do.
\<close>

definition snapshot_ok :: "snapshot \<Rightarrow> bool" where
  "snapshot_ok s \<longleftrightarrow>
     counts_of (List.map (\<lambda>t. \<lparr>tk_key = se_key t, tk_at = se_at t\<rparr>) (s_timeline s)) (s_counts s) \<and>
     length (s_timeline s) < 2 ^ 64"

fun agg_event_ok :: "agg_event \<Rightarrow> aggregate \<Rightarrow> bool" where
  "agg_event_ok (AApply e) a = (length (ag_timeline a) + 1 < 2 ^ 64)"
| "agg_event_ok (ALoad s) a = snapshot_ok s"
| "agg_event_ok (ARebuild es) a = (length es < 2 ^ 64)"
| "agg_event_ok _ a = True"

lemma agg_load_ok: "snapshot_ok s \<Longrightarrow> agg_ok (agg_load_snapshot s a)"
  by (simp add: agg_ok_def snapshot_ok_def agg_load_snapshot_def)

lemma agg_rebuild_ok: "length es < 2 ^ 64 \<Longrightarrow> agg_ok (agg_rebuild es a)"
  unfolding agg_rebuild_def by (rule agg_apply_all_ok) (simp_all add: agg_ok_def counts_of_def)

lemma agg_step_ok: "agg_ok a \<Longrightarrow> agg_event_ok e a \<Longrightarrow> agg_ok (agg_step srt e a)"
  by (cases e) (simp_all add: agg_apply_ok agg_load_ok agg_rebuild_ok agg_evict_ok agg_counts_def
      agg_top_k_def agg_snapshot_def Let_def)

interpretation ag: machine "agg_step srt" agg_event_ok agg_ok for srt
  by unfold_locales (rule agg_step_ok)

lemma timed_key_eta: "(\<lambda>t. \<lparr>tk_key = tk_key t, tk_at = tk_at t\<rparr>) = (\<lambda>t. t :: timed_key)"
  by (rule ext) simp

lemma load_of_snapshot:
  "agg_load_snapshot (fst (agg_snapshot now base a)) b =
     b\<lparr>ag_counts := ag_counts (agg_evict now a), ag_timeline := ag_timeline (agg_evict now a)\<rparr>"
  by (simp add: agg_load_snapshot_def agg_snapshot_def Let_def comp_def timed_key_eta)

lemma snapshot_of_ok: "agg_ok a \<Longrightarrow> snapshot_ok (fst (agg_snapshot now base a))"
proof -
  assume "agg_ok a"
  then have "agg_ok (agg_evict now a)" by (rule agg_evict_ok)
  then show ?thesis
    by (simp add: snapshot_ok_def agg_ok_def agg_snapshot_def Let_def comp_def timed_key_eta)
qed

section \<open>The sliding window\<close>

text \<open>The specification: the events of a key that are not older than the window.\<close>

definition in_window :: "duration \<Rightarrow> gotime \<Rightarrow> string \<Rightarrow> entry list \<Rightarrow> nat" where
  "in_window w now k es = length (filter (\<lambda>e. e_key e = k \<and> now - w \<le> e_time e) es)"

definition timed :: "entry \<Rightarrow> timed_key" where
  "timed e = \<lparr>tk_key = e_key e, tk_at = e_time e\<rparr>"

lemma timed_simps [simp]: "tk_key (timed e) = e_key e" "tk_at (timed e) = e_time e"
  by (simp_all add: timed_def)

lemma dropWhile_twice:
  "c \<le> c' \<Longrightarrow> dropWhile (\<lambda>x. f x < c') (dropWhile (\<lambda>x. f x < (c::int)) xs) = dropWhile (\<lambda>x. f x < c') xs"
  by (induction xs) auto

lemma apply_all_timeline:
  assumes "sorted (List.map e_time es)" and "ag_timeline a = []" and "0 \<le> ag_window a"
    and "\<forall>e\<in>set es. e_time e \<le> now"
  shows "\<exists>c\<le>now - ag_window a. ag_timeline (fold agg_apply es a) = dropWhile (\<lambda>t. tk_at t < c) (List.map timed es)"
  using assms
proof (induction es arbitrary: now rule: rev_induct)
  case Nil
  then show ?case by auto
next
  case (snoc e es)
  let ?a = "fold agg_apply es a"
  have win: "ag_window ?a = ag_window a" by (induction es arbitrary: a) simp_all
  from snoc have "\<forall>f\<in>set es. e_time f \<le> e_time e" by (auto simp: sorted_append)
  with snoc.prems snoc.IH [of "e_time e"] obtain c where c: "c \<le> e_time e - ag_window a"
      "ag_timeline ?a = dropWhile (\<lambda>t. tk_at t < c) (List.map timed es)"
    by (auto simp: sorted_append)
  let ?c = "e_time e - ag_window a"
  have "ag_timeline (agg_apply e ?a) = dropWhile (\<lambda>t. tk_at t < ?c) (List.map timed es) @ [timed e]"
    using c by (simp add: agg_apply_timeline win dropWhile_twice timed_def)
  also have "\<dots> = dropWhile (\<lambda>t. tk_at t < ?c) (List.map timed es @ [timed e])"
    using snoc.prems(3) by (induction es) auto
  finally show ?case using snoc.prems(4) by (intro exI [of _ ?c]) simp
qed

lemma counts_in_window:
  assumes "sorted (List.map e_time es)" and "\<forall>e\<in>set es. e_time e \<le> now" and "length es < 2 ^ 64"
    and "ag_timeline a = []" and "agg_ok a" and "0 \<le> ag_window a"
  shows "counts_of (filter (\<lambda>t. now - ag_window a \<le> tk_at t) (List.map timed es))
    (fst (agg_counts now (fold agg_apply es a)))"
proof -
  let ?a = "fold agg_apply es a" and ?c = "now - ag_window a"
  have win: "ag_window ?a = ag_window a" by (induction es arbitrary: a) simp_all
  have "agg_ok (agg_evict now ?a)"
    using assms by (intro agg_evict_ok agg_apply_all_ok) simp_all
  moreover have "ag_timeline (agg_evict now ?a) = filter (\<lambda>t. ?c \<le> tk_at t) (List.map timed es)"
  proof -
    obtain c where "c \<le> ?c" "ag_timeline ?a = dropWhile (\<lambda>t. tk_at t < c) (List.map timed es)"
      using apply_all_timeline [OF assms(1,4,6,2)] by blast
    then have "ag_timeline (agg_evict now ?a) = dropWhile (\<lambda>t. tk_at t < ?c) (List.map timed es)"
      by (simp add: agg_evict_timeline win dropWhile_twice)
    also have "\<dots> = filter (\<lambda>t. \<not> tk_at t < ?c) (List.map timed es)"
      using assms(1) by (intro sorted_wrt_filter_drop) (simp add: comp_def)
    finally show ?thesis by (simp add: not_less)
  qed
  ultimately show ?thesis by (simp add: agg_counts_def Let_def agg_ok_def)
qed

lemma occurrences_in_window:
  "occurrences (filter (\<lambda>t. now - w \<le> tk_at t) (List.map timed es)) k = in_window w now k es"
  by (induction es) (auto simp: in_window_def)

section \<open>Properties\<close>

lemma sorted_take_drop:
  "sorted (List.map f xs) \<Longrightarrow> x \<in> set (take n xs) \<Longrightarrow> y \<in> set (drop n xs) \<Longrightarrow> f x \<le> f y"
proof -
  assume "sorted (List.map f xs)"
  then have "sorted (List.map f (take n xs @ drop n xs))" by simp
  then show "x \<in> set (take n xs) \<Longrightarrow> y \<in> set (drop n xs) \<Longrightarrow> f x \<le> f y"
    unfolding map_append sorted_append by auto
qed

text \<open>
  in every run of the operations \<open>Counts\<close> reports for each key exactly the number of
  its events on the timeline, reports no key without events, and no counter wraps.
\<close>

theorem counts_exact:
  assumes "run_ok agg_event_ok (agg_step srt) es (agg_new w n)"
  shows "map_of (fst (agg_counts now (fold (agg_step srt) es (agg_new w n)))) k =
    (let m = occurrences (ag_timeline (snd (agg_counts now (fold (agg_step srt) es (agg_new w n))))) k
     in if m = 0 then None else Some (of_nat m)) \<and>
    occurrences (ag_timeline (snd (agg_counts now (fold (agg_step srt) es (agg_new w n))))) k < 2 ^ 64"
proof -
  have "agg_ok (fold (agg_step srt) es (agg_new w n))"
    using agg_new_ok assms by (rule ag.run_inv)
  then have ok: "agg_ok (agg_evict now (fold (agg_step srt) es (agg_new w n)))" by (rule agg_evict_ok)
  then have "occurrences (ag_timeline (agg_evict now (fold (agg_step srt) es (agg_new w n)))) k < 2 ^ 64"
    using occurrences_le by (auto simp: agg_ok_def intro: le_less_trans)
  with ok show ?thesis by (simp add: agg_counts_def Let_def agg_ok_def counts_of_def)
qed

text \<open>
  C11: the incremental counters refine the sliding window: after applying entries in the
  order of their timestamps, \<open>Counts\<close> reports for each key the number of its entries no
  older than the window, however the evictions were spread over the applications.
\<close>

theorem window_counts:
  assumes "sorted (List.map e_time es)" and "\<forall>e\<in>set es. e_time e \<le> now" and "length es < 2 ^ 64"
    and "0 \<le> w"
  shows "map_of (fst (agg_counts now (fold agg_apply es (agg_new w n)))) k =
    (if in_window w now k es = 0 then None else Some (of_nat (in_window w now k es)))"
proof -
  have "counts_of (filter (\<lambda>t. now - w \<le> tk_at t) (List.map timed es))
      (fst (agg_counts now (fold agg_apply es (agg_new w n))))"
    using counts_in_window [OF assms(1-3), of "agg_new w n"] agg_new_ok assms(4)
    by (simp add: agg_new_def)
  then show ?thesis by (simp add: counts_of_def occurrences_in_window)
qed

text \<open>
  C32: \<open>TopK\<close> returns as many entries of the counter map as asked for, or all of them, in
  descending order, and no key it leaves out has a higher count than one it returns. A
  negative \<open>k\<close> panics.
\<close>

theorem top_k_correct:
  assumes "is_sort_slice (\<lambda>b. - uint (snd b)) srt" and "agg_ok a"
  shows "(ag_topk a < 0 \<longrightarrow> fst (agg_top_k srt now a) = Inl NegativeLength) \<and>
    (0 \<le> ag_topk a \<longrightarrow>
      (\<exists>out. fst (agg_top_k srt now a) = Inr out \<and>
        length out = min (nat (ag_topk a)) (length (fst (agg_counts now a))) \<and>
        distinct (List.map fst out) \<and> set out \<subseteq> set (fst (agg_counts now a)) \<and>
        sorted_wrt (\<lambda>x y. snd y \<le> snd x) out \<and>
        (\<forall>x\<in>set out. \<forall>y\<in>set (fst (agg_counts now a)) - set out. snd y \<le> snd x)))"
proof -
  let ?m = "fst (agg_counts now a)" and ?n = "nat (ag_topk a)"
  let ?out = "take ?n (srt ?m)"
  have m: "?m = ag_counts (agg_evict now a)" by (simp add: agg_counts_def Let_def)
  have ms: "mset (srt ?m) = mset ?m" and len: "length (srt ?m) = length ?m" and st: "set (srt ?m) = set ?m"
    and sorted: "sorted (List.map (\<lambda>b. - uint (snd b)) (srt ?m))"
    using assms(1) by (simp_all add: sort_slice_mset sort_slice_length sort_slice_set sort_slice_sorted)
  have "distinct (List.map fst ?m)"
    using agg_evict_ok [OF assms(2), of now] by (simp add: m agg_ok_def counts_of_def map_ok_def)
  then have "distinct (List.map fst (srt ?m))"
    using ms by (metis mset_eq_imp_distinct_iff mset_map)
  then have dist: "distinct (List.map fst ?out)" by (simp add: distinct_take take_map [symmetric])
  have sub: "set ?out \<subseteq> set ?m" using set_take_subset [of ?n "srt ?m"] st by simp
  have order: "sorted_wrt (\<lambda>x y. snd y \<le> snd x) ?out"
    using sorted_wrt_take [OF sorted [unfolded sorted_map], of ?n] by (simp add: word_le_def)
  have "snd y \<le> snd x" if "x \<in> set ?out" "y \<in> set ?m - set ?out" for x y
  proof -
    have "y \<in> set (take ?n (srt ?m) @ drop ?n (srt ?m))" using that(2) st by simp
    then have "y \<in> set (drop ?n (srt ?m))" using that(2) by (simp only: set_append) blast
    from sorted_take_drop [OF sorted that(1) this] show ?thesis by (simp add: word_le_def)
  qed
  with dist sub order show ?thesis
    using len by (auto simp: agg_top_k_def Let_def m min_def)
qed

text \<open>
  a snapshot carries the whole state of the aggregate: loading it into an aggregate
  with the same parameters, a fresh one after a restart, gives the state the snapshot was
  taken in, and so the same answers from then on.
\<close>

theorem snapshot_load_roundtrip:
  assumes "ag_window b = ag_window a" and "ag_topk b = ag_topk a"
  shows "agg_load_snapshot (fst (agg_snapshot now base a)) b = snd (agg_snapshot now base a) \<and>
    s_base (fst (agg_snapshot now base a)) = base"
proof -
  have "b\<lparr>ag_counts := ag_counts (agg_evict now a), ag_timeline := ag_timeline (agg_evict now a)\<rparr> = agg_evict now a"
    using assms by (simp add: agg_evict_def case_prod_beta Let_def)
  then show ?thesis by (simp add: load_of_snapshot) (simp add: agg_snapshot_def Let_def)
qed

section \<open>Witnesses\<close>

abbreviation event_at :: "string \<Rightarrow> gotime \<Rightarrow> entry" where
  "event_at k t \<equiv> \<lparr>e_offset = 0, e_id = [], e_key = k, e_value = [], e_time = t\<rparr>"

lemma counts_exact_witness:
  "map_of (fst (agg_counts 12 (fold (agg_step (\<lambda>xs. xs)) [AApply (event_at ''k'' 1), AApply (event_at ''k'' 9)] (agg_new 5 3)))) ''k''
    = Some (of_nat 1)"
  using counts_exact [of "\<lambda>xs. xs" "[AApply (event_at ''k'' 1), AApply (event_at ''k'' 9)]" 5 3 12 "''k''"]
  by (simp add: agg_apply_def agg_evict_def agg_new_def agg_counts_def Let_def)

lemma window_counts_witness:
  "map_of (fst (agg_counts 12 (fold agg_apply [event_at ''k'' 1, event_at ''j'' 8, event_at ''k'' 9] (agg_new 5 3)))) ''k''
    = Some (of_nat 1)"
  using window_counts [of "[event_at ''k'' 1, event_at ''j'' 8, event_at ''k'' 9]" 12 5 3 "''k''"]
  by (simp add: in_window_def)

lemma top_k_correct_witness:
  "\<exists>out. fst (agg_top_k (sort_key (\<lambda>b. - uint (snd b))) 9 (agg_apply (event_at ''k'' 9) (agg_new 5 3))) = Inr out \<and>
     length out = min (nat 3) (length (fst (agg_counts 9 (agg_apply (event_at ''k'' 9) (agg_new 5 3)))))"
proof -
  have "agg_ok (agg_apply (event_at ''k'' 9) (agg_new 5 3))"
    by (intro agg_apply_ok agg_new_ok) (simp add: agg_new_def)
  from top_k_correct [OF is_sort_slice_sort_key this, of 9] show ?thesis
    by (auto simp: agg_new_def)
qed

lemma snapshot_load_roundtrip_witness:
  "agg_load_snapshot (fst (agg_snapshot 9 7 (agg_apply (event_at ''k'' 9) (agg_new 5 3)))) (agg_new 5 3) =
     snd (agg_snapshot 9 7 (agg_apply (event_at ''k'' 9) (agg_new 5 3)))"
  by (rule conjunct1 [OF snapshot_load_roundtrip]) (simp_all add: agg_new_def)

end
