(* ===== verification/PartitionLoop.thy ===== *)
theory PartitionLoop
  imports Recovery Aggregate
begin

text \<open>
  \<open>internal/partition/partition.go\<close>: the goroutine that owns a log and its aggregate and
  serves commands from channels. Each iteration of its \<open>select\<close> is an event; the clock
  readings it makes and the outcomes of its file operations are arguments of the event.
  The channel of applies is a list that holds the buffered commands and, behind them, the
  blocked senders, which Go serves in the same order.
\<close>

section \<open>State\<close>

record apply_cmd =
  ac_id :: string
  ac_key :: string
  ac_value :: bytes
  ac_reply :: nat

type_synonym apply_result = "entry \<times> bool"

datatype reply =
    Applied nat apply_result
  | Answered "(string, u64) gomap" "panic + top_entry list"
  | Entries "entry list"
  | Offset u64

record partition =
  pt_log :: log
  pt_agg :: aggregate
  pt_apply :: "apply_cmd list"
  pt_cap :: int
  pt_batch :: int

definition compact_threshold :: nat where
  "compact_threshold = 10000"

datatype part_panic = NegativeCap | OpenPanic log_error

section \<open>Operations\<close>

text \<open>
  \<open>Open\<close> with the head of \<open>run\<close>. \<open>d\<close> is the data directory, or the working directory
  for an empty path: \<open>run\<close> reads \<open>snapshot.json\<close> even then.
\<close>

definition part_open :: "codec \<Rightarrow> open_io \<Rightarrow> gotime \<Rightarrow> string \<Rightarrow> duration \<Rightarrow> int \<Rightarrow> int \<Rightarrow> bool \<Rightarrow> int \<Rightarrow>
    disk \<Rightarrow> part_panic + (partition \<times> disk)" where
  "part_open c io now dir window topk cap noidem batch d =
     (let batch' = (if batch < 1 then 1 else batch)
      in if cap < 0 then Inl NegativeCap
         else (case log_open c io now dir d of
             Inl err \<Rightarrow> Inl (OpenPanic err)
           | Inr (l, d') \<Rightarrow>
               (let l1 = set_no_idempotent noidem l;
                    agg = agg_new window topk;
                    agg1 = (case load_snapshot c d' of None \<Rightarrow> agg | Some s \<Rightarrow> agg_load_snapshot s agg);
                    agg2 = fold agg_apply (l_entries l1) agg1
                in Inr (\<lparr>pt_log = l1, pt_agg = agg2, pt_apply = [], pt_cap = cap, pt_batch = batch'\<rparr>, d'))))"

definition part_new :: "codec \<Rightarrow> gotime \<Rightarrow> duration \<Rightarrow> int \<Rightarrow> int \<Rightarrow> disk \<Rightarrow> part_panic + (partition \<times> disk)" where
  "part_new c now window topk cap d = part_open c OpenOk now [] window topk cap False 1 d"

definition queue_depth :: "partition \<Rightarrow> int" where
  "queue_depth p = min (pt_cap p) (int (length (pt_apply p)))"

definition queue_cap :: "partition \<Rightarrow> int" where
  "queue_cap p = pt_cap p"

definition part_enqueue :: "apply_cmd \<Rightarrow> partition \<Rightarrow> partition" where
  "part_enqueue cmd p = p\<lparr>pt_apply := pt_apply p @ [cmd]\<rparr>"

text \<open>The last loop of \<open>applyBatch\<close>.\<close>

fun reply_all :: "apply_cmd list \<Rightarrow> apply_result list \<Rightarrow> aggregate \<Rightarrow> reply list \<times> aggregate" where
  "reply_all (cmd # cmds) ((e, fresh) # rs) agg =
     (let agg1 = (if fresh then agg_apply e agg else agg);
          (out, agg2) = reply_all cmds rs agg1
      in (Applied (ac_reply cmd) (e, fresh) # out, agg2))"
| "reply_all _ _ agg = ([], agg)"

definition apply_batch :: "codec \<Rightarrow> gotime \<Rightarrow> apply_cmd \<Rightarrow> partition \<times> disk \<Rightarrow> reply list \<times> partition \<times> disk" where
  "apply_batch c now first s =
     (case s of (p, d) \<Rightarrow>
        let more = take (nat (pt_batch p - 1)) (pt_apply p);
            cmds = first # more;
            (rs, l, d') = log_append_batch c now (List.map (\<lambda>cmd. (ac_id cmd, ac_key cmd, ac_value cmd)) cmds) (pt_log p, d);
            (out, agg) = reply_all cmds rs (pt_agg p)
        in (out, p\<lparr>pt_log := l, pt_agg := agg, pt_apply := drop (length more) (pt_apply p)\<rparr>, d'))"

definition apply_one :: "codec \<Rightarrow> gotime \<Rightarrow> apply_cmd \<Rightarrow> partition \<times> disk \<Rightarrow> reply list \<times> partition \<times> disk" where
  "apply_one c now cmd s =
     (case s of (p, d) \<Rightarrow>
        let ((e, fresh), l, d') = log_append c now (ac_id cmd) (ac_key cmd) (ac_value cmd) (pt_log p, d)
        in ([Applied (ac_reply cmd) (e, fresh)],
            p\<lparr>pt_log := l, pt_agg := (if fresh then agg_apply e (pt_agg p) else pt_agg p)\<rparr>, d'))"

datatype part_event =
    PEnqueue apply_cmd
  | PApply gotime
  | PQuery gotime gotime
  | PLogs u64
  | PBase
  | PHead
  | PCompact gotime compact_io

text \<open>
  One iteration of the loop of \<open>run\<close>. An apply needs a command in the channel. The error
  of \<open>Compact\<close> is dropped.
\<close>

fun part_step :: "codec \<Rightarrow> (top_entry list \<Rightarrow> top_entry list) \<Rightarrow> part_event \<Rightarrow> partition \<times> disk \<Rightarrow>
    reply list \<times> partition \<times> disk" where
  "part_step c srt (PEnqueue cmd) (p, d) = ([], part_enqueue cmd p, d)"
| "part_step c srt (PApply now) (p, d) =
     (case pt_apply p of
        [] \<Rightarrow> ([], p, d)
      | cmd # rest \<Rightarrow>
          (let p1 = p\<lparr>pt_apply := rest\<rparr>
           in if pt_batch p > 1 then apply_batch c now cmd (p1, d) else apply_one c now cmd (p1, d)))"
| "part_step c srt (PQuery now now') (p, d) =
     (let (counts, agg1) = agg_counts now (pt_agg p);
          (top, agg2) = agg_top_k srt now' agg1
      in ([Answered counts top], p\<lparr>pt_agg := agg2\<rparr>, d))"
| "part_step c srt (PLogs offset) (p, d) = ([Entries (log_since offset (pt_log p))], p, d)"
| "part_step c srt PBase (p, d) = ([Offset (log_base_offset (pt_log p))], p, d)"
| "part_step c srt PHead (p, d) = ([Offset (log_head (pt_log p))], p, d)"
| "part_step c srt (PCompact now io) (p, d) =
     (if length (l_entries (pt_log p)) \<ge> compact_threshold
      then (let (snap, agg1) = agg_snapshot now (log_head (pt_log p)) (pt_agg p);
                (_, l1, d1) = log_compact c io snap (pt_log p, d)
            in ([], p\<lparr>pt_log := l1, pt_agg := agg1\<rparr>, d1))
      else ([], p, d))"

text \<open>A run of the loop: all replies in order, and the final state.\<close>

fun part_run :: "codec \<Rightarrow> (top_entry list \<Rightarrow> top_entry list) \<Rightarrow> part_event list \<Rightarrow> partition \<times> disk \<Rightarrow>
    reply list \<times> partition \<times> disk" where
  "part_run c srt [] s = ([], s)"
| "part_run c srt (ev # evs) s =
     (let (out, s1) = part_step c srt ev s; (outs, s2) = part_run c srt evs s1 in (out @ outs, s2))"

section \<open>Batches are sequences of single applies\<close>

abbreviation request :: "apply_cmd \<Rightarrow> string \<times> string \<times> bytes" where
  "request cmd \<equiv> (ac_id cmd, ac_key cmd, ac_value cmd)"

lemma singles:
  assumes "pt_batch p = 1" and "pt_apply p = cmds @ rest"
  shows "part_run c srt (replicate (length cmds) (PApply now)) (p, d) =
    (let (rs, l, d') = append_all c now (List.map request cmds) (pt_log p, d);
         (out, agg) = reply_all cmds rs (pt_agg p)
     in (out, p\<lparr>pt_log := l, pt_agg := agg, pt_apply := rest\<rparr>, d'))"
  using assms
proof (induction cmds arbitrary: p d)
  case Nil
  then show ?case by simp
next
  case (Cons cmd cmds)
  obtain e fresh l d1 where a: "log_append c now (ac_id cmd) (ac_key cmd) (ac_value cmd) (pt_log p, d) = ((e, fresh), l, d1)"
    by (metis prod.exhaust)
  define q where "q = p\<lparr>pt_apply := cmds @ rest, pt_log := l,
      pt_agg := if fresh then agg_apply e (pt_agg p) else pt_agg p\<rparr>"
  obtain rs l2 d2 where all: "append_all c now (List.map request cmds) (l, d1) = (rs, l2, d2)"
    by (rule prod_cases3)
  obtain out agg where out: "reply_all cmds rs (pt_agg q) = (out, agg)" by fastforce
  have q: "pt_batch q = 1" "pt_apply q = cmds @ rest" "pt_log q = l"
    "pt_agg q = (if fresh then agg_apply e (pt_agg p) else pt_agg p)"
    "q\<lparr>pt_log := l2, pt_agg := agg, pt_apply := rest\<rparr> = p\<lparr>pt_log := l2, pt_agg := agg, pt_apply := rest\<rparr>"
    using Cons.prems by (simp_all add: q_def)
  have step: "part_step c srt (PApply now) (p, d) = ([Applied (ac_reply cmd) (e, fresh)], q, d1)"
    using Cons.prems a by (simp add: apply_one_def q_def)
  have run: "part_run c srt (replicate (length cmds) (PApply now)) (q, d1) =
      (out, p\<lparr>pt_log := l2, pt_agg := agg, pt_apply := rest\<rparr>, d2)"
    unfolding Cons.IH [OF q(1,2)] q(3) all Let_def prod.case out q(5) ..
  have all': "append_all c now (List.map request (cmd # cmds)) (pt_log p, d) = ((e, fresh) # rs, l2, d2)"
    using a all by simp
  have out': "reply_all (cmd # cmds) ((e, fresh) # rs) (pt_agg p) = (Applied (ac_reply cmd) (e, fresh) # out, agg)"
    using out by (simp add: q(4))
  show ?case
    unfolding all' Let_def prod.case out' length_Cons replicate_Suc part_run.simps step run by simp
qed

lemma batch_step:
  assumes "pt_batch p > 1" and "pt_apply p = cmd # rest"
    and "cmds = cmd # take (nat (pt_batch p - 1)) rest"
    and "append_all c now (List.map request cmds) (pt_log p, d) = (rs, l, d')"
    and "reply_all cmds rs (pt_agg p) = (out, agg)"
  shows "part_step c srt (PApply now) (p, d) =
    (out, p\<lparr>pt_log := l, pt_agg := agg, pt_apply := drop (nat (pt_batch p - 1)) rest\<rparr>, d')"
proof -
  have rest: "drop (length (take (nat (pt_batch p - 1)) rest)) rest = drop (nat (pt_batch p - 1)) rest"
    by (simp add: min_def)
  have "part_step c srt (PApply now) (p, d) = apply_batch c now cmd (p\<lparr>pt_apply := rest\<rparr>, d)"
    using assms(1,2) by simp
  also have "\<dots> = (out, p\<lparr>pt_log := l, pt_agg := agg, pt_apply := drop (nat (pt_batch p - 1)) rest\<rparr>, d')"
    using assms(4,5) rest
    by (simp add: apply_batch_def append_batch_append_all Let_def assms(3) [symmetric] del: list.map
        reply_all.simps append_all.simps)
  finally show ?thesis .
qed

lemma single_step:
  assumes "pt_batch p = 1"
  shows "part_step c srt (PApply now) (p, d) = part_run c srt (replicate (min 1 (length (pt_apply p))) (PApply now)) (p, d)"
proof (cases "pt_apply p")
  case (Cons cmd rest)
  then have "replicate (min 1 (length (pt_apply p))) (PApply now) = [PApply now]" by simp
  then show ?thesis by (simp only: part_run.simps) (simp add: case_prod_beta del: part_step.simps)
qed simp

lemma pt_batch_step: "pt_batch (fst (snd (part_step c srt ev s))) = pt_batch (fst s)"
proof -
  obtain p d where "s = (p, d)" by fastforce
  then show ?thesis
    by (cases ev) (simp_all add: case_prod_beta Let_def apply_one_def apply_batch_def part_enqueue_def split: list.split)
qed

lemma batch_as_singles:
  assumes "1 \<le> pt_batch p"
  shows "part_step c srt (PApply now) (p, d) =
    (case part_run c srt (replicate (min (nat (pt_batch p)) (length (pt_apply p))) (PApply now)) (p\<lparr>pt_batch := 1\<rparr>, d) of
       (out, p', d') \<Rightarrow> (out, p'\<lparr>pt_batch := pt_batch p\<rparr>, d'))"
proof (cases "pt_batch p > 1 \<and> pt_apply p \<noteq> []")
  case True
  then obtain cmd rest where q: "pt_apply p = cmd # rest" by (cases "pt_apply p") auto
  define n cmds where "n = nat (pt_batch p - 1)" and cmds: "cmds = cmd # take n rest"
  obtain rs l d' where a: "append_all c now (List.map request cmds) (pt_log p, d) = (rs, l, d')"
    by (rule prod_cases3)
  obtain out agg where o: "reply_all cmds rs (pt_agg p) = (out, agg)" by fastforce
  have "nat (pt_batch p) = Suc n" using True unfolding n_def by linarith
  then have len: "min (nat (pt_batch p)) (length (pt_apply p)) = length cmds"
    by (simp add: q cmds min_def)
  have "pt_apply (p\<lparr>pt_batch := 1\<rparr>) = cmds @ drop n rest" by (simp add: q cmds)
  then have "part_run c srt (replicate (length cmds) (PApply now)) (p\<lparr>pt_batch := 1\<rparr>, d) =
      (out, p\<lparr>pt_batch := 1, pt_log := l, pt_agg := agg, pt_apply := drop n rest\<rparr>, d')"
    using singles [of "p\<lparr>pt_batch := 1\<rparr>" cmds "drop n rest" c srt now d] a o by simp
  moreover have "part_step c srt (PApply now) (p, d) =
      (out, p\<lparr>pt_log := l, pt_agg := agg, pt_apply := drop n rest\<rparr>, d')"
    using batch_step [OF _ q _ a o] True by (simp add: n_def cmds)
  ultimately show ?thesis by (simp add: len)
next
  case False
  show ?thesis
  proof (cases "pt_apply p")
    case Nil
    then show ?thesis by simp
  next
    case (Cons cmd rest)
    with False assms have one: "pt_batch p = 1" by simp
    then have p: "p\<lparr>pt_batch := 1\<rparr> = p" by simp
    obtain out q d' where r: "part_step c srt (PApply now) (p, d) = (out, q, d')" by (rule prod_cases3)
    then have "q\<lparr>pt_batch := 1\<rparr> = q"
      using pt_batch_step [of c srt "PApply now" "(p, d)"] one by simp
    moreover have "part_run c srt (replicate (min (nat (pt_batch p)) (length (pt_apply p))) (PApply now)) (p, d) = (out, q, d')"
      using single_step [OF one, of c srt now d] r one by simp
    ultimately show ?thesis unfolding r p by (simp add: one)
  qed
qed

section \<open>What the aggregate counts\<close>

text \<open>The entries that a run acknowledged as new.\<close>

fun acked_reply :: "reply \<Rightarrow> entry list" where
  "acked_reply (Applied r (e, fresh)) = (if fresh then [e] else [])"
| "acked_reply _ = []"

definition acked :: "reply list \<Rightarrow> entry list" where
  "acked outs = concat (List.map acked_reply outs)"

lemma acked_simps [simp]:
  "acked [] = []"
  "acked (r # rs) = acked_reply r @ acked rs"
  "acked (rs @ ss) = acked rs @ acked ss"
  by (simp_all add: acked_def)

text \<open>
  \<open>follows w t es a\<close>: the aggregate has applied the entries \<open>es\<close>, the last no later than
  \<open>t\<close>, and evicted nothing that was in the window at \<open>t\<close>.
\<close>

definition follows :: "duration \<Rightarrow> gotime \<Rightarrow> entry list \<Rightarrow> aggregate \<Rightarrow> bool" where
  "follows w t es a \<longleftrightarrow> agg_ok a \<and> ag_window a = w \<and> sorted (List.map e_time es) \<and>
     (\<forall>e\<in>set es. e_time e \<le> t) \<and>
     (\<exists>c\<le>t - w. ag_timeline a = dropWhile (\<lambda>k. tk_at k < c) (List.map timed es))"

lemma follows_new: "follows w t [] (agg_new w n)"
  by (auto simp: follows_def agg_new_ok) (auto simp: agg_new_def)

lemma follows_later: "follows w t es a \<Longrightarrow> t \<le> t' \<Longrightarrow> follows w t' es a"
  unfolding follows_def by (auto intro: order_trans) (metis diff_right_mono order_trans)

lemma follows_evict:
  assumes "follows w t es a" and "t \<le> now"
  shows "follows w now es (agg_evict now a)"
proof -
  obtain c where c: "c \<le> t - w" "ag_timeline a = dropWhile (\<lambda>k. tk_at k < c) (List.map timed es)"
    using assms(1) by (auto simp: follows_def)
  have "ag_timeline (agg_evict now a) = dropWhile (\<lambda>k. tk_at k < now - w) (List.map timed es)"
    using assms c by (simp add: agg_evict_timeline follows_def dropWhile_twice)
  then show ?thesis
    using assms by (auto simp: follows_def agg_evict_ok)
qed

lemma dropWhile_snoc: "\<not> P x \<Longrightarrow> dropWhile P xs @ [x] = dropWhile P (xs @ [x])"
  by (induction xs) auto

lemma follows_apply:
  assumes "follows w t es a" and "t \<le> e_time e" and "0 \<le> w" and "length es + 1 < 2 ^ 64"
  shows "follows w (e_time e) (es @ [e]) (agg_apply e a)"
proof -
  obtain c where c: "c \<le> t - w" "ag_timeline a = dropWhile (\<lambda>k. tk_at k < c) (List.map timed es)"
    using assms(1) by (auto simp: follows_def)
  then have "length (ag_timeline a) + 1 < 2 ^ 64"
    using length_dropWhile_le [of "\<lambda>k. tk_at k < c" "List.map timed es"] assms(4) by simp
  then have "agg_ok (agg_apply e a)" using assms(1) by (intro agg_apply_ok) (simp_all add: follows_def)
  moreover have "ag_timeline (agg_apply e a) = dropWhile (\<lambda>k. tk_at k < e_time e - w) (List.map timed (es @ [e]))"
    using assms c by (simp add: agg_apply_timeline follows_def dropWhile_twice dropWhile_snoc timed_def)
  ultimately show ?thesis
    using assms(1,2) by (auto simp: follows_def sorted_append)
qed

lemma follows_counts:
  assumes "follows w t es a" and "t \<le> now"
  shows "map_of (fst (agg_counts now a)) k =
    (if in_window w now k es = 0 then None else Some (of_nat (in_window w now k es)))"
proof -
  have f: "follows w now es (agg_evict now a)" using assms by (rule follows_evict)
  obtain c where c: "c \<le> t - w" "ag_timeline a = dropWhile (\<lambda>k. tk_at k < c) (List.map timed es)"
    using assms(1) by (auto simp: follows_def)
  have "ag_timeline (agg_evict now a) = dropWhile (\<lambda>k. tk_at k < now - w) (List.map timed es)"
    using assms c by (simp add: agg_evict_timeline follows_def dropWhile_twice)
  also have "\<dots> = filter (\<lambda>k. \<not> tk_at k < now - w) (List.map timed es)"
    using assms(1) by (intro sorted_wrt_filter_drop) (simp add: comp_def follows_def)
  finally have "ag_timeline (agg_evict now a) = filter (\<lambda>k. now - w \<le> tk_at k) (List.map timed es)"
    by (simp add: not_less)
  with f show ?thesis
    by (simp add: follows_def agg_ok_def counts_of_def agg_counts_def Let_def occurrences_in_window)
qed

text \<open>Clock readings that do not go back; \<open>t\<close> is the last one before the run.\<close>

fun event_clock :: "part_event \<Rightarrow> gotime list" where
  "event_clock (PApply now) = [now]"
| "event_clock (PQuery now now') = [now, now']"
| "event_clock (PCompact now io) = [now]"
| "event_clock _ = []"

definition clock :: "part_event list \<Rightarrow> gotime list" where
  "clock evs = concat (List.map event_clock evs)"

lemma clock_simps [simp]:
  "clock [] = []"
  "clock (ev # evs) = event_clock ev @ clock evs"
  by (simp_all add: clock_def)

definition last_clock :: "gotime \<Rightarrow> gotime list \<Rightarrow> gotime" where
  "last_clock t ts = last (t # ts)"

lemma last_clock_simps [simp]:
  "last_clock t [] = t" "last_clock t (ts @ us) = last_clock (last_clock t ts) us"
  by (auto simp: last_clock_def)

lemma log_append_time:
  "log_append c now i k v s = ((e, True), s') \<Longrightarrow> e_time e = now"
  by (cases s) (auto simp: log_append_def Let_def split: prod.splits if_splits)

lemma agg_top_k_state [simp]: "snd (agg_top_k srt now a) = agg_evict now a"
  by (simp add: agg_top_k_def Let_def)

lemma agg_counts_state [simp]: "snd (agg_counts now a) = agg_evict now a"
  by (simp add: agg_counts_def Let_def)

lemma agg_snapshot_state [simp]: "snd (agg_snapshot now b a) = agg_evict now a"
  by (simp add: agg_snapshot_def Let_def)

lemma follows_apply_one:
  assumes "follows w t hist (pt_agg p)" and "apply_one c now cmd (p, d) = (out, p', d')"
    and "t \<le> now" and "0 \<le> w" and "length hist + length (acked out) < 2 ^ 64"
  shows "follows w now (hist @ acked out) (pt_agg p')"
proof -
  obtain e fresh l d1 where a: "log_append c now (ac_id cmd) (ac_key cmd) (ac_value cmd) (pt_log p, d) = ((e, fresh), l, d1)"
    by (metis prod.exhaust)
  show ?thesis
  proof (cases fresh)
    case True
    with a have "log_append c now (ac_id cmd) (ac_key cmd) (ac_value cmd) (pt_log p, d) = ((e, True), l, d1)" by simp
    then have "e_time e = now" by (rule log_append_time)
    with True a assms follows_apply [of w t hist "pt_agg p" e] show ?thesis
      by (auto simp: apply_one_def)
  next
    case False
    with a assms follows_later [OF assms(1,3)] show ?thesis by (auto simp: apply_one_def)
  qed
qed

text \<open>One iteration, for a loop that does not batch or an event that is not an apply.\<close>

lemma follows_single_step:
  assumes "follows w t hist (pt_agg p)" and "part_step c srt ev (p, d) = (out, p', d')"
    and "\<And>now. ev = PApply now \<Longrightarrow> pt_batch p = 1" and "sorted (t # event_clock ev)" and "0 \<le> w"
    and "length hist + length (acked out) < 2 ^ 64"
  shows "follows w (last_clock t (event_clock ev)) (hist @ acked out) (pt_agg p')"
proof (cases ev)
  case (PApply now)
  show ?thesis
  proof (cases "pt_apply p")
    case Nil
    with PApply assms(1,2,4) show ?thesis
      by (auto simp: last_clock_def intro: follows_later)
  next
    case (Cons cmd rest)
    have "follows w now (hist @ acked out) (pt_agg p')"
      by (rule follows_apply_one [of w t hist "p\<lparr>pt_apply := rest\<rparr>" c now cmd d])
        (use assms PApply Cons in simp_all)
    then show ?thesis by (simp add: PApply last_clock_def)
  qed
next
  case (PQuery now now')
  have "follows w now' hist (agg_evict now' (agg_evict now (pt_agg p)))"
    by (rule follows_evict [OF follows_evict [OF assms(1)]]) (use assms(4) PQuery in simp_all)
  with PQuery assms(2) show ?thesis by (auto simp: case_prod_beta last_clock_def)
next
  case (PCompact now io)
  have "follows w now hist (agg_evict now (pt_agg p))" and "follows w now hist (pt_agg p)"
    using assms(1,4) PCompact by (auto intro: follows_evict follows_later)
  with PCompact assms(2) show ?thesis
    by (auto simp: case_prod_beta Let_def last_clock_def split: if_splits)
qed (use assms in \<open>auto simp: part_enqueue_def last_clock_def\<close>)

lemma part_run_batch: "pt_batch (fst (snd (part_run c srt evs s))) = pt_batch (fst s)"
  by (induction evs arbitrary: s) (simp_all add: case_prod_beta pt_batch_step del: part_step.simps)

lemma part_run_Cons:
  assumes "part_run c srt (ev # evs) s = (outs, s')"
  shows "\<exists>out s1 outs1. part_step c srt ev s = (out, s1) \<and> part_run c srt evs s1 = (outs1, s') \<and> outs = out @ outs1"
  using assms by (cases "part_step c srt ev s"; cases "part_run c srt evs (snd (part_step c srt ev s))")
    (simp del: part_step.simps)

text \<open>A run whose every step keeps the aggregate in line with the history.\<close>

definition keeps_following :: "duration \<Rightarrow> codec \<Rightarrow> (top_entry list \<Rightarrow> top_entry list) \<Rightarrow> int \<Rightarrow> bool" where
  "keeps_following w c srt b \<longleftrightarrow> (\<forall>t hist p d ev out p' d'.
     follows w t hist (pt_agg p) \<longrightarrow> part_step c srt ev (p, d) = (out, p', d') \<longrightarrow> pt_batch p = b \<longrightarrow>
     sorted (t # event_clock ev) \<longrightarrow> length hist + length (acked out) < 2 ^ 64 \<longrightarrow>
     follows w (last_clock t (event_clock ev)) (hist @ acked out) (pt_agg p'))"

lemma keeps_following_run:
  assumes "keeps_following w c srt b"
    and "follows w t hist (pt_agg (fst s))" and "part_run c srt evs s = (outs, s')"
    and "pt_batch (fst s) = b" and "sorted (t # clock evs)"
    and "length hist + length (acked outs) < 2 ^ 64"
  shows "follows w (last_clock t (clock evs)) (hist @ acked outs) (pt_agg (fst s'))"
  using assms(2-)
proof (induction evs arbitrary: s t hist outs)
  case Nil
  then show ?case by simp
next
  case (Cons ev evs)
  obtain out s1 outs1 where st: "part_step c srt ev s = (out, s1)" and run: "part_run c srt evs s1 = (outs1, s')"
    and outs: "outs = out @ outs1"
    using part_run_Cons [OF Cons.prems(2)] by blast
  let ?t = "last_clock t (event_clock ev)"
  have clk: "sorted (t # event_clock ev)" "sorted (?t # clock evs)"
    using Cons.prems(4) by (auto simp: last_clock_def sorted_append)
  have "part_step c srt ev (fst s, snd s) = (out, fst s1, snd s1)"
    and "length hist + length (acked out) < 2 ^ 64"
    using st Cons.prems(5) outs by (simp_all del: part_step.simps)
  then have "follows w ?t (hist @ acked out) (pt_agg (fst s1))"
    using assms(1) Cons.prems(1,3) clk(1) unfolding keeps_following_def by blast
  moreover have "pt_batch (fst s1) = b" using pt_batch_step [of c srt ev s] st Cons.prems(3) by simp
  ultimately show ?case
    using Cons.IH [OF _ run _ clk(2), of "hist @ acked out"] Cons.prems(5) outs by simp
qed

lemma keeps_following_single: "0 \<le> w \<Longrightarrow> keeps_following w c srt 1"
  unfolding keeps_following_def by (blast intro: follows_single_step)

lemma clock_replicate: "clock (replicate k (PApply now)) = replicate k now"
  by (induction k) simp_all

lemma keeps_following_batch:
  assumes "0 \<le> w" and "1 \<le> b"
  shows "keeps_following w c srt b"
  unfolding keeps_following_def
proof (intro allI impI)
  fix t hist p d ev out p' d'
  assume f: "follows w t hist (pt_agg p)" and st: "part_step c srt ev (p, d) = (out, p', d')"
    and b: "pt_batch p = b" and clk: "sorted (t # event_clock ev)"
    and len: "length hist + length (acked out) < 2 ^ 64"
  show "follows w (last_clock t (event_clock ev)) (hist @ acked out) (pt_agg p')"
  proof (cases "\<exists>now. ev = PApply now")
    case False
    then show ?thesis using follows_single_step [OF f st _ clk assms(1) len] by blast
  next
    case True
    then obtain now where ev: "ev = PApply now" by blast
    define k where "k = min (nat (pt_batch p)) (length (pt_apply p))"
    let ?evs = "replicate k (PApply now)"
    obtain out1 q d1 where run: "part_run c srt ?evs (p\<lparr>pt_batch := 1\<rparr>, d) = (out1, q, d1)"
      by (rule prod_cases3)
    have eq: "out = out1" "pt_agg p' = pt_agg q"
      using batch_as_singles [of p c srt now d] st b assms(2) run ev k_def by auto
    have "sorted (t # clock ?evs)" using clk by (simp add: ev clock_replicate)
    then have "follows w (last_clock t (clock ?evs)) (hist @ acked out) (pt_agg q)"
      using keeps_following_run [OF keeps_following_single [OF assms(1)], of t hist "(p\<lparr>pt_batch := 1\<rparr>, d)" c srt ?evs out1 "(q, d1)"]
        f run len eq(1) by simp
    moreover have "last_clock t (clock ?evs) \<le> now"
      using clk by (simp add: ev clock_replicate last_clock_def)
    ultimately show ?thesis
      using follows_later eq(2) by (simp add: ev last_clock_def)
  qed
qed

section \<open>Properties\<close>

lemma part_open_empty:
  assumes "part_open c OpenOk t0 dir w n cap noidem b empty_disk = Inr s"
  shows "follows w t0 [] (pt_agg (fst s)) \<and> 1 \<le> pt_batch (fst s)"
proof -
  obtain l d where o: "log_open c OpenOk t0 dir empty_disk = Inr (l, d)"
    using assms by (auto simp: part_open_def Let_def split: if_splits sum.splits)
  then have "l_entries l = [] \<and> load_snapshot c d = None"
    by (cases "dir = []") (auto simp: log_open_def Let_def load_snapshot_def empty_disk_def)
  with assms o show ?thesis
    by (auto simp: part_open_def Let_def follows_new set_no_idempotent_def split: if_splits)
qed

text \<open>
  C9: an iteration that drains a batch gives the replies, the log, the files, the
  aggregate and the remaining queue of as many iterations that apply one command each at
  the same time.
\<close>

theorem batching_transparent:
  assumes "1 \<le> pt_batch p"
  shows "part_step c srt (PApply now) (p, d) =
    (case part_run c srt (replicate (min (nat (pt_batch p)) (length (pt_apply p))) (PApply now)) (p\<lparr>pt_batch := 1\<rparr>, d) of
       (out, p', d') \<Rightarrow> (out, p'\<lparr>pt_batch := pt_batch p\<rparr>, d'))"
  using assms by (rule batch_as_singles)

text \<open>
  C5: a query answers for each key with the number of applies acknowledged as new in the
  window before it, over any run of commands and compactions from an empty directory with
  a clock that does not go back.
\<close>

theorem queries_count_acknowledged:
  assumes "part_open c OpenOk t0 dir w n cap noidem b empty_disk = Inr s0"
    and "part_run c srt evs s0 = (outs, p, d)" and "sorted (t0 # clock evs @ [now])" and "0 \<le> w"
    and "length (acked outs) < 2 ^ 64"
  shows "\<exists>counts top s. part_step c srt (PQuery now now') (p, d) = ([Answered counts top], s) \<and>
    (\<forall>k. map_of counts k =
      (let m = in_window w now k (acked outs) in if m = 0 then None else Some (of_nat m)))"
proof -
  have "follows w (last_clock t0 (clock evs)) ([] @ acked outs) (pt_agg (fst (p, d)))"
    using keeps_following_run [OF keeps_following_batch, of w _ t0 "[]" s0 c srt evs outs "(p, d)"]
      part_open_empty [OF assms(1)] assms(2-5) by (auto simp: sorted_append)
  then have f: "follows w (last_clock t0 (clock evs)) (acked outs) (pt_agg p)" by simp
  have "last_clock t0 (clock evs) \<le> now"
    using assms(3) by (auto simp: last_clock_def sorted_append)
  from follows_counts [OF f this] show ?thesis
    by (simp add: case_prod_beta Let_def)
qed

section \<open>Witnesses\<close>

abbreviation cmd_a :: apply_cmd where
  "cmd_a \<equiv> \<lparr>ac_id = ''a'', ac_key = ''k'', ac_value = ''v'', ac_reply = 0\<rparr>"

definition memory_partition :: "int \<Rightarrow> partition" where
  "memory_partition b = \<lparr>pt_log = log_new, pt_agg = agg_new 5 3, pt_apply = [], pt_cap = 8, pt_batch = b\<rparr>"

lemma memory_open: "part_open no_codec OpenOk 0 [] 5 3 8 False 1 empty_disk = Inr (memory_partition 1, empty_disk)"
  by (simp add: part_open_def Let_def log_open_memory set_no_idempotent_def load_snapshot_def empty_disk_def
      memory_partition_def) (simp add: log_new_def)

lemma batching_transparent_witness:
  "part_step no_codec (\<lambda>xs. xs) (PApply 1) ((memory_partition 4)\<lparr>pt_apply := [cmd_a, cmd_a]\<rparr>, empty_disk) =
    (case part_run no_codec (\<lambda>xs. xs) (replicate (min (nat 4) (length [cmd_a, cmd_a])) (PApply 1))
        ((memory_partition 4)\<lparr>pt_apply := [cmd_a, cmd_a], pt_batch := 1\<rparr>, empty_disk) of
       (out, p', d') \<Rightarrow> (out, p'\<lparr>pt_batch := 4\<rparr>, d'))"
  using batching_transparent [of "(memory_partition 4)\<lparr>pt_apply := [cmd_a, cmd_a]\<rparr>" no_codec "\<lambda>xs. xs" 1 empty_disk]
  by (simp add: memory_partition_def del: part_step.simps)

lemma memory_run:
  "\<exists>p. part_run no_codec (\<lambda>xs. xs) [PEnqueue cmd_a, PApply 1] (memory_partition 1, empty_disk) =
     ([Applied 0 (new_entry log_new 1 ''a'' ''k'' ''v'', True)], p, empty_disk)"
  by (simp add: memory_partition_def part_enqueue_def apply_one_def append_to_new)

lemma queries_count_acknowledged_witness:
  "\<exists>p counts top s. part_run no_codec (\<lambda>xs. xs) [PEnqueue cmd_a, PApply 1] (memory_partition 1, empty_disk) =
     ([Applied 0 (new_entry log_new 1 ''a'' ''k'' ''v'', True)], p, empty_disk) \<and>
     part_step no_codec (\<lambda>xs. xs) (PQuery 4 4) (p, empty_disk) = ([Answered counts top], s) \<and>
     map_of counts ''k'' = Some (of_nat 1)"
proof -
  obtain p where p: "part_run no_codec (\<lambda>xs. xs) [PEnqueue cmd_a, PApply 1] (memory_partition 1, empty_disk) =
     ([Applied 0 (new_entry log_new 1 ''a'' ''k'' ''v'', True)], p, empty_disk)"
    using memory_run by blast
  have "in_window 5 4 ''k'' (acked [Applied 0 (new_entry log_new 1 ''a'' ''k'' ''v'', True)]) = 1"
    by (simp add: in_window_def)
  moreover have "sorted (0 # clock [PEnqueue cmd_a, PApply 1] @ [4])" and "(0::int) \<le> 5"
    and "length (acked [Applied 0 (new_entry log_new 1 ''a'' ''k'' ''v'', True)]) < 2 ^ 64"
    by simp_all
  ultimately obtain counts top s where
    "part_step no_codec (\<lambda>xs. xs) (PQuery 4 4) (p, empty_disk) = ([Answered counts top], s)"
    "map_of counts ''k'' = Some (of_nat 1)"
    using queries_count_acknowledged [OF memory_open p, of 4 4] by (auto simp: Let_def simp del: part_step.simps)
  with p show ?thesis by blast
qed

end
