(* ===== verification/PartitionRestart.thy ===== *)
theory PartitionRestart
  imports PartitionLoop
begin

text \<open>
  Restarts of a partition: what \<open>Open\<close> in \<open>internal/partition/partition.go\<close> rebuilds from
  the snapshot and the write-ahead file that the loop left behind, and what it rebuilds
  when the process stopped in the middle of a compaction.
\<close>

section \<open>What a restart finds\<close>

lemma append_all_facts:
  assumes "append_all c now reqs (l, d) = (rs, l', d')"
  shows "l_entries l' = l_entries l @ List.map fst (filter snd rs) \<and> length rs = length reqs \<and>
    (\<forall>e\<in>set (List.map fst (filter snd rs)). e_time e = now) \<and> snap_file d' = snap_file d"
  using assms
proof (induction reqs arbitrary: l d rs)
  case Nil
  then show ?case by simp
next
  case (Cons r reqs)
  obtain i k v where r: "r = (i, k, v)" by (cases r)
  obtain e fresh l1 d1 where a: "log_append c now i k v (l, d) = ((e, fresh), l1, d1)"
    by (metis prod.exhaust)
  obtain rs1 where all: "append_all c now reqs (l1, d1) = (rs1, l', d')" and rs: "rs = (e, fresh) # rs1"
    using Cons.prems a by (auto simp: r split: prod.splits)
  have "l_entries l1 = l_entries l @ (if fresh then [e] else [])" and "fresh \<longrightarrow> e_time e = now"
    and "snap_file d1 = snap_file d"
    using a by (auto simp: log_append_def Let_def wal_write_def split: prod.splits if_splits wal_handle.splits)
  with Cons.IH [OF all] show ?case by (auto simp: rs)
qed

lemma acked_reply_all:
  "length cmds = length rs \<Longrightarrow> acked (fst (reply_all cmds rs agg)) = List.map fst (filter snd rs)"
  by (induction cmds rs arbitrary: agg rule: list_induct2) (auto simp: case_prod_beta Let_def)

text \<open>What an apply iteration does to the log, whatever the batch size.\<close>

abbreviation next_batch :: "partition \<Rightarrow> (string \<times> string \<times> bytes) list" where
  "next_batch p \<equiv> List.map request (take (nat (pt_batch p)) (pt_apply p))"

lemma apply_step_log:
  assumes "1 \<le> pt_batch p" and "part_step c srt (PApply now) (p, d) = (out, p', d')"
  shows "\<exists>rs. append_all c now (next_batch p) (pt_log p, d) = (rs, pt_log p', d') \<and>
    acked out = List.map fst (filter snd rs)"
proof -
  let ?k = "min (nat (pt_batch p)) (length (pt_apply p))" and ?q = "p\<lparr>pt_batch := 1\<rparr>"
  let ?cmds = "take (nat (pt_batch p)) (pt_apply p)"
  obtain rs l d1 where a: "append_all c now (next_batch p) (pt_log p, d) = (rs, l, d1)" by (rule prod_cases3)
  obtain out1 agg where r: "reply_all ?cmds rs (pt_agg p) = (out1, agg)" by fastforce
  have k: "length ?cmds = ?k" by (simp add: min_def)
  have "pt_apply ?q = ?cmds @ drop (nat (pt_batch p)) (pt_apply p)" by simp
  then have "part_run c srt (replicate ?k (PApply now)) (?q, d) =
      (out1, ?q\<lparr>pt_log := l, pt_agg := agg, pt_apply := drop (nat (pt_batch p)) (pt_apply p)\<rparr>, d1)"
    using singles [of ?q ?cmds "drop (nat (pt_batch p)) (pt_apply p)" c srt now d] a r unfolding k by simp
  then have "out = out1 \<and> pt_log p' = l \<and> d' = d1"
    using batch_as_singles [OF assms(1), of c srt now d] assms(2) by auto
  moreover have "length ?cmds = length rs" using append_all_facts [OF a] by simp
  ultimately show ?thesis
    using a r acked_reply_all [of ?cmds rs "pt_agg p"] by auto
qed

text \<open>
  What a run has to keep for a restart to find its entries and counts: the log is
  durable, and the snapshot on disk together with the entries of the log makes up the
  history the aggregate has followed.
\<close>

definition recovers :: "codec \<Rightarrow> duration \<Rightarrow> gotime \<Rightarrow> entry list \<Rightarrow> partition \<times> disk \<Rightarrow> bool" where
  "recovers c w t hist s \<longleftrightarrow> (case s of (p, d) \<Rightarrow>
     durable c (pt_log p, d) \<and> follows w t hist (pt_agg p) \<and>
     (\<exists>old t0. hist = old @ l_entries (pt_log p) \<and> t0 \<le> t \<and> (\<forall>e\<in>set (l_entries (pt_log p)). t0 \<le> e_time e) \<and>
        (case load_snapshot c d of None \<Rightarrow> old = []
         | Some s \<Rightarrow> \<forall>n. follows w t0 old (agg_load_snapshot s (agg_new w n)))))"

lemma recoversI:
  assumes "durable c (pt_log p, d)" and "follows w t hist (pt_agg p)"
    and "hist = old @ l_entries (pt_log p)" and "t0 \<le> t"
    and "\<And>e. e \<in> set (l_entries (pt_log p)) \<Longrightarrow> t0 \<le> e_time e"
    and "case load_snapshot c d of None \<Rightarrow> old = []
      | Some s \<Rightarrow> \<forall>n. follows w t0 old (agg_load_snapshot s (agg_new w n))"
  shows "recovers c w t hist (p, d)"
  using assms unfolding recovers_def prod.case by blast

lemma recoversE:
  assumes "recovers c w t hist (p, d)"
  obtains old t0 where "hist = old @ l_entries (pt_log p)" and "t0 \<le> t"
    and "\<And>e. e \<in> set (l_entries (pt_log p)) \<Longrightarrow> t0 \<le> e_time e"
    and "case load_snapshot c d of None \<Rightarrow> old = []
      | Some s \<Rightarrow> \<forall>n. follows w t0 old (agg_load_snapshot s (agg_new w n))"
  using assms unfolding recovers_def prod.case by blast

lemma recovers_durable: "recovers c w t hist (p, d) \<Longrightarrow> durable c (pt_log p, d)"
  by (simp add: recovers_def)

lemma recovers_follows: "recovers c w t hist (p, d) \<Longrightarrow> follows w t hist (pt_agg p)"
  by (simp add: recovers_def)

fun part_event_ok :: "codec \<Rightarrow> part_event \<Rightarrow> partition \<times> disk \<Rightarrow> bool" where
  "part_event_ok c (PApply now) (p, d) = batch_storable c now (next_batch p) (pt_log p, d)"
| "part_event_ok c (PCompact now io) (p, d) =
     (io \<noteq> ReopenFails \<and> length (l_entries (pt_log p)) < 2 ^ 64 \<and>
      (let s = fst (agg_snapshot now (log_head (pt_log p)) (pt_agg p)) in dec_snap c (enc_snap c s) = Some s))"
| "part_event_ok c _ _ = True"

lemma recovers_same_log:
  assumes "recovers c w t hist (p, d)" and "pt_log p' = pt_log p" and "t \<le> t'"
    and "follows w t' hist (pt_agg p')"
    and "wal_file d' = wal_file d" and "snap_file d' = snap_file d"
  shows "recovers c w t' hist (p', d')"
proof -
  have snap: "load_snapshot c d' = load_snapshot c d" using assms(6) by (simp add: load_snapshot_def)
  then have dur: "durable c (pt_log p', d')"
    using recovers_durable [OF assms(1)] assms(2,5) by (simp add: durable_def log_ok_def snap_base_def)
  from assms(1) show ?thesis
  proof (rule recoversE)
    fix old t0
    assume "hist = old @ l_entries (pt_log p)" "t0 \<le> t" "\<And>e. e \<in> set (l_entries (pt_log p)) \<Longrightarrow> t0 \<le> e_time e"
      "case load_snapshot c d of None \<Rightarrow> old = []
       | Some s \<Rightarrow> \<forall>n. follows w t0 old (agg_load_snapshot s (agg_new w n))"
    with dur assms(2-4) snap show ?thesis
      by (intro recoversI [of c p' d' w t' hist old t0]) simp_all
  qed
qed

lemma recovers_apply:
  assumes "recovers c w t hist (p, d)" and "part_step c srt (PApply now) (p, d) = (out, p', d')"
    and "1 \<le> pt_batch p" and "t \<le> now" and "batch_storable c now (next_batch p) (pt_log p, d)"
    and "follows w now (hist @ acked out) (pt_agg p')"
  shows "recovers c w now (hist @ acked out) (p', d')"
proof -
  obtain rs where rs: "append_all c now (next_batch p) (pt_log p, d) = (rs, pt_log p', d')"
    "acked out = List.map fst (filter snd rs)"
    using apply_step_log [OF assms(3,2)] by blast
  note facts = append_all_facts [OF rs(1), folded rs(2)]
  have dur: "durable c (pt_log p', d')"
    using durable_append_all [of c "(pt_log p, d)" now "next_batch p"] recovers_durable [OF assms(1)] assms(5) rs(1)
    by simp
  have snap: "load_snapshot c d' = load_snapshot c d" using facts by (simp add: load_snapshot_def)
  from assms(1) show ?thesis
  proof (rule recoversE)
    fix old t0
    assume old: "hist = old @ l_entries (pt_log p)" "t0 \<le> t" "\<And>e. e \<in> set (l_entries (pt_log p)) \<Longrightarrow> t0 \<le> e_time e"
      "case load_snapshot c d of None \<Rightarrow> old = []
       | Some s \<Rightarrow> \<forall>n. follows w t0 old (agg_load_snapshot s (agg_new w n))"
    have "t0 \<le> e_time e" if "e \<in> set (l_entries (pt_log p'))" for e
      using that facts old(2,3) assms(4) by auto
    with dur old assms(4,6) facts snap show ?thesis
      by (intro recoversI [of c p' d' w now "hist @ acked out" old t0]) simp_all
  qed
qed

lemma follows_loaded_snapshot:
  assumes "follows w now hist (agg_evict now a)"
  shows "follows w now hist (agg_load_snapshot (fst (agg_snapshot now base a)) (agg_new w n))"
  using assms unfolding load_of_snapshot by (simp add: follows_def agg_ok_def) (simp add: agg_new_def)

lemma recovers_compact:
  assumes "recovers c w t hist (p, d)" and "part_step c srt (PCompact now io) (p, d) = (out, p', d')"
    and "t \<le> now" and "part_event_ok c (PCompact now io) (p, d)"
  shows "recovers c w now hist (p', d')"
proof (cases "length (l_entries (pt_log p)) \<ge> compact_threshold")
  case False
  with assms follows_later [OF recovers_follows [OF assms(1)] assms(3)] show ?thesis
    by (intro recovers_same_log [OF assms(1)]) auto
next
  case True
  let ?s = "fst (agg_snapshot now (log_head (pt_log p)) (pt_agg p))"
  have f: "follows w now hist (agg_evict now (pt_agg p))"
    by (rule follows_evict [OF recovers_follows [OF assms(1)] assms(3)])
  note dur = recovers_durable [OF assms(1)]
  have dir: "l_dir (pt_log p) \<noteq> []" using dur by (simp add: durable_def)
  obtain e l1 d1 where c: "log_compact c io ?s (pt_log p, d) = (e, l1, d1)" by (rule prod_cases3)
  then have st: "p' = p\<lparr>pt_log := l1, pt_agg := agg_evict now (pt_agg p)\<rparr>" "d' = d1"
    using assms(2) True by (simp_all add: case_prod_beta Let_def)
  have base: "s_base ?s = log_head (pt_log p)" by (simp add: agg_snapshot_def Let_def)
  have "s_base ?s - l_base (pt_log p) = of_nat (length (l_entries (pt_log p)))"
    unfolding base by (simp add: log_head_def)
  then have ok: "durable_event c (LCompact io ?s) (pt_log p, d)"
    using assms(4) unfolding durable_event.simps part_event_ok.simps Let_def by simp
  show ?thesis
  proof (cases "io = CompactOk")
    case False
    then have "l1 = pt_log p \<and> wal_file d1 = wal_file d \<and> snap_file d1 = snap_file d"
      using c dir assms(4) by (cases io) (auto simp: log_compact_def)
    then show ?thesis
      using f assms(3) by (intro recovers_same_log [OF assms(1)]) (simp_all add: st)
  next
    case io: True
    have len: "length (l_entries (pt_log p)) < 2 ^ 64" using assms(4) by simp
    have l1: "l_entries l1 = []" and d1: "snap_file d1 = Some (enc_snap c ?s)"
      using c unfolding io compact_at_head [OF dur base len] by auto
    have "durable c (l1, d1)" using durable_compact [OF dur ok] c by simp
    moreover have "load_snapshot c d1 = Some ?s"
      using assms(4) d1 by (simp add: load_snapshot_def Let_def)
    ultimately show ?thesis
      using f follows_loaded_snapshot [OF f, of "log_head (pt_log p)"]
      by (intro recoversI [of c p' d' w now hist hist now]) (simp_all add: st l1)
  qed
qed

lemma recovers_step:
  assumes "recovers c w t hist (p, d)" and "part_step c srt ev (p, d) = (out, p', d')"
    and "1 \<le> pt_batch p" and "0 \<le> w" and "sorted (t # event_clock ev)" and "part_event_ok c ev (p, d)"
    and "length hist + length (acked out) < 2 ^ 64"
  shows "recovers c w (last_clock t (event_clock ev)) (hist @ acked out) (p', d')"
proof -
  have f: "follows w (last_clock t (event_clock ev)) (hist @ acked out) (pt_agg p')"
    using keeps_following_batch [OF assms(4,3), of c srt] recovers_follows [OF assms(1)] assms(2,5,7)
    unfolding keeps_following_def by blast
  have other: "acked out = [] \<and> pt_log p' = pt_log p \<and> d' = d"
    if "\<And>now. ev \<noteq> PApply now" "\<And>now io. ev \<noteq> PCompact now io"
    using assms(2) that by (cases ev) (auto simp: part_enqueue_def case_prod_beta)
  have clk: "t \<le> last_clock t (event_clock ev)"
    using assms(5) by (auto simp: last_clock_def)
  consider (app) now where "ev = PApply now" | (comp) now io where "ev = PCompact now io"
    | (same) "\<And>now. ev \<noteq> PApply now" "\<And>now io. ev \<noteq> PCompact now io"
    by (cases ev) auto
  then show ?thesis
  proof cases
    case app
    have "recovers c w now (hist @ acked out) (p', d')"
      by (rule recovers_apply [OF assms(1) assms(2) [unfolded app] assms(3)])
        (use f assms(5,6) app in \<open>simp_all add: last_clock_def\<close>)
    then show ?thesis by (simp add: app last_clock_def)
  next
    case comp
    moreover from this have "acked out = []"
      using assms(2) by (auto simp: case_prod_beta Let_def split: if_splits)
    ultimately show ?thesis
      using recovers_compact [OF assms(1), of srt now io out p' d'] assms by (simp add: last_clock_def)
  next
    case same
    note o = other [OF same]
    with f have "follows w (last_clock t (event_clock ev)) hist (pt_agg p')" by simp
    with recovers_same_log [OF assms(1) _ clk, of p' d'] o show ?thesis by simp
  qed
qed

lemma recovers_run:
  assumes "recovers c w t hist s" and "part_run c srt evs s = (outs, s')"
    and "1 \<le> pt_batch (fst s)" and "0 \<le> w" and "sorted (t # clock evs)"
    and "run_ok (part_event_ok c) (\<lambda>ev s. snd (part_step c srt ev s)) evs s"
    and "length hist + length (acked outs) < 2 ^ 64"
  shows "recovers c w (last_clock t (clock evs)) (hist @ acked outs) s'"
  using assms
proof (induction evs arbitrary: s t hist outs)
  case Nil
  then show ?case by simp
next
  case (Cons ev evs)
  obtain out s1 outs1 where st: "part_step c srt ev s = (out, s1)" and run: "part_run c srt evs s1 = (outs1, s')"
    and outs: "outs = out @ outs1"
    using part_run_Cons [OF Cons.prems(2)] by blast
  let ?t = "last_clock t (event_clock ev)"
  have clk: "sorted (t # event_clock ev)" "sorted (?t # clock evs)"
    using Cons.prems(5) by (auto simp: last_clock_def sorted_append)
  have s: "s = (fst s, snd s)" "s1 = (fst s1, snd s1)" by simp_all
  have "recovers c w ?t (hist @ acked out) (fst s1, snd s1)"
    by (rule recovers_step [of c w t hist "fst s" "snd s" srt ev out])
      (use Cons.prems st outs clk(1) in \<open>simp_all del: part_step.simps\<close>)
  moreover have "1 \<le> pt_batch (fst s1)" using pt_batch_step [of c srt ev s] st Cons.prems(3) by simp
  moreover have "run_ok (part_event_ok c) (\<lambda>ev s. snd (part_step c srt ev s)) evs s1"
    using Cons.prems(6) st by (simp del: part_step.simps)
  ultimately show ?case
    using Cons.IH [OF _ run _ Cons.prems(4) clk(2), of "hist @ acked out"] Cons.prems(7) outs by simp
qed

section \<open>Opening a partition\<close>

lemma follows_apply_all:
  assumes "follows w t0 old a" and "\<forall>e\<in>set es. t0 \<le> e_time e" and "sorted (List.map e_time es)"
    and "0 \<le> w" and "length old + length es < 2 ^ 64"
  shows "follows w (last_clock t0 (List.map e_time es)) (old @ es) (fold agg_apply es a)"
  using assms
proof (induction es arbitrary: a old t0)
  case Nil
  then show ?case by simp
next
  case (Cons e es)
  have "follows w (e_time e) (old @ [e]) (agg_apply e a)"
    using Cons.prems by (intro follows_apply [of w t0]) simp_all
  with Cons.IH [of "e_time e" "old @ [e]" "agg_apply e a"] Cons.prems show ?case
    by (simp add: last_clock_def)
qed

lemma set_no_idempotent_fields [simp]:
  "l_entries (set_no_idempotent v l) = l_entries l" "l_base (set_no_idempotent v l) = l_base l"
  "l_dir (set_no_idempotent v l) = l_dir l" "l_wal (set_no_idempotent v l) = l_wal l"
  by (simp_all add: set_no_idempotent_def)

lemma part_open_fresh:
  assumes "dir \<noteq> []" and "part_open c OpenOk t0 dir w n cap noidem b empty_disk = Inr s"
  shows "recovers c w t0 [] s \<and> 1 \<le> pt_batch (fst s) \<and> l_dir (pt_log (fst s)) = dir"
proof -
  obtain l d where o: "log_open c OpenOk t0 dir empty_disk = Inr (l, d)"
    using assms(2) by (auto simp: part_open_def Let_def split: if_splits sum.splits)
  have "durable c (set_no_idempotent noidem l, d)"
    using durable_step [of c "(l, d)" "LSetNoIdempotent noidem"] durable_new [OF assms(1) o] by simp
  moreover have "l_entries l = []" and "load_snapshot c d = None" and "l_dir l = dir"
    using o assms(1) by (auto simp: log_open_def Let_def load_snapshot_def empty_disk_def)
  moreover from this have "s = (\<lparr>pt_log = set_no_idempotent noidem l, pt_agg = agg_new w n, pt_apply = [],
      pt_cap = cap, pt_batch = (if b < 1 then 1 else b)\<rparr>, d)"
    using assms(2) o by (simp add: part_open_def Let_def split: if_splits)
  ultimately show ?thesis
    by (auto intro!: recoversI [where old = "[]" and t0 = t0] simp: follows_new)
qed

section \<open>A crash in the middle of a compaction\<close>

text \<open>\<open>Open\<close> numbers the entries of the file from the base of the snapshot.\<close>

lemma replay_renumbered:
  assumes "\<forall>e\<in>set es. storable c e" and "distinct (List.map e_id es)" and "S \<inter> e_id ` set es = {}"
  shows "\<exists>es' S' dd'. replay c base (List.map (enc c) es) (pre, S, dd) = (pre @ es', S', dd') \<and>
    List.map timed es' = List.map timed es"
  using assms
proof (induction es arbitrary: pre S dd)
  case Nil
  then show ?case by simp
next
  case (Cons e es)
  let ?e = "e\<lparr>e_offset := base + of_nat (length pre)\<rparr>"
  obtain es' S' dd' where "replay c base (List.map (enc c) es)
      (pre @ [?e], insert (e_id e) S, dedup_add (e_id e) (e_time e) dd) = ((pre @ [?e]) @ es', S', dd')"
    "List.map timed es' = List.map timed es"
    using Cons.IH [of "insert (e_id e) S" "pre @ [?e]" "dedup_add (e_id e) (e_time e) dd"] Cons.prems by auto
  moreover have "timed ?e = timed e" by (simp add: timed_def)
  ultimately show ?case using Cons.prems
    by (intro exI [of _ "?e # es'"] exI [of _ S'] exI [of _ dd']) (simp add: storableD Let_def)
qed

lemma apply_all_in_window:
  assumes "\<forall>k\<in>set (ag_timeline a) \<union> timed ` set es. c \<le> tk_at k \<and> tk_at k \<le> c + ag_window a"
  shows "ag_timeline (fold agg_apply es a) = ag_timeline a @ List.map timed es"
  using assms
proof (induction es arbitrary: a)
  case Nil
  then show ?case by simp
next
  case (Cons e es)
  have "\<forall>k\<in>set (ag_timeline a). \<not> tk_at k < e_time e - ag_window a"
    using Cons.prems by (force simp: timed_def)
  then have "dropWhile (\<lambda>k. tk_at k < e_time e - ag_window a) (ag_timeline a) = ag_timeline a"
    by (cases "ag_timeline a") auto
  then have "ag_timeline (agg_apply e a) = ag_timeline a @ [timed e]"
    by (simp add: agg_apply_timeline timed_def)
  with Cons.IH [of "agg_apply e a"] Cons.prems show ?case by simp
qed

lemma dropWhile_none: "\<forall>x\<in>set xs. \<not> P x \<Longrightarrow> dropWhile P xs = xs"
  by (cases xs) auto

lemma interrupted_compaction:
  assumes "durable c (l, d)" and "s_base snap = log_head l" and "dec_snap c (enc_snap c snap) = Some snap"
    and "log_compact c ReopenFails snap (l, d) = (err, l1, d1)"
  shows "\<exists>l'. log_open c OpenOk now (l_dir l) d1 = Inr (l', d1) \<and> load_snapshot c d1 = Some snap \<and>
    l_base l' = log_head l \<and> List.map timed (l_entries l') = List.map timed (l_entries l)"
proof -
  note du = durable_fields [OF assms(1)]
  have dir: "l_dir l \<noteq> []" using assms(1) by (simp add: durable_def)
  have d1: "d1 = d\<lparr>snap_file := Some (enc_snap c snap), snap_tmp := None\<rparr>"
    using assms(4) du dir by (auto simp: log_compact_def Let_def)
  have snap: "load_snapshot c d1 = Some snap" using assms(3) by (simp add: d1 load_snapshot_def)
  have "scan (wal_image c (l_entries l)) = List.map (enc c) (l_entries l)"
    using scan_wal_image [of "l_entries l" c "[]"] du by simp
  then obtain es S dd where "replay c (log_head l) (scan (wal_image c (l_entries l))) ([], {}, new_dedup dedup_ttl) = (es, S, dd)"
    "List.map timed es = List.map timed (l_entries l)"
    using replay_renumbered [of "l_entries l" c "{}" "log_head l" "[]" "new_dedup dedup_ttl"] du by auto
  then show ?thesis
    using log_open_eq [OF dir, of c d1 es S dd now] snap assms(2) du
    by (auto simp: snap_base_def) (simp_all add: d1)
qed

text \<open>Entries in the window that the aggregate has counted and that are applied once more.\<close>

lemma window_timeline:
  assumes "follows w now es a" and "\<forall>e\<in>set es. now - w \<le> e_time e"
  shows "ag_timeline a = List.map timed es"
proof -
  obtain c where c: "c \<le> now - w" "ag_timeline a = dropWhile (\<lambda>k. tk_at k < c) (List.map timed es)"
    using assms(1) by (auto simp: follows_def)
  have "\<not> tk_at k < c" if "k \<in> set (List.map timed es)" for k
    using that assms(2) c(1) by force
  then show ?thesis unfolding c(2) by (intro dropWhile_none) blast
qed

lemma applied_twice:
  assumes "follows w now es a" and "\<forall>e\<in>set es. now - w \<le> e_time e \<and> e_time e \<le> now"
    and "List.map timed es' = List.map timed es" and "2 * length es < 2 ^ 64"
  shows "map_of (fst (agg_counts now (fold agg_apply es' a))) k =
    (let m = in_window w now k es in if m = 0 then None else Some (of_nat (2 * m)))"
proof -
  let ?b = "fold agg_apply es' a"
  have w: "ag_window a = w" and ok: "agg_ok a" using assms(1) by (simp_all add: follows_def)
  have t: "ag_timeline a = List.map timed es" using window_timeline [OF assms(1)] assms(2) by blast
  have len: "length es' = length es" using assms(3) by (metis length_map)
  have set: "timed ` set es' = timed ` set es" using assms(3) by (metis set_map)
  have in_win: "\<forall>k\<in>set (List.map timed es). now - w \<le> tk_at k \<and> tk_at k \<le> now" using assms(2) by auto
  then have tb: "ag_timeline ?b = List.map timed es @ List.map timed es"
    using apply_all_in_window [of a es' "now - w"] by (simp add: t w set assms(3))
  have wb: "ag_window ?b = w" using w by (induction es' arbitrary: a) simp_all
  have "agg_ok (agg_evict now ?b)"
    using ok assms(4) by (intro agg_evict_ok agg_apply_all_ok) (simp_all add: t len)
  moreover have "ag_timeline (agg_evict now ?b) = List.map timed es @ List.map timed es"
    unfolding agg_evict_timeline wb tb using in_win by (intro dropWhile_none) force
  moreover have "occurrences (List.map timed es) k = in_window w now k es"
  proof -
    have "filter (\<lambda>t. now - w \<le> tk_at t) (List.map timed es) = List.map timed es"
      using in_win by (intro filter_True) auto
    then show ?thesis using occurrences_in_window [of now w es k] by simp
  qed
  ultimately show ?thesis
    by (simp add: agg_ok_def counts_of_def agg_counts_def Let_def)
qed

lemma part_step_dir: "l_dir (pt_log (fst (snd (part_step c srt ev s)))) = l_dir (pt_log (fst s))"
proof -
  obtain p d where s: "s = (p, d)" by fastforce
  have append: "l_dir (fst (snd (log_append c now i k v (l, d)))) = l_dir l" for now i k v l d
    using log_step_dir [of c "LAppend now i k v" "(l, d)"] by simp
  have batch: "l_dir (fst (snd (log_append_batch c now reqs (l, d)))) = l_dir l" for now reqs l d
    using log_step_dir [of c "LBatch now reqs" "(l, d)"] by simp
  have compact: "l_dir (fst (snd (log_compact c io x (l, d)))) = l_dir l" for io x l d
    using log_step_dir [of c "LCompact io x" "(l, d)"] by simp
  show ?thesis
    unfolding s by (cases ev) (simp_all add: case_prod_beta Let_def part_enqueue_def apply_one_def
        apply_batch_def append batch compact split: list.split)
qed

lemma part_run_dir: "l_dir (pt_log (fst (snd (part_run c srt evs s)))) = l_dir (pt_log (fst s))"
  by (induction evs arbitrary: s) (simp_all add: case_prod_beta part_step_dir del: part_step.simps)

section \<open>Properties\<close>

text \<open>
  C10: A restart changes no answer: after any run of commands and compactions on a fresh data
  directory, \<open>Open\<close> finds the same entries at the same offsets, and the counters it rebuilds
  from the snapshot and the file are those the running partition would report. As for the
  log (\<open>part_event_ok\<close>), no identifier is accepted while an entry of the log has it, the lines
  are read back by the codec and shorter than 64 KiB, no compaction loses its file or is
  interrupted; and the clock readings are in order.
\<close>

theorem restart_preserves_counts:
  assumes "dir \<noteq> []" and "part_open c OpenOk t0 dir w n cap noidem b empty_disk = Inr s0"
    and "part_run c srt evs s0 = (outs, p, d)" and "sorted (t0 # clock evs @ [now])" and "0 \<le> w"
    and "run_ok (part_event_ok c) (\<lambda>ev s. snd (part_step c srt ev s)) evs s0"
    and "length (acked outs) < 2 ^ 64" and "0 \<le> cap"
  shows "\<exists>p'. part_open c OpenOk now dir w n cap noidem b d = Inr (p', d) \<and>
    l_entries (pt_log p') = l_entries (pt_log p) \<and> log_head (pt_log p') = log_head (pt_log p) \<and>
    (\<forall>k. map_of (fst (agg_counts now (pt_agg p'))) k = map_of (fst (agg_counts now (pt_agg p))) k)"
proof -
  let ?t = "last_clock t0 (clock evs)" and ?es = "l_entries (pt_log p)"
  have clk: "sorted (t0 # clock evs)" "?t \<le> now"
    using assms(4) by (auto simp: last_clock_def sorted_append)
  note fresh = part_open_fresh [OF assms(1,2)]
  have rec: "recovers c w ?t (acked outs) (p, d)"
    using recovers_run [of c w t0 "[]" s0 srt evs outs "(p, d)"] fresh assms(3,5,6,7) clk(1) by simp
  note f = recovers_follows [OF rec]
  obtain dd where open_eq: "log_open c OpenOk now dir d = Inr ((pt_log p)\<lparr>l_dedup := dd, l_noidem := False\<rparr>, d)"
    using durable_open [OF recovers_durable [OF rec], of now] part_run_dir [of c srt evs s0] fresh assms(3)
    by auto
  define agg1 where "agg1 = (case load_snapshot c d of None \<Rightarrow> agg_new w n | Some s \<Rightarrow> agg_load_snapshot s (agg_new w n))"
  obtain old s1 where old: "acked outs = old @ ?es" "s1 \<le> ?t" "\<forall>e\<in>set ?es. s1 \<le> e_time e" "follows w s1 old agg1"
  proof (rule recoversE [OF rec])
    fix old s1
    assume "acked outs = old @ ?es" "s1 \<le> ?t" "\<And>e. e \<in> set ?es \<Longrightarrow> s1 \<le> e_time e"
      "case load_snapshot c d of None \<Rightarrow> old = []
       | Some s \<Rightarrow> \<forall>n. follows w s1 old (agg_load_snapshot s (agg_new w n))"
    with that [of old s1] show thesis by (auto simp: agg1_def follows_new split: option.splits)
  qed
  have srt: "sorted (List.map e_time ?es)" "\<forall>e\<in>set ?es. e_time e \<le> ?t"
    using f old(1) by (auto simp: follows_def sorted_append)
  have f': "follows w (last_clock s1 (List.map e_time ?es)) (acked outs) (fold agg_apply ?es agg1)"
    using follows_apply_all [OF old(4,3) srt(1) assms(5)] old(1) assms(7) by simp
  have "last_clock s1 (List.map e_time ?es) \<le> now"
    using srt(2) old(2) clk(2) by (cases ?es rule: rev_cases) (auto simp: last_clock_def)
  from follows_counts [OF f' this] follows_counts [OF f clk(2)] open_eq assms(8) show ?thesis
    by (auto simp: part_open_def Let_def agg1_def log_head_def split: option.split)
qed

text \<open>
  C35: a process that stops between renaming the snapshot and rewriting the file counts
  everything twice when it comes back: the snapshot already covers the entries of the file,
  and \<open>Open\<close> applies them again and numbers them anew from the head of the log.
\<close>

theorem interrupted_compaction_counts_twice:
  assumes "durable c (l, d)" and "a = fold agg_apply (l_entries l) (agg_new w n)"
    and "snap = fst (agg_snapshot now (log_head l) a)" and "dec_snap c (enc_snap c snap) = Some snap"
    and "log_compact c ReopenFails snap (l, d) = (err, l1, d1)"
    and "sorted (List.map e_time (l_entries l))"
    and "\<forall>e\<in>set (l_entries l). now - w \<le> e_time e \<and> e_time e \<le> now" and "0 \<le> w" and "0 \<le> cap"
    and "2 * length (l_entries l) < 2 ^ 64"
  shows "\<exists>p. part_open c OpenOk now (l_dir l) w n cap noidem b d1 = Inr (p, d1) \<and>
    log_head (pt_log p) = log_head l + of_nat (length (l_entries l)) \<and>
    (\<forall>k. map_of (fst (agg_counts now a)) k =
        (let m = in_window w now k (l_entries l) in if m = 0 then None else Some (of_nat m)) \<and>
      map_of (fst (agg_counts now (pt_agg p))) k =
        (let m = in_window w now k (l_entries l) in if m = 0 then None else Some (of_nat (2 * m))))"
proof -
  let ?es = "l_entries l"
  have base: "s_base snap = log_head l" by (simp add: assms(3) agg_snapshot_def Let_def)
  obtain l' where l': "log_open c OpenOk now (l_dir l) d1 = Inr (l', d1)" "load_snapshot c d1 = Some snap"
    "l_base l' = log_head l" "List.map timed (l_entries l') = List.map timed ?es"
    using interrupted_compaction [OF assms(1) base assms(4,5)] by blast
  have len: "length (l_entries l') = length ?es" using l'(4) by (metis length_map)
  have f: "follows w now ?es a"
  proof -
    have "follows w (last_clock (now - w) (List.map e_time ?es)) ([] @ ?es) a"
      unfolding assms(2) using assms(6-8,10) by (intro follows_apply_all follows_new) simp_all
    moreover have "last_clock (now - w) (List.map e_time ?es) \<le> now"
      using assms(7,8) by (cases ?es rule: rev_cases) (auto simp: last_clock_def)
    ultimately show ?thesis using follows_later by simp
  qed
  have "follows w now ?es (agg_load_snapshot snap (agg_new w n))"
    unfolding assms(3) by (rule follows_loaded_snapshot [OF follows_evict [OF f order_refl]])
  note twice = applied_twice [OF this assms(7) l'(4) assms(10)]
  show ?thesis
    using l' len assms(9) twice follows_counts [OF f order_refl]
    by (auto simp: part_open_def Let_def log_head_def)
qed

section \<open>Witnesses\<close>

lemma part_open_d: "part_open c OpenOk 0 ''d'' 5 3 8 False 1 empty_disk =
   Inr (\<lparr>pt_log = fresh_log, pt_agg = agg_new 5 3, pt_apply = [], pt_cap = 8, pt_batch = 1\<rparr>, fresh_disk)"
  by (simp add: part_open_def Let_def open_fresh set_no_idempotent_def)
    (simp add: fresh_log_def log_new_def load_snapshot_def fresh_disk_def empty_disk_def)

abbreviation opened_d :: "partition \<times> disk" where
  "opened_d \<equiv> (\<lparr>pt_log = fresh_log, pt_agg = agg_new 5 3, pt_apply = [], pt_cap = 8, pt_batch = 1\<rparr>, fresh_disk)"

lemma restart_preserves_counts_witness:
  "\<exists>outs p d p'. part_run codec_a (\<lambda>xs. xs) [PEnqueue cmd_a, PApply 0] opened_d = (outs, p, d) \<and>
     part_open codec_a OpenOk 0 ''d'' 5 3 8 False 1 d = Inr (p', d) \<and>
     map_of (fst (agg_counts 0 (pt_agg p'))) ''k'' = map_of (fst (agg_counts 0 (pt_agg p))) ''k''"
proof -
  obtain outs p d where run: "part_run codec_a (\<lambda>xs. xs) [PEnqueue cmd_a, PApply 0] opened_d = (outs, p, d)"
    by (rule prod_cases3)
  have "acked outs = [new_entry fresh_log 0 ''a'' ''k'' ''v'']"
    using run by (auto simp: part_enqueue_def apply_one_def fresh_append)
  then have len: "length (acked outs) < 2 ^ 64" by simp
  have ok: "run_ok (part_event_ok codec_a) (\<lambda>ev s. snd (part_step codec_a (\<lambda>xs. xs) ev s)) [PEnqueue cmd_a, PApply 0] opened_d"
    using one_entry_storable by (simp add: part_enqueue_def)
  have "sorted (0 # clock [PEnqueue cmd_a, PApply 0] @ [0])" by simp
  from restart_preserves_counts [OF _ part_open_d run this _ ok len] run show ?thesis by fastforce
qed

abbreviation agg_a :: aggregate where
  "agg_a \<equiv> agg_apply entry_a (agg_new 5 3)"

abbreviation snapshot_a :: snapshot where
  "snapshot_a \<equiv> fst (agg_snapshot 0 1 agg_a)"

lemma interrupted_compaction_counts_twice_witness:
  "\<exists>p d1. part_open (one_codec entry_a snapshot_a) OpenOk 0 ''d'' 5 3 8 False 1 d1 = Inr (p, d1) \<and>
     map_of (fst (agg_counts 0 agg_a)) ''k'' = Some (of_nat 1) \<and>
     map_of (fst (agg_counts 0 (pt_agg p))) ''k'' = Some (of_nat 2)"
proof -
  define c where "c = one_codec entry_a snapshot_a"
  obtain r l d where app: "log_append c 0 ''a'' ''k'' ''v'' (fresh_log, fresh_disk) = (r, l, d)" by (rule prod_cases3)
  have new: "new_entry fresh_log 0 ''a'' ''k'' ''v'' = entry_a" and es0: "l_entries fresh_log = []"
    and base0: "l_base fresh_log = 0" and dir0: "l_dir fresh_log = ''d''"
    by (simp_all add: fresh_log_def log_new_def)
  then have l: "l_entries l = [entry_a]" "l_base l = 0" "l_dir l = ''d''" and r: "r = (entry_a, True)"
    using app by (auto simp: fresh_append)
  have "storable c entry_a" by (simp add: c_def storable_def codec_ok_def one_codec_def max_scan_token_def)
  then have "append_storable c 0 ''a'' ''k'' ''v'' (fresh_log, fresh_disk)"
    by (simp add: append_storable_def app r es0)
  then have dur: "durable c (l, d)"
    using durable_append [OF fresh_durable, of c 0 "''a''" "''k''" "''v''"] app by simp
  have head: "log_head l = 1" by (simp add: log_head_def l)
  obtain err l1 d1 where comp: "log_compact c ReopenFails snapshot_a (l, d) = (err, l1, d1)" by (rule prod_cases3)
  have "dec_snap c (enc_snap c snapshot_a) = Some snapshot_a" by (simp add: c_def one_codec_def)
  moreover have "sorted (List.map e_time (l_entries l))" "\<forall>e\<in>set (l_entries l). 0 - 5 \<le> e_time e \<and> e_time e \<le> 0"
    "2 * length (l_entries l) < 2 ^ 64" "agg_a = fold agg_apply (l_entries l) (agg_new 5 3)"
    by (simp_all add: l)
  ultimately obtain p where "part_open c OpenOk 0 ''d'' 5 3 8 False 1 d1 = Inr (p, d1)"
    "\<forall>k. map_of (fst (agg_counts 0 agg_a)) k =
        (let m = in_window 5 0 k (l_entries l) in if m = 0 then None else Some (of_nat m)) \<and>
      map_of (fst (agg_counts 0 (pt_agg p))) k =
        (let m = in_window 5 0 k (l_entries l) in if m = 0 then None else Some (of_nat (2 * m)))"
    using interrupted_compaction_counts_twice [OF dur, of agg_a 5 3 snapshot_a 0 err l1 d1 8 False 1] comp
    unfolding head l(3) by auto
  moreover have "in_window 5 0 ''k'' (l_entries l) = 1" by (simp add: l in_window_def)
  ultimately show ?thesis unfolding c_def by (auto simp: Let_def)
qed

end
