(* ===== verification/Membership.thy ===== *)
theory Membership
  imports Prelude "HOL-Library.Product_Lexorder" "HOL-Library.Option_ord"
begin

text \<open>
  \<open>internal/membership/membership.go\<close>: SWIM-style failure detection. A \<open>swim\<close> is the state
  of one \<open>Member\<close>; its goroutines are the operations below. Each runs under the lock, except
  \<open>handle_msg\<close>, which merges the events of a message under the lock and takes it again for
  what the type of the message asks for; it is one step here. Name resolution (\<open>net.ResolveUDPAddr\<close>) is the argument \<open>resolve\<close>, random choices
  and the iteration order of maps are arguments, and datagrams are the list of sends an
  operation returns, with their destination resolved. JSON only carries them.
\<close>

section \<open>Data\<close>

datatype mstate = Alive | Suspect | Dead

text \<open>The states in the order of the \<open>iota\<close> constants.\<close>

fun state_rank :: "mstate \<Rightarrow> nat" where
  "state_rank Alive = 0"
| "state_rank Suspect = 1"
| "state_rank Dead = 2"

lemma state_rank_inj: "state_rank s = state_rank t \<longleftrightarrow> s = t"
  by (cases s; cases t) simp_all

instantiation mstate :: linorder
begin

definition less_eq_mstate :: "mstate \<Rightarrow> mstate \<Rightarrow> bool" where
  "less_eq_mstate s t \<longleftrightarrow> state_rank s \<le> state_rank t"

definition less_mstate :: "mstate \<Rightarrow> mstate \<Rightarrow> bool" where
  "less_mstate s t \<longleftrightarrow> state_rank s < state_rank t"

instance
  by standard (auto simp: less_eq_mstate_def less_mstate_def state_rank_inj)

end

datatype event_type = EventJoin | EventDead

record event =
  ev_type :: event_type
  ev_addr :: string
  ev_http :: string

record member =
  mb_addr :: string
  mb_http :: string
  mb_state :: mstate
  mb_suspect_at :: gotime
  mb_inc :: u64

record gossip_event =
  g_type :: string
  g_addr :: string
  g_http :: string
  g_ttl :: int
  g_inc :: u64

record message =
  ms_type :: string
  ms_from :: string
  ms_target :: string
  ms_events :: "gossip_event list"

definition event_ttl :: int where
  "event_ttl = 10"

text \<open>The zero \<open>time.Time\<close>.\<close>

definition zero_time :: gotime where
  "zero_time = - 62135596800 * second"

text \<open>
  The field \<open>events\<close> is a channel of capacity 64 that is only sent to when it has room.
  A channel that waits for an ack has a number; \<open>ackWait\<close> maps a resolved address to the
  channel registered for it, and \<open>signalled\<close> holds the channels that have their token.
\<close>

record swim =
  sw_addr :: string
  sw_http :: string
  sw_members :: "(string, member) gomap"
  sw_pending :: "gossip_event list"
  sw_events :: "event list"
  sw_ack_wait :: "(string, nat) gomap"
  sw_signalled :: "nat list"
  sw_next_chan :: nat
  sw_suspect_timeout :: duration

section \<open>Configuration\<close>

text \<open>\<open>env\<close> is the environment variable, \<open>parse\<close> is \<open>time.ParseDuration\<close>.\<close>

definition duration_env :: "(string \<Rightarrow> duration option) \<Rightarrow> string \<Rightarrow> duration \<Rightarrow> duration" where
  "duration_env parse env def =
     (if env \<noteq> [] then (case parse env of Some d \<Rightarrow> d | None \<Rightarrow> def) else def)"

definition resolve_addr :: "(string \<Rightarrow> string option) \<Rightarrow> string \<Rightarrow> string" where
  "resolve_addr resolve addr = (case resolve addr of None \<Rightarrow> addr | Some u \<Rightarrow> u)"

definition send_msg :: "(string \<Rightarrow> string option) \<Rightarrow> string \<Rightarrow> message \<Rightarrow> (string \<times> message) list" where
  "send_msg resolve addr msg = (case resolve addr of None \<Rightarrow> [] | Some u \<Rightarrow> [(u, msg)])"

section \<open>Merging gossip\<close>

definition emit :: "event \<Rightarrow> swim \<Rightarrow> swim" where
  "emit ev m = (if length (sw_events m) < 64 then m\<lparr>sw_events := sw_events m @ [ev]\<rparr> else m)"

definition set_member :: "string \<Rightarrow> member \<Rightarrow> swim \<Rightarrow> swim" where
  "set_member a mem m = m\<lparr>sw_members := AList.update a mem (sw_members m)\<rparr>"

definition queue_event :: "gossip_event \<Rightarrow> swim \<Rightarrow> swim" where
  "queue_event g m = m\<lparr>sw_pending := sw_pending m @ [g]\<rparr>"

definition join_of :: "gossip_event \<Rightarrow> event" where
  "join_of e = \<lparr>ev_type = EventJoin, ev_addr = g_addr e, ev_http = g_http e\<rparr>"

definition merge_join :: "gossip_event \<Rightarrow> swim \<Rightarrow> swim" where
  "merge_join e m =
     (let fwd = queue_event \<lparr>g_type = ''join'', g_addr = g_addr e, g_http = g_http e,
                             g_ttl = g_ttl e - 1, g_inc = g_inc e\<rparr>
      in case map_of (sw_members m) (g_addr e) of
        None \<Rightarrow>
          fwd (emit (join_of e) (set_member (g_addr e)
            \<lparr>mb_addr = g_addr e, mb_http = g_http e, mb_state = Alive, mb_suspect_at = zero_time,
             mb_inc = g_inc e\<rparr> m))
      | Some mem \<Rightarrow>
          if mb_http mem = [] \<and> g_http e \<noteq> []
          then fwd (emit (join_of e) (set_member (g_addr e) (mem\<lparr>mb_http := g_http e, mb_inc := g_inc e\<rparr>) m))
          else if mb_state mem \<noteq> Alive
          then (if g_inc e \<le> mb_inc mem then m
                else fwd (emit (join_of e) (set_member (g_addr e)
                  (mem\<lparr>mb_state := Alive, mb_http := g_http e, mb_inc := g_inc e\<rparr>) m)))
          else if g_inc e > mb_inc mem
          then fwd (set_member (g_addr e) (mem\<lparr>mb_inc := g_inc e\<rparr>) m)
          else fwd m)"

definition merge_dead :: "gossip_event \<Rightarrow> swim \<Rightarrow> swim" where
  "merge_dead e m =
     (case map_of (sw_members m) (g_addr e) of
        None \<Rightarrow> m
      | Some mem \<Rightarrow>
          if mb_state mem = Dead then m
          else if g_inc e < mb_inc mem then m
          else queue_event \<lparr>g_type = ''dead'', g_addr = g_addr e, g_http = mb_http mem,
                            g_ttl = g_ttl e - 1, g_inc = mb_inc mem\<rparr>
             (emit \<lparr>ev_type = EventDead, ev_addr = g_addr e, ev_http = mb_http mem\<rparr>
               (set_member (g_addr e) (mem\<lparr>mb_state := Dead\<rparr>) m)))"

definition merge_event :: "gossip_event \<Rightarrow> swim \<Rightarrow> swim" where
  "merge_event e m =
     (if g_addr e = [] \<or> g_ttl e \<le> 0 then m
      else if g_type e = ''join'' then merge_join e m
      else if g_type e = ''dead'' then merge_dead e m
      else m)"

definition merge_events :: "gossip_event list \<Rightarrow> swim \<Rightarrow> swim" where
  "merge_events = fold merge_event"

definition drain_events :: "swim \<Rightarrow> gossip_event list \<times> swim" where
  "drain_events m =
     (if sw_pending m = [] then ([], m)
      else (let n = (if length (sw_pending m) < 4 then length (sw_pending m) else 4)
            in (take n (sw_pending m), m\<lparr>sw_pending := drop n (sw_pending m)\<rparr>)))"

section \<open>Messages\<close>

text \<open>Besides the sends, a \<open>ping-req\<close> starts a goroutine that pings the target.\<close>

datatype task = PingFor string string

definition signal_ack :: "string \<Rightarrow> swim \<Rightarrow> swim" where
  "signal_ack key m =
     (case map_of (sw_ack_wait m) key of
        None \<Rightarrow> m
      | Some ch \<Rightarrow> m\<lparr>sw_signalled := List.insert ch (sw_signalled m)\<rparr>)"

definition refute :: "string \<Rightarrow> swim \<Rightarrow> swim" where
  "refute from m =
     (case map_of (sw_members m) from of
        None \<Rightarrow> m
      | Some mem \<Rightarrow>
          if mb_state mem = Suspect
          then set_member from (mem\<lparr>mb_state := Alive, mb_inc := mb_inc mem + 1\<rparr>) m else m)"

definition handle_msg :: "(string \<Rightarrow> string option) \<Rightarrow> message \<Rightarrow> swim \<Rightarrow>
    panic + ((string \<times> message) list \<times> task list \<times> swim)" where
  "handle_msg resolve msg m =
     (let m1 = merge_events (ms_events msg) m
      in if ms_type msg = ''ping''
         then (case map_of (sw_members m1) (sw_addr m1) of
             None \<Rightarrow> Inl NilDereference
           | Some self \<Rightarrow>
               (let (drained, m2) = drain_events m1;
                    join = \<lparr>g_type = ''join'', g_addr = sw_addr m1, g_http = sw_http m1, g_ttl = event_ttl,
                            g_inc = mb_inc self\<rparr>
                in Inr (send_msg resolve (ms_from msg)
                     \<lparr>ms_type = ''ack'', ms_from = sw_addr m1, ms_target = [], ms_events = join # drained\<rparr>, [], m2)))
         else if ms_type msg = ''ack''
         then Inr ([], [], signal_ack (resolve_addr resolve (ms_from msg)) (refute (ms_from msg) m1))
         else if ms_type msg = ''ping-req''
         then Inr ([], [PingFor (ms_target msg) (ms_from msg)], m1)
         else Inr ([], [], m1))"

text \<open>One datagram received from the socket address \<open>src\<close>.\<close>

definition recv :: "(string \<Rightarrow> string option) \<Rightarrow> string \<Rightarrow> message \<Rightarrow> swim \<Rightarrow>
    panic + ((string \<times> message) list \<times> task list \<times> swim)" where
  "recv resolve src msg m =
     handle_msg resolve (if ms_type msg = ''ack'' then msg\<lparr>ms_from := src\<rparr> else msg) m"

section \<open>Starting\<close>

datatype start_error = BadAddress | CannotListen

definition new_member :: "string \<Rightarrow> string \<Rightarrow> member" where
  "new_member addr http =
     \<lparr>mb_addr = addr, mb_http = http, mb_state = Alive, mb_suspect_at = zero_time, mb_inc = 0\<rparr>"

text \<open>\<open>listen\<close> tells whether \<open>net.ListenUDP\<close> succeeds.\<close>

definition swim_new :: "(string \<Rightarrow> string option) \<Rightarrow> bool \<Rightarrow> duration \<Rightarrow> string \<Rightarrow> string \<Rightarrow> string list \<Rightarrow>
    start_error + ((string \<times> message) list \<times> swim)" where
  "swim_new resolve listen timeout addr http seeds =
     (if resolve addr = None then Inl BadAddress
      else if \<not> listen then Inl CannotListen
      else (let others = filter (\<lambda>seed. seed \<noteq> addr) seeds;
                members = fold (\<lambda>seed. AList.update seed (new_member seed [])) others
                            (AList.update addr (new_member addr http) []);
                join = \<lparr>g_type = ''join'', g_addr = addr, g_http = http, g_ttl = event_ttl, g_inc = 0\<rparr>
            in Inr (concat (List.map (\<lambda>seed. send_msg resolve seed
                      \<lparr>ms_type = ''ping'', ms_from = addr, ms_target = [], ms_events = [join]\<rparr>) others),
                    \<lparr>sw_addr = addr, sw_http = http, sw_members = members, sw_pending = [], sw_events = [],
                     sw_ack_wait = [], sw_signalled = [], sw_next_chan = 0, sw_suspect_timeout = timeout\<rparr>)))"

section \<open>Views\<close>

text \<open>\<open>ord\<close> is the order in which the map is iterated over.\<close>

definition swim_members :: "swim \<Rightarrow> string list" where
  "swim_members m = List.map fst (filter (\<lambda>(a, mem). mb_state mem \<noteq> Dead) (sw_members m))"

definition live_http_addrs :: "swim \<Rightarrow> string set" where
  "live_http_addrs m =
     set (List.map (\<lambda>(a, mem). mb_http mem)
       (filter (\<lambda>(a, mem). mb_state mem \<noteq> Dead \<and> mb_http mem \<noteq> []) (sw_members m)))"

definition http_state :: "((string \<times> member) list \<Rightarrow> (string \<times> member) list) \<Rightarrow> string \<Rightarrow> swim \<Rightarrow> mstate option" where
  "http_state ord http m =
     map_option (\<lambda>(a, mem). mb_state mem) (find (\<lambda>(a, mem). mb_http mem = http) (ord (sw_members m)))"

definition is_suspect :: "((string \<times> member) list \<Rightarrow> (string \<times> member) list) \<Rightarrow> string \<Rightarrow> swim \<Rightarrow> bool" where
  "is_suspect ord http m = (http_state ord http m = Some Suspect)"

definition is_dead :: "((string \<times> member) list \<Rightarrow> (string \<times> member) list) \<Rightarrow> string \<Rightarrow> swim \<Rightarrow> bool" where
  "is_dead ord http m = (http_state ord http m = Some Dead)"

section \<open>Probing\<close>

definition candidates :: "string list \<Rightarrow> swim \<Rightarrow> string list" where
  "candidates exclude m =
     List.map fst (filter (\<lambda>(a, mem). a \<notin> set exclude \<and> mb_state mem \<noteq> Dead) (sw_members m))"

text \<open>\<open>r\<close> is the result of \<open>rand.Intn\<close>, \<open>shuffle\<close> the permutation of \<open>rand.Shuffle\<close>.\<close>

definition pick_random :: "nat \<Rightarrow> string list \<Rightarrow> swim \<Rightarrow> string" where
  "pick_random r exclude m =
     (let cs = candidates exclude m in if cs = [] then [] else cs ! (r mod length cs))"

definition pick_n :: "(string list \<Rightarrow> string list) \<Rightarrow> int \<Rightarrow> string list \<Rightarrow> swim \<Rightarrow> string list" where
  "pick_n shuffle n exclude m =
     (let cs = shuffle (candidates exclude m);
          n' = (if n > int (length cs) then int (length cs) else n)
      in take (nat n') cs)"

definition probe_fanout_max :: nat where
  "probe_fanout_max = 8"

definition probe_targets :: "nat \<Rightarrow> swim \<Rightarrow> string list" where
  "probe_targets r m =
     (let targets = filter (\<lambda>a. a \<noteq> sw_addr m) (swim_members m)
      in if targets = [] then []
         else if length targets > probe_fanout_max
         then (let t = pick_random r [sw_addr m] m in if t \<noteq> [] then [t] else [])
         else targets)"

text \<open>
  Registering a channel and waiting for it: \<open>wait_end\<close> is the end of the \<open>select\<close>, which
  finds the token or the timeout, and removes whatever is registered under the key.
\<close>

definition wait_begin :: "string \<Rightarrow> swim \<Rightarrow> nat \<times> swim" where
  "wait_begin key m =
     (sw_next_chan m, m\<lparr>sw_ack_wait := AList.update key (sw_next_chan m) (sw_ack_wait m),
                        sw_next_chan := sw_next_chan m + 1\<rparr>)"

definition wait_end :: "string \<Rightarrow> nat \<Rightarrow> swim \<Rightarrow> bool \<times> swim" where
  "wait_end key ch m =
     (ch \<in> set (sw_signalled m), m\<lparr>sw_ack_wait := AList.delete key (sw_ack_wait m)\<rparr>)"

definition direct_ping_begin :: "(string \<Rightarrow> string option) \<Rightarrow> string \<Rightarrow> swim \<Rightarrow>
    (string \<times> message) list \<times> nat \<times> swim" where
  "direct_ping_begin resolve target m =
     (let (ch, m1) = wait_begin (resolve_addr resolve target) m;
          (events, m2) = drain_events m1
      in (send_msg resolve target \<lparr>ms_type = ''ping'', ms_from = sw_addr m, ms_target = [], ms_events = events\<rparr>, ch, m2))"

definition direct_ping_end :: "(string \<Rightarrow> string option) \<Rightarrow> string \<Rightarrow> nat \<Rightarrow> swim \<Rightarrow> bool \<times> swim" where
  "direct_ping_end resolve target ch m = wait_end (resolve_addr resolve target) ch m"

text \<open>The end of the goroutine that a \<open>ping-req\<close> starts.\<close>

definition ping_for_end :: "(string \<Rightarrow> string option) \<Rightarrow> string \<Rightarrow> string \<Rightarrow> nat \<Rightarrow> swim \<Rightarrow>
    (string \<times> message) list \<times> swim" where
  "ping_for_end resolve target from ch m =
     (let (acked, m1) = direct_ping_end resolve target ch m
      in (if acked then send_msg resolve from
            \<lparr>ms_type = ''ack'', ms_from = target, ms_target = [], ms_events = []\<rparr> else [], m1))"

definition probe_indirect_begin :: "(string \<Rightarrow> string option) \<Rightarrow> (string list \<Rightarrow> string list) \<Rightarrow> string \<Rightarrow> swim \<Rightarrow>
    (string \<times> message) list \<times> nat \<times> swim" where
  "probe_indirect_begin resolve shuffle target m =
     (let helpers = pick_n shuffle 2 [sw_addr m, target] m;
          (ch, m1) = wait_begin (resolve_addr resolve target) m
      in (concat (List.map (\<lambda>h. send_msg resolve h
            \<lparr>ms_type = ''ping-req'', ms_from = sw_addr m, ms_target = target, ms_events = []\<rparr>) helpers), ch, m1))"

definition probe_end :: "(string \<Rightarrow> string option) \<Rightarrow> gotime \<Rightarrow> string \<Rightarrow> nat \<Rightarrow> swim \<Rightarrow> swim" where
  "probe_end resolve now target ch m =
     (let (confirmed, m1) = wait_end (resolve_addr resolve target) ch m
      in if confirmed then m1
         else (case map_of (sw_members m1) target of
             None \<Rightarrow> m1
           | Some mem \<Rightarrow>
               if mb_state mem = Alive
               then set_member target (mem\<lparr>mb_state := Suspect, mb_suspect_at := now\<rparr>) m1 else m1))"

text \<open>One sweep of \<open>checkSuspects\<close> over the members in iteration order.\<close>

fun suspects_loop :: "(string \<Rightarrow> gotime) \<Rightarrow> string list \<Rightarrow> swim \<Rightarrow> swim" where
  "suspects_loop now [] m = m"
| "suspects_loop now (a # as) m =
     suspects_loop now as
       (case map_of (sw_members m) a of
          None \<Rightarrow> m
        | Some mem \<Rightarrow>
            if mb_state mem = Suspect \<and> time_sub (now a) (mb_suspect_at mem) > sw_suspect_timeout m
            then emit \<lparr>ev_type = EventDead, ev_addr = mb_addr mem, ev_http = mb_http mem\<rparr>
                   (queue_event \<lparr>g_type = ''dead'', g_addr = mb_addr mem, g_http = mb_http mem,
                                 g_ttl = event_ttl, g_inc = mb_inc mem\<rparr>
                     (set_member a (mem\<lparr>mb_state := Dead\<rparr>) m))
            else m)"

definition check_suspects :: "(string list \<Rightarrow> string list) \<Rightarrow> (string \<Rightarrow> gotime) \<Rightarrow> swim \<Rightarrow> swim" where
  "check_suspects ord now m = suspects_loop now (ord (keys (sw_members m))) m"

definition suspects_interval :: "duration \<Rightarrow> duration" where
  "suspects_interval timeout =
     (let interval = timeout div 4 in if interval < 50000000 then 50000000 else interval)"

section \<open>What an operation does to a member\<close>

abbreviation member_of :: "swim \<Rightarrow> string \<Rightarrow> member option" where
  "member_of m a \<equiv> map_of (sw_members m) a"

lemma set_member_simps [simp]:
  "member_of (set_member a mem m) b = (if b = a then Some mem else member_of m b)"
  "sw_addr (set_member a mem m) = sw_addr m" "sw_pending (set_member a mem m) = sw_pending m"
  "sw_ack_wait (set_member a mem m) = sw_ack_wait m" "sw_signalled (set_member a mem m) = sw_signalled m"
  "sw_next_chan (set_member a mem m) = sw_next_chan m"
  "sw_suspect_timeout (set_member a mem m) = sw_suspect_timeout m"
  by (simp_all add: set_member_def map_simps)

lemma emit_simps [simp]:
  "sw_members (emit ev m) = sw_members m" "sw_addr (emit ev m) = sw_addr m"
  "sw_pending (emit ev m) = sw_pending m" "sw_ack_wait (emit ev m) = sw_ack_wait m"
  "sw_signalled (emit ev m) = sw_signalled m" "sw_next_chan (emit ev m) = sw_next_chan m"
  "sw_suspect_timeout (emit ev m) = sw_suspect_timeout m"
  by (simp_all add: emit_def)

lemma queue_event_simps [simp]:
  "sw_members (queue_event g m) = sw_members m" "sw_addr (queue_event g m) = sw_addr m"
  "sw_pending (queue_event g m) = sw_pending m @ [g]" "sw_ack_wait (queue_event g m) = sw_ack_wait m"
  "sw_signalled (queue_event g m) = sw_signalled m" "sw_next_chan (queue_event g m) = sw_next_chan m"
  "sw_suspect_timeout (queue_event g m) = sw_suspect_timeout m"
  by (simp_all add: queue_event_def)

lemma merge_join_other: "b \<noteq> g_addr e \<Longrightarrow> member_of (merge_join e m) b = member_of m b"
  by (simp add: merge_join_def Let_def split: option.split)

lemma merge_dead_other: "b \<noteq> g_addr e \<Longrightarrow> member_of (merge_dead e m) b = member_of m b"
  by (simp add: merge_dead_def split: option.split)

lemma merge_join_self:
  "member_of (merge_join e m) (g_addr e) =
    (case member_of m (g_addr e) of
       None \<Rightarrow> Some \<lparr>mb_addr = g_addr e, mb_http = g_http e, mb_state = Alive, mb_suspect_at = zero_time, mb_inc = g_inc e\<rparr>
     | Some mem \<Rightarrow> Some
         (if mb_http mem = [] \<and> g_http e \<noteq> [] then mem\<lparr>mb_http := g_http e, mb_inc := g_inc e\<rparr>
          else if mb_state mem \<noteq> Alive
          then (if g_inc e \<le> mb_inc mem then mem
                else mem\<lparr>mb_state := Alive, mb_http := g_http e, mb_inc := g_inc e\<rparr>)
          else if g_inc e > mb_inc mem then mem\<lparr>mb_inc := g_inc e\<rparr> else mem))"
  by (auto simp: merge_join_def Let_def split: option.split)

lemma merge_dead_self:
  "member_of (merge_dead e m) (g_addr e) =
    (case member_of m (g_addr e) of None \<Rightarrow> None
     | Some mem \<Rightarrow> Some (if mb_state mem = Dead \<or> g_inc e < mb_inc mem then mem else mem\<lparr>mb_state := Dead\<rparr>))"
  by (auto simp: merge_dead_def split: option.split)

lemma suspects_loop_other: "a \<notin> set as \<Longrightarrow> member_of (suspects_loop now as m) a = member_of m a"
  by (induction now as m rule: suspects_loop.induct) (auto split: option.split)

definition expired :: "(string \<Rightarrow> gotime) \<Rightarrow> string \<Rightarrow> swim \<Rightarrow> bool" where
  "expired now a m \<longleftrightarrow> (\<exists>mem. member_of m a = Some mem \<and> mb_state mem = Suspect \<and>
     time_sub (now a) (mb_suspect_at mem) > sw_suspect_timeout m)"

lemma suspects_loop_step:
  "suspects_loop now (a # as) m =
     suspects_loop now as (if expired now a m
       then emit \<lparr>ev_type = EventDead, ev_addr = mb_addr (the (member_of m a)), ev_http = mb_http (the (member_of m a))\<rparr>
              (queue_event \<lparr>g_type = ''dead'', g_addr = mb_addr (the (member_of m a)), g_http = mb_http (the (member_of m a)),
                            g_ttl = event_ttl, g_inc = mb_inc (the (member_of m a))\<rparr>
                (set_member a ((the (member_of m a))\<lparr>mb_state := Dead\<rparr>) m))
       else m)"
  by (auto simp: expired_def split: option.split)

declare suspects_loop.simps(2) [simp del]

lemma suspects_loop_timeout [simp]: "sw_suspect_timeout (suspects_loop now as m) = sw_suspect_timeout m"
  by (induction as arbitrary: m) (simp_all add: suspects_loop_step)

lemma suspects_loop_member:
  "distinct as \<Longrightarrow> a \<in> set as \<Longrightarrow> member_of (suspects_loop now as m) a =
     (if expired now a m then Some ((the (member_of m a))\<lparr>mb_state := Dead\<rparr>) else member_of m a)"
proof (induction as arbitrary: m)
  case Nil
  then show ?case by simp
next
  case (Cons b as)
  show ?case
  proof (cases "a = b")
    case True
    with Cons.prems have "a \<notin> set as" by simp
    with True show ?thesis by (simp add: suspects_loop_step suspects_loop_other)
  next
    case False
    let ?m = "if expired now b m
       then emit \<lparr>ev_type = EventDead, ev_addr = mb_addr (the (member_of m b)), ev_http = mb_http (the (member_of m b))\<rparr>
              (queue_event \<lparr>g_type = ''dead'', g_addr = mb_addr (the (member_of m b)), g_http = mb_http (the (member_of m b)),
                            g_ttl = event_ttl, g_inc = mb_inc (the (member_of m b))\<rparr>
                (set_member b ((the (member_of m b))\<lparr>mb_state := Dead\<rparr>) m))
       else m"
    have same: "member_of ?m a = member_of m a" "expired now a ?m = expired now a m"
      using False by (auto simp: expired_def)
    then show ?thesis
      using Cons.IH [of ?m] Cons.prems False unfolding suspects_loop_step by simp
  qed
qed

section \<open>Incarnations and states only rise\<close>

text \<open>
  A view of a member is its incarnation and its state, ordered lexicographically; a member
  not known yet is below every view.
\<close>

definition view :: "string \<Rightarrow> swim \<Rightarrow> (u64 \<times> mstate) option" where
  "view a m = map_option (\<lambda>mem. (mb_inc mem, mb_state mem)) (member_of m a)"

datatype swim_event =
    SMerge gossip_event
  | SAck string
  | SProbeEnd gotime string nat
  | SCheck "string list \<Rightarrow> string list" "string \<Rightarrow> gotime"

fun swim_step :: "(string \<Rightarrow> string option) \<Rightarrow> swim_event \<Rightarrow> swim \<Rightarrow> swim" where
  "swim_step resolve (SMerge e) m = merge_event e m"
| "swim_step resolve (SAck from) m = refute from m"
| "swim_step resolve (SProbeEnd now target ch) m = probe_end resolve now target ch m"
| "swim_step resolve (SCheck ord now) m = check_suspects ord now m"

text \<open>
  The steps that lower a view: the first HTTP address of a member overwrites its incarnation,
  even with a lower one (membership.go:282), and an incarnation of \<open>2 ^ 64 - 1\<close> wraps.
\<close>

fun lowers :: "string \<Rightarrow> swim_event \<Rightarrow> swim \<Rightarrow> bool" where
  "lowers a (SMerge e) m =
     (case member_of m a of None \<Rightarrow> False
      | Some mem \<Rightarrow> g_addr e = a \<and> a \<noteq> [] \<and> 0 < g_ttl e \<and> g_type e = ''join'' \<and>
          mb_http mem = [] \<and> g_http e \<noteq> [] \<and> g_inc e < mb_inc mem)"
| "lowers a (SAck from) m =
     (case member_of m a of None \<Rightarrow> False
      | Some mem \<Rightarrow> from = a \<and> mb_state mem = Suspect \<and> mb_inc mem = - 1)"
| "lowers a ev m = False"

text \<open>The order in which the map is iterated over repeats no key.\<close>

fun order_ok :: "swim_event \<Rightarrow> bool" where
  "order_ok (SCheck ord now) = (\<forall>xs. distinct xs \<longrightarrow> distinct (ord xs))"
| "order_ok ev = True"

lemma state_le [simp]: "Alive \<le> s" "s \<le> Dead" "\<not> Dead \<le> Suspect" "\<not> Dead \<le> Alive"
  by (cases s; simp add: less_eq_mstate_def)+

lemma view_le:
  "view a m \<le> view a m' \<longleftrightarrow> (case member_of m a of None \<Rightarrow> True
     | Some mem \<Rightarrow> (case member_of m' a of None \<Rightarrow> False
        | Some mem' \<Rightarrow> mb_inc mem < mb_inc mem' \<or> mb_inc mem \<le> mb_inc mem' \<and> mb_state mem \<le> mb_state mem'))"
  by (auto simp: view_def less_eq_prod_def split: option.split)

lemma merge_event_rises: "view a m \<le> view a (merge_event e m) \<longleftrightarrow> \<not> lowers a (SMerge e) m"
proof (cases "g_addr e = a \<and> a \<noteq> [] \<and> 0 < g_ttl e")
  case False
  then have "view a (merge_event e m) = view a m" and "\<not> lowers a (SMerge e) m"
    by (auto simp: merge_event_def view_def merge_join_other merge_dead_other split: option.split)
  then show ?thesis by simp
next
  case True
  have "view a m \<le> view a (merge_join e m) \<longleftrightarrow> \<not> (case member_of m a of None \<Rightarrow> False
      | Some mem \<Rightarrow> mb_http mem = [] \<and> g_http e \<noteq> [] \<and> g_inc e < mb_inc mem)"
    using merge_join_self [of e m] True unfolding view_le
    by (auto split: option.splits if_splits)
  moreover have "view a m \<le> view a (merge_dead e m)"
    using merge_dead_self [of e m] True unfolding view_le by (auto split: option.splits if_splits)
  ultimately show ?thesis
    using True by (auto simp: merge_event_def split: option.splits)
qed

lemma refute_rises: "view a m \<le> view a (refute from m) \<longleftrightarrow> \<not> lowers a (SAck from) m"
proof -
  have "mb_inc mem < mb_inc mem + 1" if "mb_inc mem \<noteq> - 1" for mem :: member
  proof -
    have "mb_inc mem + 1 \<noteq> 0" using that max_word_wrap [of "mb_inc mem"] by blast
    then show ?thesis by uint_arith
  qed
  then show ?thesis
    unfolding view_le by (auto simp: refute_def split: option.splits if_splits)
qed

lemma probe_end_rises: "view a m \<le> view a (probe_end resolve now target ch m)"
  unfolding view_le by (auto simp: probe_end_def wait_end_def Let_def split: option.split)

lemma check_suspects_rises:
  assumes "distinct (ord (keys (sw_members m)))"
  shows "view a m \<le> view a (check_suspects ord now m)"
proof (cases "a \<in> set (ord (keys (sw_members m)))")
  case True
  then show ?thesis
    using suspects_loop_member [OF assms] unfolding view_le check_suspects_def
    by (auto simp: expired_def split: option.split)
next
  case False
  then show ?thesis by (simp add: view_def check_suspects_def suspects_loop_other)
qed

text \<open>Members are never removed, and the map keeps one entry per address.\<close>

definition members_ok :: "swim \<Rightarrow> bool" where
  "members_ok m \<longleftrightarrow> map_ok (sw_members m)"

lemma members_ok_parts [simp]:
  "members_ok m \<Longrightarrow> members_ok (set_member a mem m)" "members_ok (emit ev m) = members_ok m"
  "members_ok (queue_event g m) = members_ok m"
  by (simp_all add: members_ok_def) (simp add: set_member_def)

lemma members_ok_step: "members_ok m \<Longrightarrow> members_ok (swim_step resolve ev m)"
proof -
  have "members_ok (suspects_loop now as m)" if "members_ok m" for now as m
    using that by (induction as arbitrary: m) (simp_all add: suspects_loop_step)
  moreover have "members_ok (m\<lparr>sw_ack_wait := x\<rparr>) = members_ok m" for x m
    by (simp add: members_ok_def)
  ultimately show "members_ok m \<Longrightarrow> members_ok (swim_step resolve ev m)"
    by (cases ev) (auto simp: merge_event_def merge_join_def merge_dead_def refute_def probe_end_def
        wait_end_def check_suspects_def Let_def split: option.split)
qed

lemma dead_below: "Some (i, Dead) \<le> (v :: (u64 \<times> mstate) option) \<Longrightarrow> \<exists>j st. v = Some (j, st) \<and> (i < j \<or> j = i \<and> st = Dead)"
proof (cases v)
  case (Some p)
  assume "Some (i, Dead) \<le> v"
  obtain j st where p: "p = (j, st)" by fastforce
  have "(i, Dead) \<le> (j, st)" using \<open>Some (i, Dead) \<le> v\<close> unfolding Some p by simp
  then have "i < j \<or> i \<le> j \<and> Dead \<le> st" by (simp add: less_eq_prod_def)
  moreover have "Dead \<le> st \<longleftrightarrow> st = Dead" by (cases st) simp_all
  ultimately have "i < j \<or> j = i \<and> st = Dead" by (cases "i < j") (auto simp: not_less intro: order.antisym)
  then show ?thesis using Some p by blast
qed simp

lemma swim_step_rises:
  assumes "members_ok m" and "order_ok ev"
  shows "view a m \<le> view a (swim_step resolve ev m) \<longleftrightarrow> \<not> lowers a ev m"
proof (cases ev)
  case (SCheck ord now)
  with assms show ?thesis by (simp add: members_ok_def map_ok_def check_suspects_rises)
qed (simp_all add: merge_event_rises refute_rises probe_end_rises del: lowers.simps(1,2))

interpretation sw: rising_machine "swim_step resolve" "\<lambda>ev m. order_ok ev \<and> \<not> lowers a ev m" members_ok "view a"
  for resolve a
  by unfold_locales (simp_all add: swim_step_rises members_ok_step)

section \<open>A network of members\<close>

text \<open>
  The processes by the socket address they are bound to, and every datagram sent so far:
  delivery may lose, repeat and reorder. A member only sends what the operations above
  return; a process may stop and start again with nothing kept. The label of a step is
  the address at which a process starts or stops.
\<close>

record net =
  procs :: "string \<rightharpoonup> swim"
  wire :: "(string \<times> string \<times> message) set"

definition sent :: "string \<Rightarrow> (string \<times> message) list \<Rightarrow> (string \<times> string \<times> message) set" where
  "sent u sends = (\<lambda>(dst, msg). (u, dst, msg)) ` set sends"

definition become :: "string \<Rightarrow> swim \<Rightarrow> (string \<times> message) list \<Rightarrow> net \<Rightarrow> net" where
  "become u m sends N = N\<lparr>procs := (procs N)(u \<mapsto> m), wire := wire N \<union> sent u sends\<rparr>"

inductive net_step :: "(string \<Rightarrow> string option) \<Rightarrow> string option \<Rightarrow> net \<Rightarrow> net \<Rightarrow> bool" for resolve where
  start: "swim_new resolve listen timeout addr http seeds = Inr (sends, m) \<Longrightarrow> resolve addr = Some u \<Longrightarrow>
    net_step resolve (Some u) N (become u m sends N)"
| stop: "net_step resolve (Some u) N (N\<lparr>procs := (procs N)(u := None)\<rparr>)"
| receive: "procs N u = Some m \<Longrightarrow> (src, u, msg) \<in> wire N \<Longrightarrow> recv resolve src msg m = Inr (sends, tasks, m') \<Longrightarrow>
    net_step resolve None N (become u m' sends N)"
| ping: "procs N u = Some m \<Longrightarrow> direct_ping_begin resolve target m = (sends, ch, m') \<Longrightarrow>
    net_step resolve None N (become u m' sends N)"
| ping_end: "procs N u = Some m \<Longrightarrow> direct_ping_end resolve target ch m = (acked, m') \<Longrightarrow>
    net_step resolve None N (become u m' [] N)"
| ping_for: "procs N u = Some m \<Longrightarrow> ping_for_end resolve target from ch m = (sends, m') \<Longrightarrow>
    net_step resolve None N (become u m' sends N)"
| indirect: "procs N u = Some m \<Longrightarrow> probe_indirect_begin resolve shuffle target m = (sends, ch, m') \<Longrightarrow>
    net_step resolve None N (become u m' sends N)"
| probe: "procs N u = Some m \<Longrightarrow> target \<noteq> sw_addr m \<Longrightarrow>
    net_step resolve None N (become u (probe_end resolve now target ch m) [] N)"
| check: "procs N u = Some m \<Longrightarrow> distinct (ord (keys (sw_members m))) \<Longrightarrow>
    set (ord (keys (sw_members m))) = set (keys (sw_members m)) \<Longrightarrow>
    net_step resolve None N (become u (check_suspects ord now m) [] N)"
| consume: "procs N u = Some m \<Longrightarrow>
    net_step resolve None N (become u (m\<lparr>sw_events := tl (sw_events m)\<rparr>) [] N)"

definition empty_net :: net where
  "empty_net = \<lparr>procs = Map.empty, wire = {}\<rparr>"

inductive net_reach :: "(string \<Rightarrow> string option) \<Rightarrow> net \<Rightarrow> bool" for resolve where
  empty: "net_reach resolve empty_net"
| step: "net_reach resolve N \<Longrightarrow> net_step resolve lab N N' \<Longrightarrow> net_reach resolve N'"

text \<open>A run during which the process at \<open>u\<close> is neither started nor stopped.\<close>

inductive net_run :: "(string \<Rightarrow> string option) \<Rightarrow> string \<Rightarrow> net \<Rightarrow> net \<Rightarrow> bool" for resolve u where
  none: "net_run resolve u N N"
| later: "net_run resolve u N N' \<Longrightarrow> net_step resolve lab N' N'' \<Longrightarrow> lab \<noteq> Some u \<Longrightarrow> net_run resolve u N N''"

text \<open>
  A join is only ever announced with incarnation zero: a process starts with it, and
  nothing raises its own.
\<close>

definition zero_join :: "gossip_event \<Rightarrow> bool" where
  "zero_join g \<longleftrightarrow> (g_type g = ''join'' \<longrightarrow> g_inc g = 0)"

definition swim_inv :: "swim \<Rightarrow> bool" where
  "swim_inv m \<longleftrightarrow> (\<forall>g\<in>set (sw_pending m). zero_join g) \<and>
     (\<exists>self. member_of m (sw_addr m) = Some self \<and> mb_inc self = 0 \<and> mb_state self \<noteq> Suspect)"

definition sends_ok :: "(string \<times> message) list \<Rightarrow> bool" where
  "sends_ok sends \<longleftrightarrow> (\<forall>(dst, msg)\<in>set sends. \<forall>g\<in>set (ms_events msg). zero_join g)"

definition net_inv :: "net \<Rightarrow> bool" where
  "net_inv N \<longleftrightarrow> (\<forall>u m. procs N u = Some m \<longrightarrow> swim_inv m) \<and>
     (\<forall>(src, dst, msg)\<in>wire N. \<forall>g\<in>set (ms_events msg). zero_join g)"

text \<open>What every operation of a running member keeps: the invariant, and its dead members.\<close>

definition keeps :: "swim \<Rightarrow> swim \<Rightarrow> bool" where
  "keeps m m' \<longleftrightarrow> (swim_inv m \<longrightarrow> swim_inv m' \<and> sw_addr m' = sw_addr m \<and>
     (\<forall>a mem. member_of m a = Some mem \<longrightarrow> mb_state mem = Dead \<longrightarrow>
        (\<exists>mem'. member_of m' a = Some mem' \<and> mb_state mem' = Dead)))"

lemma keeps_refl [simp]: "keeps m m"
  by (simp add: keeps_def)

lemma keeps_trans: "keeps m m' \<Longrightarrow> keeps m' m'' \<Longrightarrow> keeps m m''"
  unfolding keeps_def by metis

lemma keeps_same_members:
  "sw_members m' = sw_members m \<Longrightarrow> sw_addr m' = sw_addr m \<Longrightarrow> set (sw_pending m') \<subseteq> set (sw_pending m) \<Longrightarrow>
    keeps m m'"
  by (auto simp: keeps_def swim_inv_def)

text \<open>A change of single members that leaves dead ones dead and never touches oneself badly.\<close>

lemma keepsI:
  assumes "sw_addr m' = sw_addr m"
    and "\<And>g. swim_inv m \<Longrightarrow> g \<in> set (sw_pending m') \<Longrightarrow> g \<in> set (sw_pending m) \<or> zero_join g"
    and "\<And>a mem. swim_inv m \<Longrightarrow> member_of m a = Some mem \<Longrightarrow>
      \<exists>mem'. member_of m' a = Some mem' \<and> (mb_state mem = Dead \<longrightarrow> mb_state mem' = Dead) \<and>
        (a = sw_addr m \<longrightarrow> mb_inc mem = 0 \<longrightarrow> mb_state mem \<noteq> Suspect \<longrightarrow> mb_inc mem' = 0 \<and> mb_state mem' \<noteq> Suspect)"
  shows "keeps m m'"
  using assms unfolding keeps_def swim_inv_def by (smt (verit) option.inject)

lemma keeps_merge_join:
  assumes "g_type e = ''join''" and "zero_join e"
  shows "keeps m (merge_join e m)"
proof (rule keepsI)
  show "sw_addr (merge_join e m) = sw_addr m"
    by (simp add: merge_join_def Let_def split: option.split)
next
  fix g
  assume "g \<in> set (sw_pending (merge_join e m))"
  then show "g \<in> set (sw_pending m) \<or> zero_join g"
    using assms by (auto simp: merge_join_def zero_join_def Let_def split: option.splits if_splits)
next
  fix a mem
  assume "member_of m a = Some mem"
  then show "\<exists>mem'. member_of (merge_join e m) a = Some mem' \<and> (mb_state mem = Dead \<longrightarrow> mb_state mem' = Dead) \<and>
      (a = sw_addr m \<longrightarrow> mb_inc mem = 0 \<longrightarrow> mb_state mem \<noteq> Suspect \<longrightarrow> mb_inc mem' = 0 \<and> mb_state mem' \<noteq> Suspect)"
    using assms merge_join_self [of e m] by (cases "a = g_addr e") (auto simp: merge_join_other zero_join_def)
qed

lemma keeps_merge_dead: "keeps m (merge_dead e m)"
proof (rule keepsI)
  show "sw_addr (merge_dead e m) = sw_addr m" by (simp add: merge_dead_def split: option.split)
next
  fix g
  assume "g \<in> set (sw_pending (merge_dead e m))"
  then show "g \<in> set (sw_pending m) \<or> zero_join g"
    by (auto simp: merge_dead_def zero_join_def split: option.splits if_splits)
next
  fix a mem
  assume "member_of m a = Some mem"
  then show "\<exists>mem'. member_of (merge_dead e m) a = Some mem' \<and> (mb_state mem = Dead \<longrightarrow> mb_state mem' = Dead) \<and>
      (a = sw_addr m \<longrightarrow> mb_inc mem = 0 \<longrightarrow> mb_state mem \<noteq> Suspect \<longrightarrow> mb_inc mem' = 0 \<and> mb_state mem' \<noteq> Suspect)"
    using merge_dead_self [of e m] by (cases "a = g_addr e") (auto simp: merge_dead_other)
qed

lemma keeps_merge_events: "\<forall>e\<in>set es. zero_join e \<Longrightarrow> keeps m (merge_events es m)"
proof (induction es arbitrary: m)
  case Nil
  then show ?case by (simp add: merge_events_def)
next
  case (Cons e es)
  then have "keeps m (merge_event e m)"
    by (simp add: merge_event_def keeps_merge_join keeps_merge_dead)
  with Cons keeps_trans show ?case by (simp add: merge_events_def)
qed

lemma keeps_refute: "keeps m (refute from m)"
proof (rule keepsI)
  fix a mem
  assume inv: "swim_inv m" and a: "member_of m a = Some mem"
  then show "\<exists>mem'. member_of (refute from m) a = Some mem' \<and> (mb_state mem = Dead \<longrightarrow> mb_state mem' = Dead) \<and>
      (a = sw_addr m \<longrightarrow> mb_inc mem = 0 \<longrightarrow> mb_state mem \<noteq> Suspect \<longrightarrow> mb_inc mem' = 0 \<and> mb_state mem' \<noteq> Suspect)"
    by (auto simp: refute_def split: option.split)
qed (auto simp: refute_def split: option.splits if_splits)

lemma keeps_probe_end: "target \<noteq> sw_addr m \<Longrightarrow> keeps m (probe_end resolve now target ch m)"
proof (rule keepsI)
  fix a mem
  assume "target \<noteq> sw_addr m" and "member_of m a = Some mem"
  then show "\<exists>mem'. member_of (probe_end resolve now target ch m) a = Some mem' \<and>
      (mb_state mem = Dead \<longrightarrow> mb_state mem' = Dead) \<and>
      (a = sw_addr m \<longrightarrow> mb_inc mem = 0 \<longrightarrow> mb_state mem \<noteq> Suspect \<longrightarrow> mb_inc mem' = 0 \<and> mb_state mem' \<noteq> Suspect)"
    by (auto simp: probe_end_def wait_end_def Let_def split: option.split)
qed (auto simp: probe_end_def wait_end_def Let_def split: option.splits if_splits)

lemma suspects_loop_fields [simp]: "sw_addr (suspects_loop now as m) = sw_addr m"
  by (induction as arbitrary: m) (simp_all add: suspects_loop_step)

lemma suspects_loop_pending:
  "g \<in> set (sw_pending (suspects_loop now as m)) \<Longrightarrow> g \<in> set (sw_pending m) \<or> zero_join g"
proof (induction as arbitrary: m)
  case (Cons a as)
  then show ?case by (fastforce simp: suspects_loop_step zero_join_def split: if_splits)
qed simp

lemma keeps_check_suspects:
  assumes "distinct (ord (keys (sw_members m)))"
  shows "keeps m (check_suspects ord now m)"
proof (rule keepsI)
  fix a mem
  assume a: "member_of m a = Some mem"
  show "\<exists>mem'. member_of (check_suspects ord now m) a = Some mem' \<and>
      (mb_state mem = Dead \<longrightarrow> mb_state mem' = Dead) \<and>
      (a = sw_addr m \<longrightarrow> mb_inc mem = 0 \<longrightarrow> mb_state mem \<noteq> Suspect \<longrightarrow> mb_inc mem' = 0 \<and> mb_state mem' \<noteq> Suspect)"
  proof (cases "a \<in> set (ord (keys (sw_members m)))")
    case True
    with a suspects_loop_member [OF assms True, of now] show ?thesis
      by (auto simp: check_suspects_def expired_def)
  next
    case False
    with a show ?thesis by (simp add: check_suspects_def suspects_loop_other)
  qed
qed (auto simp: check_suspects_def dest: suspects_loop_pending)

section \<open>The invariant of the network\<close>

lemma drain_events_cases:
  assumes "drain_events m = (out, m')"
  shows "set out \<subseteq> set (sw_pending m) \<and> set (sw_pending m') \<subseteq> set (sw_pending m) \<and>
    sw_members m' = sw_members m \<and> sw_addr m' = sw_addr m"
  using assms set_take_subset set_drop_subset
  by (auto simp: drain_events_def Let_def split: if_splits dest: in_set_takeD in_set_dropD)

lemma keeps_drain: "drain_events m = (out, m') \<Longrightarrow> keeps m m'"
  using drain_events_cases by (intro keeps_same_members) blast+

lemma drain_zero_join: "drain_events m = (out, m') \<Longrightarrow> swim_inv m \<Longrightarrow> g \<in> set out \<Longrightarrow> zero_join g"
  using drain_events_cases unfolding swim_inv_def by blast

lemma sends_ok_send_msg: "sends_ok (send_msg resolve addr msg) \<longleftrightarrow>
    (resolve addr \<noteq> None \<longrightarrow> (\<forall>g\<in>set (ms_events msg). zero_join g))"
  by (auto simp: sends_ok_def send_msg_def split: option.splits)

lemma sends_ok_concat: "(\<And>x. x \<in> set xs \<Longrightarrow> sends_ok (f x)) \<Longrightarrow> sends_ok (concat (List.map f xs))"
  unfolding sends_ok_def by auto

lemma sends_ok_Nil [simp]: "sends_ok []"
  by (simp add: sends_ok_def)

lemma recv_keeps:
  assumes "recv resolve src msg m = Inr (sends, tasks, m')" and "\<forall>g\<in>set (ms_events msg). zero_join g"
  shows "keeps m m' \<and> (swim_inv m \<longrightarrow> sends_ok sends)"
proof -
  define msg' where "msg' = (if ms_type msg = ''ack'' then msg\<lparr>ms_from := src\<rparr> else msg)"
  have ev: "\<forall>g\<in>set (ms_events msg'). zero_join g" using assms(2) by (simp add: msg'_def)
  let ?m1 = "merge_events (ms_events msg') m"
  have m1: "keeps m ?m1" by (rule keeps_merge_events [OF ev])
  have h: "handle_msg resolve msg' m = Inr (sends, tasks, m')" using assms(1) by (simp add: recv_def msg'_def)
  consider (ping) "ms_type msg' = ''ping''" | (ack) "ms_type msg' = ''ack''"
    | (other) "ms_type msg' \<noteq> ''ping''" "ms_type msg' \<noteq> ''ack''" by blast
  then show ?thesis
  proof cases
    case ping
    then obtain self drained where self: "member_of ?m1 (sw_addr ?m1) = Some self"
      and drained: "drain_events ?m1 = (drained, m')"
      and sends: "sends = send_msg resolve (ms_from msg') \<lparr>ms_type = ''ack'', ms_from = sw_addr ?m1, ms_target = [],
        ms_events = \<lparr>g_type = ''join'', g_addr = sw_addr ?m1, g_http = sw_http ?m1, g_ttl = event_ttl,
                     g_inc = mb_inc self\<rparr> # drained\<rparr>"
      using h by (auto simp: handle_msg_def Let_def split: option.splits prod.splits)
    have "sends_ok sends" if "swim_inv m"
    proof -
      have "swim_inv ?m1" using m1 that by (simp add: keeps_def)
      then show ?thesis
        using self drain_zero_join [OF drained] unfolding sends sends_ok_send_msg
        by (auto simp: zero_join_def swim_inv_def)
    qed
    then show ?thesis using keeps_trans [OF m1 keeps_drain [OF drained]] by blast
  next
    case ack
    have "keeps ?m1 (signal_ack (resolve_addr resolve (ms_from msg')) (refute (ms_from msg') ?m1))"
      by (rule keeps_trans [OF keeps_refute [of ?m1 "ms_from msg'"] keeps_same_members])
        (simp_all add: signal_ack_def split: option.split)
    then show ?thesis
      using h ack keeps_trans [OF m1] by (auto simp: handle_msg_def Let_def)
  next
    case other
    then show ?thesis using h m1 by (auto simp: handle_msg_def Let_def split: if_splits)
  qed
qed

lemma swim_new_inv:
  assumes "swim_new resolve listen timeout addr http seeds = Inr (sends, m)"
  shows "swim_inv m \<and> sends_ok sends"
proof -
  let ?others = "filter (\<lambda>seed. seed \<noteq> addr) seeds"
  have other: "map_of (fold (\<lambda>seed. AList.update seed (new_member seed [])) xs ms) addr = map_of ms addr"
    if "addr \<notin> set xs" for xs and ms :: "(string, member) gomap"
    using that by (induction xs arbitrary: ms) (simp_all add: map_simps)
  have "addr \<notin> set ?others" by simp
  from other [OF this, of "AList.update addr (new_member addr http) []"] have "swim_inv m"
    using assms by (auto simp: swim_new_def swim_inv_def Let_def map_simps new_member_def split: if_splits)
  moreover have "sends_ok sends"
    using assms by (auto simp: swim_new_def Let_def zero_join_def sends_ok_send_msg
        intro!: sends_ok_concat split: if_splits)
  ultimately show ?thesis by blast
qed

lemma net_inv_become:
  assumes "net_inv N" and "swim_inv m" and "sends_ok sends"
  shows "net_inv (become u m sends N)"
  using assms by (fastforce simp: net_inv_def become_def sent_def sends_ok_def)

text \<open>Every step of a process is one that keeps, with sends that announce no incarnation.\<close>

lemma net_step_keeps:
  assumes "net_step resolve lab N N'" and "net_inv N"
  shows "net_inv N' \<and> (\<forall>u m. lab \<noteq> Some u \<longrightarrow> procs N u = Some m \<longrightarrow> (\<exists>m'. procs N' u = Some m' \<and> keeps m m'))"
proof -
  have local: "net_inv (become u m' sends N) \<and> (\<forall>v n. procs N v = Some n \<longrightarrow>
      (\<exists>n'. procs (become u m' sends N) v = Some n' \<and> keeps n n'))"
    if "procs N u = Some m" "keeps m m'" "swim_inv m \<longrightarrow> sends_ok sends" for u m m' sends
  proof -
    have "swim_inv m" using that(1) assms(2) by (simp add: net_inv_def)
    with that(2,3) net_inv_become [OF assms(2)] have "net_inv (become u m' sends N)"
      by (simp add: keeps_def)
    with that show ?thesis by (auto simp: become_def)
  qed
  have wait: "keeps m (m\<lparr>sw_ack_wait := x, sw_next_chan := y\<rparr>)" "keeps m (m\<lparr>sw_ack_wait := x\<rparr>)" for m x y
    by (rule keeps_same_members; simp)+
  show ?thesis
    using assms(1)
  proof cases
    case (start listen timeout addr http seeds sends m u)
    with swim_new_inv [OF start(3)] net_inv_become [OF assms(2)] show ?thesis by (auto simp: become_def)
  next
    case (stop u)
    then show ?thesis using assms(2) by (auto simp: net_inv_def)
  next
    case (receive u m src msg sends tasks m')
    then have "\<forall>g\<in>set (ms_events msg). zero_join g" using assms(2) by (auto simp: net_inv_def)
    with receive local [OF receive(3)] recv_keeps show ?thesis by metis
  next
    case (ping u m target sends ch m')
    let ?m1 = "snd (wait_begin (resolve_addr resolve target) m)"
    obtain out where d: "drain_events ?m1 = (out, m')"
      and s: "sends = send_msg resolve target \<lparr>ms_type = ''ping'', ms_from = sw_addr m, ms_target = [], ms_events = out\<rparr>"
      using ping(4) by (auto simp: direct_ping_begin_def Let_def split: prod.splits)
    have k: "keeps m ?m1" using wait(1) by (simp add: wait_begin_def)
    have "sends_ok sends" if "swim_inv m"
      using drain_zero_join [OF d] that k by (auto simp: s sends_ok_send_msg keeps_def)
    with local [OF ping(3) keeps_trans [OF k keeps_drain [OF d]]] ping(1,2) show ?thesis by blast
  next
    case (ping_end u m target ch acked m')
    then have "keeps m m'" using wait(2) by (auto simp: direct_ping_end_def wait_end_def)
    with local [OF ping_end(3)] ping_end(1,2) show ?thesis by simp
  next
    case (ping_for u m target "from" ch sends m')
    then have "keeps m m'" "sends_ok sends"
      using wait(2) by (auto simp: ping_for_end_def direct_ping_end_def wait_end_def sends_ok_send_msg Let_def)
    with local [OF ping_for(3)] ping_for(1,2) show ?thesis by simp
  next
    case (indirect u m shuffle target sends ch m')
    then have "keeps m m'" "sends_ok sends"
      using wait(1) by (auto simp: probe_indirect_begin_def wait_begin_def Let_def sends_ok_send_msg
          intro!: sends_ok_concat)
    with local [OF indirect(3)] indirect(1,2) show ?thesis by simp
  next
    case (probe u m target now ch)
    with local [OF probe(3) keeps_probe_end] show ?thesis by simp
  next
    case (check u m ord now)
    with local [OF check(3) keeps_check_suspects [where ord = ord and m = m and now = now, OF check(4)]] show ?thesis by simp
  next
    case (consume u m)
    have "keeps m (m\<lparr>sw_events := tl (sw_events m)\<rparr>)" by (rule keeps_same_members) simp_all
    with local [OF consume(3)] consume(1,2) show ?thesis by simp
  qed
qed

lemma net_reach_inv: "net_reach resolve N \<Longrightarrow> net_inv N"
proof (induction rule: net_reach.induct)
  case empty
  then show ?case by (simp add: net_inv_def empty_net_def)
next
  case (step N lab N')
  with net_step_keeps [OF step.hyps(2)] show ?case by blast
qed

lemma net_run_keeps:
  assumes "net_run resolve u N N'" and "net_inv N" and "procs N u = Some m"
  shows "net_inv N' \<and> (\<exists>m'. procs N' u = Some m' \<and> keeps m m')"
  using assms
proof (induction rule: net_run.induct)
  case none
  then show ?case by simp
next
  case (later N N' lab N'')
  then obtain m1 where "net_inv N'" "procs N' u = Some m1" "keeps m m1" by blast
  with net_step_keeps [OF later.hyps(2)] later.hyps(3) show ?case by (metis keeps_trans)
qed

section \<open>Waiting for an ack\<close>

text \<open>Channel numbers are fresh.\<close>

definition chans_ok :: "swim \<Rightarrow> bool" where
  "chans_ok m \<longleftrightarrow> (\<forall>c\<in>set (sw_signalled m). c < sw_next_chan m) \<and>
     (\<forall>k c. map_of (sw_ack_wait m) k = Some c \<longrightarrow> c < sw_next_chan m)"

lemma merge_event_chans [simp]:
  "sw_ack_wait (merge_event e m) = sw_ack_wait m" "sw_signalled (merge_event e m) = sw_signalled m"
  by (auto simp: merge_event_def merge_join_def merge_dead_def Let_def split: option.split)

lemma merge_events_chans [simp]:
  "sw_ack_wait (merge_events es m) = sw_ack_wait m" "sw_signalled (merge_events es m) = sw_signalled m"
  unfolding merge_events_def by (induction es arbitrary: m) simp_all

lemma refute_chans [simp]:
  "sw_ack_wait (refute from m) = sw_ack_wait m" "sw_signalled (refute from m) = sw_signalled m"
  by (auto simp: refute_def split: option.split)

text \<open>A datagram signals nothing but the channel registered for the socket it came from.\<close>

lemma recv_signals:
  assumes "recv resolve src msg m = Inr (sends, tasks, m')"
  shows "sw_ack_wait m' = sw_ack_wait m \<and> set (sw_signalled m') \<subseteq> set (sw_signalled m) \<union>
    (if ms_type msg = ''ack'' then set_option (map_of (sw_ack_wait m) (resolve_addr resolve src)) else {})"
  using assms
  by (auto simp: recv_def handle_msg_def signal_ack_def drain_events_def Let_def
      split: option.splits if_splits prod.splits)

fun receive_all :: "(string \<Rightarrow> string option) \<Rightarrow> (string \<times> message) list \<Rightarrow> swim \<Rightarrow> panic + swim" where
  "receive_all resolve [] m = Inr m"
| "receive_all resolve ((src, msg) # rest) m =
     (case recv resolve src msg m of Inl p \<Rightarrow> Inl p | Inr (sends, tasks, m') \<Rightarrow> receive_all resolve rest m')"

lemma receive_all_signals:
  assumes "receive_all resolve ds m = Inr m'" and "map_of (sw_ack_wait m) key = Some ch"
    and "\<forall>k. map_of (sw_ack_wait m) k = Some ch \<longrightarrow> k = key" and "ch \<notin> set (sw_signalled m)"
    and "\<forall>(src, msg)\<in>set ds. ms_type msg = ''ack'' \<longrightarrow> resolve_addr resolve src \<noteq> key"
  shows "ch \<notin> set (sw_signalled m')"
  using assms
proof (induction ds arbitrary: m)
  case (Cons d ds)
  obtain src msg where d: "d = (src, msg)" by fastforce
  obtain sends tasks m1 where r: "recv resolve src msg m = Inr (sends, tasks, m1)"
    and rest: "receive_all resolve ds m1 = Inr m'"
    using Cons.prems(1) by (auto simp: d split: sum.splits)
  note rs = recv_signals [OF r]
  have "ch \<notin> set_option (map_of (sw_ack_wait m) (resolve_addr resolve src))" if "ms_type msg = ''ack''"
    using Cons.prems(3,5) that by (auto simp: d)
  with rs Cons.prems(4) have "ch \<notin> set (sw_signalled m1)" by (auto split: if_splits)
  moreover have "sw_ack_wait m1 = sw_ack_wait m" using rs by blast
  moreover have "\<forall>(src, msg)\<in>set ds. ms_type msg = ''ack'' \<longrightarrow> resolve_addr resolve src \<noteq> key"
    using Cons.prems(5) by simp
  ultimately show ?case using Cons.IH [OF rest] Cons.prems(2,3) by metis
next
  case Nil
  from Nil.prems(1,4) show ?case by simp
qed

section \<open>Properties\<close>

text \<open>
  C26: What a member knows of another only rises, with two exceptions: over any merged events,
  refutations, failed probes and suspicion sweeps, a step lowers the pair of incarnation and
  state that a member holds of another exactly when it learns the first HTTP address of the
  other from a join with a lower incarnation (membership.go:282), or when it raises an
  incarnation of \<open>2 ^ 64 - 1\<close>. A run without such a step never lowers it, and a dead member
  comes back in it only with a higher incarnation.
\<close>

theorem membership_rises:
  assumes "members_ok m" and "\<forall>ev\<in>set evs. order_ok ev"
  shows "(\<forall>earlier ev later. evs = earlier @ ev # later \<longrightarrow>
      (view a (fold (swim_step resolve) earlier m) \<le> view a (fold (swim_step resolve) (earlier @ [ev]) m) \<longleftrightarrow>
        \<not> lowers a ev (fold (swim_step resolve) earlier m))) \<and>
    (run_ok (\<lambda>ev m. \<not> lowers a ev m) (swim_step resolve) evs m \<longrightarrow>
      view a m \<le> view a (fold (swim_step resolve) evs m) \<and>
      (view a m = Some (i, Dead) \<longrightarrow>
        (\<exists>j st. view a (fold (swim_step resolve) evs m) = Some (j, st) \<and> (i < j \<or> j = i \<and> st = Dead))))"
proof (intro conjI allI impI)
  fix earlier ev later
  assume "evs = earlier @ ev # later"
  moreover have "members_ok (fold (swim_step resolve) es m)" for es
    using assms(1) by (induction es arbitrary: m) (simp_all add: members_ok_step)
  ultimately show "view a (fold (swim_step resolve) earlier m) \<le> view a (fold (swim_step resolve) (earlier @ [ev]) m) \<longleftrightarrow>
      \<not> lowers a ev (fold (swim_step resolve) earlier m)"
    using assms(2) by (simp add: swim_step_rises)
next
  assume run: "run_ok (\<lambda>ev m. \<not> lowers a ev m) (swim_step resolve) evs m"
  have "run_ok (\<lambda>ev m. order_ok ev \<and> \<not> lowers a ev m) (swim_step resolve) evs m"
    using run assms(2) by (induction evs arbitrary: m) auto
  with assms(1) show "view a m \<le> view a (fold (swim_step resolve) evs m)" by (rule sw.run_rises)
  then show "\<exists>j st. view a (fold (swim_step resolve) evs m) = Some (j, st) \<and> (i < j \<or> j = i \<and> st = Dead)"
    if "view a m = Some (i, Dead)"
    using that dead_below [of i "view a (fold (swim_step resolve) evs m)"] by simp
qed

text \<open>
  C34: A seed that was declared dead before its HTTP address was known stays dead although it
  joins: its first join makes the watcher of the ring hear that it joined, but it stays
  \<open>Dead\<close> for the membership. It is not listed as a live member, not probed, and a message
  that declares it dead is ignored, so that its next failure does not take it off the ring.
\<close>

theorem late_seed_stays_dead:
  assumes "members_ok m" and "member_of m a = Some mem" and "mb_state mem = Dead" and "mb_http mem = []"
    and "g_type e = ''join''" and "g_addr e = a" and "a \<noteq> []" and "g_http e \<noteq> []" and "0 < g_ttl e"
    and "length (sw_events m) < 64" and "m' = merge_event e m"
  shows "sw_events m' = sw_events m @ [\<lparr>ev_type = EventJoin, ev_addr = a, ev_http = g_http e\<rparr>] \<and>
    member_of m' a = Some (mem\<lparr>mb_http := g_http e, mb_inc := g_inc e\<rparr>) \<and>
    a \<notin> set (swim_members m') \<and> a \<notin> set (probe_targets r m') \<and>
    (g_type d = ''dead'' \<and> g_addr d = a \<longrightarrow> merge_event d m' = m')"
proof -
  have m': "m' = queue_event \<lparr>g_type = ''join'', g_addr = a, g_http = g_http e, g_ttl = g_ttl e - 1, g_inc = g_inc e\<rparr>
      (emit (join_of e) (set_member a (mem\<lparr>mb_http := g_http e, mb_inc := g_inc e\<rparr>) m))"
    using assms by (simp add: merge_event_def merge_join_def Let_def)
  have mem: "member_of m' a = Some (mem\<lparr>mb_http := g_http e, mb_inc := g_inc e\<rparr>)" by (simp add: m')
  have "members_ok m'" unfolding assms(11) using members_ok_step [OF assms(1), of Some "SMerge e"] by simp
  then have only: "b = mem\<lparr>mb_http := g_http e, mb_inc := g_inc e\<rparr>" if "(a, b) \<in> set (sw_members m')" for b
    using mem that by (simp add: members_ok_def map_ok_def)
  have "mb_state b = Dead" if "(a, b) \<in> set (sw_members m')" for b
    using only [OF that] assms(3) by simp
  then have dead: "a \<notin> set (swim_members m')" "a \<notin> set (candidates [sw_addr m'] m')"
    by (fastforce simp: swim_members_def candidates_def)+
  have "pick_random r [sw_addr m'] m' \<in> insert [] (set (candidates [sw_addr m'] m'))"
    by (simp add: pick_random_def Let_def)
  then have "a \<notin> set (probe_targets r m')"
    using dead assms(7) by (auto simp: probe_targets_def Let_def)
  moreover have "sw_events m' = sw_events m @ [\<lparr>ev_type = EventJoin, ev_addr = a, ev_http = g_http e\<rparr>]"
    using assms(6,10) by (simp add: m' queue_event_def emit_def set_member_def join_of_def)
  moreover have "merge_event d m' = m'" if "g_type d = ''dead''" "g_addr d = a"
    using that mem assms(3) by (simp add: merge_event_def merge_dead_def)
  ultimately show ?thesis using mem dead by blast
qed

text \<open>
  C27: no member that a process holds for dead ever comes back to it: as long as that
  process runs, no sequence of deliveries, probes, sweeps and restarts of the others makes
  the member live for it again, because every join carries incarnation zero.
\<close>

theorem dead_members_never_rejoin:
  assumes "net_reach resolve N" and "procs N u = Some m" and "member_of m a = Some mem" and "mb_state mem = Dead"
    and "net_run resolve u N N'"
  shows "\<exists>m' mem'. procs N' u = Some m' \<and> member_of m' a = Some mem' \<and> mb_state mem' = Dead"
proof -
  have inv: "net_inv N" by (rule net_reach_inv [OF assms(1)])
  then have "swim_inv m" using assms(2) by (simp add: net_inv_def)
  with net_run_keeps [OF assms(5) inv assms(2)] assms(3,4) show ?thesis by (auto simp: keeps_def)
qed

text \<open>
  a helper cannot confirm a target: after the indirect probe began, the target is
  suspected unless an ack comes from the target's own socket, since \<open>recv\<close> replaces the
  sender a helper names by the socket of the helper.
\<close>

theorem indirect_ack_never_confirms:
  assumes "chans_ok m" and "probe_indirect_begin resolve shuffle target m = (sends, ch, m1)"
    and "receive_all resolve ds m1 = Inr m2"
    and "\<forall>(src, msg)\<in>set ds. ms_type msg = ''ack'' \<longrightarrow> resolve_addr resolve src \<noteq> resolve_addr resolve target"
    and "member_of m2 target = Some mem" and "mb_state mem = Alive"
  shows "member_of (probe_end resolve now target ch m2) target =
    Some (mem\<lparr>mb_state := Suspect, mb_suspect_at := now\<rparr>)"
proof -
  have m1: "ch = sw_next_chan m" "sw_ack_wait m1 = AList.update (resolve_addr resolve target) ch (sw_ack_wait m)"
    "sw_signalled m1 = sw_signalled m"
    using assms(2) by (auto simp: probe_indirect_begin_def wait_begin_def Let_def)
  have "ch \<notin> set (sw_signalled m2)"
    by (rule receive_all_signals [OF assms(3) _ _ _ assms(4)])
      (use assms(1) in \<open>auto simp: m1 map_simps chans_ok_def\<close>)
  then show ?thesis using assms(5,6) by (simp add: probe_end_def wait_end_def Let_def)
qed

text \<open>
  a sweep declares dead exactly the members that have been suspected for longer than
  the timeout, in whatever order it visits them, and changes no other.
\<close>

theorem suspects_expire:
  assumes "distinct (ord (keys (sw_members m)))" and "set (ord (keys (sw_members m))) = set (keys (sw_members m))"
  shows "member_of (check_suspects ord now m) a =
    map_option (\<lambda>mem. if mb_state mem = Suspect \<and> time_sub (now a) (mb_suspect_at mem) > sw_suspect_timeout m
      then mem\<lparr>mb_state := Dead\<rparr> else mem) (member_of m a)"
proof (cases "member_of m a")
  case None
  then have "a \<notin> set (ord (keys (sw_members m)))" using assms(2) by (simp add: map_of_eq_None_iff)
  with None show ?thesis by (simp add: check_suspects_def suspects_loop_other)
next
  case (Some mem)
  then have "a \<in> set (ord (keys (sw_members m)))"
    using assms(2) by (metis map_of_eq_None_iff list.set_map option.distinct(1))
  with Some suspects_loop_member [OF assms(1) this] show ?thesis
    by (simp add: check_suspects_def expired_def)
qed

section \<open>Witnesses\<close>

text \<open>A member \<open>u\<close> that knows the seed \<open>a\<close>, suspects it, and declares it dead.\<close>

definition seed_entry :: "mstate \<Rightarrow> gotime \<Rightarrow> member" where
  "seed_entry st at = \<lparr>mb_addr = ''a'', mb_http = [], mb_state = st, mb_suspect_at = at, mb_inc = 0\<rparr>"

definition swim_u :: "member \<Rightarrow> swim" where
  "swim_u mem = \<lparr>sw_addr = ''u'', sw_http = ''hu'', sw_members = [(''u'', new_member ''u'' ''hu''), (''a'', mem)],
     sw_pending = [], sw_events = [], sw_ack_wait = [], sw_signalled = [], sw_next_chan = 0,
     sw_suspect_timeout = 10\<rparr>"

definition dead_a :: swim where
  "dead_a = (swim_u (seed_entry Dead 0))\<lparr>
     sw_pending := [\<lparr>g_type = ''dead'', g_addr = ''a'', g_http = [], g_ttl = event_ttl, g_inc = 0\<rparr>],
     sw_events := [\<lparr>ev_type = EventDead, ev_addr = ''a'', ev_http = []\<rparr>]\<rparr>"

abbreviation join_a :: gossip_event where
  "join_a \<equiv> \<lparr>g_type = ''join'', g_addr = ''a'', g_http = ''ha'', g_ttl = event_ttl, g_inc = 0\<rparr>"

abbreviation ping_a :: message where
  "ping_a \<equiv> \<lparr>ms_type = ''ping'', ms_from = ''a'', ms_target = [], ms_events = [join_a]\<rparr>"

lemma new_u: "swim_new Some True 10 ''u'' ''hu'' [''a''] = Inr ([(''a'',
    \<lparr>ms_type = ''ping'', ms_from = ''u'', ms_target = [],
     ms_events = [\<lparr>g_type = ''join'', g_addr = ''u'', g_http = ''hu'', g_ttl = event_ttl, g_inc = 0\<rparr>]\<rparr>)],
    swim_u (seed_entry Alive zero_time))"
  by (simp add: swim_new_def swim_u_def seed_entry_def new_member_def send_msg_def Let_def)

lemma suspect_u: "probe_end Some 0 ''a'' 0 (swim_u (seed_entry Alive zero_time)) = swim_u (seed_entry Suspect 0)"
  by (simp add: probe_end_def wait_end_def swim_u_def seed_entry_def set_member_def Let_def)

lemma dead_u: "check_suspects (\<lambda>xs. xs) (\<lambda>_. 11) (swim_u (seed_entry Suspect 0)) = dead_a"
  by (simp add: check_suspects_def suspects_loop_step expired_def swim_u_def seed_entry_def new_member_def dead_a_def
      time_sub_def emit_def queue_event_def set_member_def)

lemma new_a: "\<exists>m. swim_new Some True 10 ''a'' ''ha'' [''u''] = Inr ([(''u'', ping_a)], m)"
  by (simp add: swim_new_def send_msg_def Let_def)

lemma reach_dead_a: "\<exists>N. net_reach Some N \<and> procs N ''u'' = Some dead_a"
proof -
  let ?N1 = "become ''u'' (swim_u (seed_entry Alive zero_time)) [(''a'',
    \<lparr>ms_type = ''ping'', ms_from = ''u'', ms_target = [],
     ms_events = [\<lparr>g_type = ''join'', g_addr = ''u'', g_http = ''hu'', g_ttl = event_ttl, g_inc = 0\<rparr>]\<rparr>)] empty_net"
  have 1: "net_reach Some ?N1"
    by (rule net_reach.step [OF net_reach.empty net_step.start [OF new_u]]) simp
  have "procs ?N1 ''u'' = Some (swim_u (seed_entry Alive zero_time))" by (simp add: become_def)
  then have 2: "net_reach Some (become ''u'' (swim_u (seed_entry Suspect 0)) [] ?N1)" (is "net_reach Some ?N2")
    using net_reach.step [OF 1 net_step.probe [of ?N1 "''u''" _ "''a''" Some 0 0]]
    by (simp add: suspect_u) (simp add: swim_u_def)
  have "procs ?N2 ''u'' = Some (swim_u (seed_entry Suspect 0))" by (simp add: become_def)
  then have "net_reach Some (become ''u'' dead_a [] ?N2)"
    using net_reach.step [OF 2 net_step.check [of ?N2 "''u''" _ "\<lambda>xs. xs" Some "\<lambda>_. 11"]]
    by (simp add: dead_u) (simp add: swim_u_def)
  moreover have "procs (become ''u'' dead_a [] ?N2) ''u'' = Some dead_a" by (simp add: become_def)
  ultimately show ?thesis by blast
qed

lemma dead_members_never_rejoin_witness:
  "\<exists>N N' m' mem'. net_reach Some N \<and> net_run Some ''u'' N N' \<and> (''a'', ''u'', ping_a) \<in> wire N' \<and>
     procs N' ''u'' = Some m' \<and> member_of m' ''a'' = Some mem' \<and> mb_state mem' = Dead"
proof -
  obtain N where N: "net_reach Some N" "procs N ''u'' = Some dead_a" using reach_dead_a by blast
  obtain ma where ma: "swim_new Some True 10 ''a'' ''ha'' [''u''] = Inr ([(''u'', ping_a)], ma)" using new_a by blast
  let ?N1 = "become ''a'' ma [(''u'', ping_a)] N"
  have "net_run Some ''u'' N ?N1"
    by (rule net_run.later [OF net_run.none net_step.start [OF ma]]) simp_all
  moreover have p: "procs ?N1 ''u'' = Some dead_a" using N(2) by (simp add: become_def)
  moreover have w: "(''a'', ''u'', ping_a) \<in> wire ?N1" by (simp add: become_def sent_def)
  moreover obtain sends tasks m' where r: "recv Some ''a'' ping_a dead_a = Inr (sends, tasks, m')"
    by (simp add: recv_def handle_msg_def merge_events_def merge_event_def merge_join_def dead_a_def swim_u_def
        seed_entry_def event_ttl_def set_member_def emit_def queue_event_def drain_events_def Let_def)
  ultimately have run: "net_run Some ''u'' N (become ''u'' m' sends ?N1)"
    using net_run.later [OF _ net_step.receive [OF p w r]] by simp
  have "member_of dead_a ''a'' = Some (seed_entry Dead 0)" "mb_state (seed_entry Dead 0) = Dead"
    by (simp_all add: dead_a_def swim_u_def seed_entry_def)
  from dead_members_never_rejoin [OF N this run] obtain m2 mem2 where
    "procs (become ''u'' m' sends ?N1) ''u'' = Some m2" "member_of m2 ''a'' = Some mem2" "mb_state mem2 = Dead"
    by blast
  moreover have "(''a'', ''u'', ping_a) \<in> wire (become ''u'' m' sends ?N1)" using w by (simp add: become_def)
  ultimately show ?thesis using N(1) run by blast
qed

lemma membership_rises_witness:
  "\<exists>j st. view ''a'' (swim_step Some (SMerge join_a) dead_a) = Some (j, st) \<and> (0 < j \<or> j = 0 \<and> st = Dead)"
proof -
  have m: "members_ok dead_a" "view ''a'' dead_a = Some (0, Dead)"
    by (simp_all add: members_ok_def map_ok_def view_def dead_a_def swim_u_def seed_entry_def)
  have "run_ok (\<lambda>ev m. \<not> lowers ''a'' ev m) (swim_step Some) [SMerge join_a] dead_a"
    by (simp add: dead_a_def swim_u_def seed_entry_def)
  moreover have "\<forall>ev\<in>set [SMerge join_a]. order_ok ev" by simp
  ultimately show ?thesis
    using membership_rises [OF m(1), of "[SMerge join_a]" "''a''" Some 0] m(2) by simp
qed

definition silent_seed :: swim where
  "silent_seed = swim_u ((new_member ''a'' [])\<lparr>mb_state := Dead\<rparr>)"

lemma late_seed_stays_dead_witness:
  "sw_events (merge_event join_a silent_seed) = [\<lparr>ev_type = EventJoin, ev_addr = ''a'', ev_http = ''ha''\<rparr>] \<and>
   ''a'' \<notin> set (swim_members (merge_event join_a silent_seed))"
proof -
  have m: "members_ok silent_seed" "member_of silent_seed ''a'' = Some ((new_member ''a'' [])\<lparr>mb_state := Dead\<rparr>)"
    "sw_events silent_seed = []"
    by (simp_all add: members_ok_def map_ok_def silent_seed_def swim_u_def)
  have "mb_state ((new_member ''a'' [])\<lparr>mb_state := Dead\<rparr>) = Dead" "mb_http ((new_member ''a'' [])\<lparr>mb_state := Dead\<rparr>) = []"
    "g_type join_a = ''join''" "g_addr join_a = ''a''" "''a'' \<noteq> []" "g_http join_a \<noteq> []" "0 < g_ttl join_a"
    "length (sw_events silent_seed) < 64"
    by (simp_all add: new_member_def event_ttl_def m(3))
  from late_seed_stays_dead [OF m(1,2) this HOL.refl] m(3) show ?thesis by simp
qed

lemma indirect_ack_never_confirms_witness:
  "\<exists>ch m1 m2 mem. probe_indirect_begin Some (\<lambda>xs. xs) ''a'' (swim_u (seed_entry Alive 0)) = ([], ch, m1) \<and>
     receive_all Some [(''h'', \<lparr>ms_type = ''ack'', ms_from = ''a'', ms_target = [], ms_events = []\<rparr>)] m1 = Inr m2 \<and>
     member_of (probe_end Some 5 ''a'' ch m2) ''a'' = Some (mem\<lparr>mb_state := Suspect, mb_suspect_at := 5\<rparr>)"
proof -
  let ?m = "swim_u (seed_entry Alive 0)" and ?ds = "[(''h'', \<lparr>ms_type = ''ack'', ms_from = ''a'', ms_target = [], ms_events = []\<rparr>)]"
  let ?m1 = "?m\<lparr>sw_ack_wait := [(''a'', 0)], sw_next_chan := 1\<rparr>"
  have b: "probe_indirect_begin Some (\<lambda>xs. xs) ''a'' ?m = ([], 0, ?m1)"
    by (simp add: probe_indirect_begin_def pick_n_def candidates_def wait_begin_def swim_u_def resolve_addr_def Let_def)
  have r: "receive_all Some ?ds ?m1 = Inr ?m1"
    by (simp add: recv_def handle_msg_def merge_events_def signal_ack_def refute_def resolve_addr_def swim_u_def Let_def)
  have "chans_ok ?m" "member_of ?m1 ''a'' = Some (seed_entry Alive 0)" "mb_state (seed_entry Alive 0) = Alive"
    "\<forall>(src, msg)\<in>set ?ds. ms_type msg = ''ack'' \<longrightarrow> resolve_addr Some src \<noteq> resolve_addr Some ''a''"
    by (simp_all add: chans_ok_def swim_u_def seed_entry_def resolve_addr_def)
  from indirect_ack_never_confirms [OF this(1) b r this(4,2,3), of 5] b r show ?thesis by blast
qed

lemma suspects_expire_witness:
  "member_of (check_suspects (\<lambda>xs. xs) (\<lambda>_. 11) (swim_u (seed_entry Suspect 0))) ''a'' = Some (seed_entry Dead 0)"
  using suspects_expire [of "\<lambda>xs. xs" "swim_u (seed_entry Suspect 0)" "\<lambda>_. 11" "''a''"]
  by (simp add: swim_u_def seed_entry_def time_sub_def)

end
