(* ===== verification/ControlPlane.thy ===== *)
theory ControlPlane
  imports Epoch
begin

text \<open>
  \<open>cmd/controlplane/main.go\<close>: the store of epochs per partition, the handlers that read
  and bump them, and the orchestration of a reshard. JSON is the argument \<open>jc\<close>; the
  answers of the nodes the control plane calls are arguments, and the calls it makes are
  part of the result. Logging and the listener are left out.
\<close>

section \<open>The epoch store\<close>

record epoch_codec =
  enc_epochs :: "(string, u64) gomap \<Rightarrow> bytes"
  dec_epochs :: "bytes \<Rightarrow> (string, u64) gomap option"

record epoch_store =
  es_epochs :: "(string, u64) gomap"
  es_path :: string

datatype store_error = StoreReadFailed | StoreDecodeFailed

text \<open>\<open>readable\<close> tells whether an existing file can be read.\<close>

definition load_epoch_store :: "epoch_codec \<Rightarrow> bool \<Rightarrow> string \<Rightarrow> files \<Rightarrow> store_error + epoch_store" where
  "load_epoch_store jc readable path fs =
     (case fs path of
        None \<Rightarrow> Inr \<lparr>es_epochs = [], es_path = path\<rparr>
      | Some data \<Rightarrow>
          if \<not> readable then Inl StoreReadFailed
          else (case dec_epochs jc data of
              None \<Rightarrow> Inl StoreDecodeFailed
            | Some m \<Rightarrow> Inr \<lparr>es_epochs = m, es_path = path\<rparr>))"

datatype store_io = StorePersists | StoreMarshalFails | StoreWriteFails "bytes option" | StoreRenameFails

definition store_persist :: "epoch_codec \<Rightarrow> store_io \<Rightarrow> epoch_store \<Rightarrow> files \<Rightarrow> files" where
  "store_persist jc io s fs =
     (if es_path s = [] then fs
      else (let tmp = es_path s @ ''.tmp''; data = enc_epochs jc (es_epochs s)
            in case io of
                 StoreMarshalFails \<Rightarrow> fs
               | StoreWriteFails left \<Rightarrow> fs(tmp := left)
               | StoreRenameFails \<Rightarrow> fs(tmp \<mapsto> data)
               | StorePersists \<Rightarrow> (fs(tmp := None))(es_path s \<mapsto> data)))"

definition store_current :: "string \<Rightarrow> epoch_store \<Rightarrow> u64" where
  "store_current part s = get0 (es_epochs s) part"

definition store_bump :: "epoch_codec \<Rightarrow> store_io \<Rightarrow> string \<Rightarrow> epoch_store \<times> files \<Rightarrow> u64 \<times> epoch_store \<times> files" where
  "store_bump jc io part st =
     (case st of (s, fs) \<Rightarrow>
        let s1 = s\<lparr>es_epochs := AList.update part (get0 (es_epochs s) part + 1) (es_epochs s)\<rparr>;
            e = get0 (es_epochs s1) part
        in (e, s1, store_persist jc io s1 fs))"

section \<open>Handlers\<close>

definition default_part :: "string \<Rightarrow> string" where
  "default_part part = (if part = [] then ''_default'' else part)"

definition handle_get_epoch :: "string \<Rightarrow> epoch_store \<Rightarrow> string \<times> u64" where
  "handle_get_epoch q s = (default_part q, store_current (default_part q) s)"

definition handle_bump :: "epoch_codec \<Rightarrow> store_io \<Rightarrow> string \<Rightarrow> epoch_store \<times> files \<Rightarrow>
    (string \<times> u64) \<times> epoch_store \<times> files" where
  "handle_bump jc io q st =
     (let (e, st') = store_bump jc io (default_part q) st in ((default_part q, e), st'))"

definition handle_epochs :: "epoch_store \<Rightarrow> (string, u64) gomap" where
  "handle_epochs s = es_epochs s"

datatype cp_error = CpBadRequest | FreezeFailed | LoadFailed | ReshardTimedOut

text \<open>The body of \<open>/failover\<close>; \<open>None\<close> when it does not decode.\<close>

definition handle_failover :: "epoch_codec \<Rightarrow> store_io \<Rightarrow> string option \<Rightarrow> epoch_store \<times> files \<Rightarrow>
    (cp_error + (string \<times> u64)) \<times> epoch_store \<times> files" where
  "handle_failover jc io req st =
     (case req of
        None \<Rightarrow> (Inl CpBadRequest, st)
      | Some dead \<Rightarrow>
          if dead = [] then (Inl CpBadRequest, st)
          else (let (e, st') = store_bump jc io ''_default'' st in (Inr (dead, e), st')))"

section \<open>Resharding\<close>

definition node_post :: "http_answer \<Rightarrow> bool" where
  "node_post a = (case a of NetError \<Rightarrow> False | Status st \<Rightarrow> st < 300)"

record reshard_request =
  rq_source :: string
  rq_target :: string
  rq_partition :: string
  rq_live :: "bool option"

datatype node_call =
    FreezeCall string string
  | LoadCall string string string u64
  | AbortCall string
  | ThawCall string string

record reshard_done =
  rd_session :: string
  rd_partition :: string
  rd_epoch :: u64
  rd_live :: bool

text \<open>
  The answers a reshard meets: to the freeze, to the load, and the \<open>reshard\<close> field of each
  health answer until the deadline (\<open>None\<close> for a failed poll). Answers to thaw and abort
  are only logged.
\<close>

record reshard_env =
  re_freeze :: http_answer
  re_load :: http_answer
  re_polls :: "string option list"
  re_io :: store_io

definition poll_loop :: "string option list \<Rightarrow> bool" where
  "poll_loop polls = (\<not> list_ex (\<lambda>h. h = Some ''normal'') polls)"

definition handle_reshard :: "epoch_codec \<Rightarrow> reshard_env \<Rightarrow> string \<Rightarrow> reshard_request option \<Rightarrow> epoch_store \<times> files \<Rightarrow>
    (cp_error + reshard_done) \<times> node_call list \<times> epoch_store \<times> files" where
  "handle_reshard jc env session req st =
     (case req of
        None \<Rightarrow> (Inl CpBadRequest, [], st)
      | Some r \<Rightarrow>
          if rq_source r = [] \<or> rq_target r = [] then (Inl CpBadRequest, [], st)
          else
            (let part = default_part (rq_partition r);
                 live = (rq_live r = None \<or> rq_live r = Some True);
                 freeze = (if live then [] else [FreezeCall (rq_source r) session]);
                 thaw = (if live then [] else [ThawCall (rq_source r) session])
             in if \<not> live \<and> \<not> node_post (re_freeze env) then (Inl FreezeFailed, freeze, st)
                else
                  (let (e, st1) = store_bump jc (re_io env) part st;
                       load = [LoadCall (rq_target r) session (rq_source r) e]
                   in if \<not> node_post (re_load env) then (Inl LoadFailed, freeze @ load @ thaw, st1)
                      else if poll_loop (re_polls env)
                      then (Inl ReshardTimedOut, freeze @ load @ [AbortCall (rq_target r)] @ thaw, st1)
                      else (Inr \<lparr>rd_session = session, rd_partition = part, rd_epoch = e, rd_live = live\<rparr>,
                            freeze @ load @ thaw, st1))))"

section \<open>Epochs rise\<close>

datatype cp_event =
    CpBump store_io string
  | CpFailover store_io "string option"
  | CpReshard reshard_env string "reshard_request option"

fun cp_step :: "epoch_codec \<Rightarrow> cp_event \<Rightarrow> epoch_store \<times> files \<Rightarrow> epoch_store \<times> files" where
  "cp_step jc (CpBump io q) st = snd (handle_bump jc io q st)"
| "cp_step jc (CpFailover io req) st = snd (handle_failover jc io req st)"
| "cp_step jc (CpReshard env sid req) st = snd (snd (handle_reshard jc env sid req st))"

text \<open>No partition has used up its epochs.\<close>

definition epochs_left :: "cp_event \<Rightarrow> epoch_store \<times> files \<Rightarrow> bool" where
  "epochs_left ev st \<longleftrightarrow> (\<forall>part. store_current part (fst st) \<noteq> - 1)"

lemma word_less_Suc: "x \<noteq> - 1 \<Longrightarrow> x < x + (1 :: u64)"
proof -
  assume "x \<noteq> - 1"
  then have "x + 1 \<noteq> 0" using max_word_wrap [of x] by blast
  then show ?thesis by uint_arith
qed

lemma store_bump_eq:
  "store_bump jc io part (s, fs) =
     (store_current part s + 1,
      s\<lparr>es_epochs := AList.update part (store_current part s + 1) (es_epochs s)\<rparr>,
      store_persist jc io (s\<lparr>es_epochs := AList.update part (store_current part s + 1) (es_epochs s)\<rparr>) fs)"
  by (simp add: store_bump_def store_current_def Let_def)

lemma store_bump_current:
  "store_current p (fst (snd (store_bump jc io part st))) =
     (if p = part then store_current part (fst st) + 1 else store_current p (fst st))"
  by (cases st) (simp add: store_bump_eq, simp add: store_current_def)

lemma store_bump_rises:
  "\<forall>q. store_current q (fst st) \<noteq> - 1 \<Longrightarrow>
     store_current p (fst st) \<le> store_current p (fst (snd (store_bump jc io part st)))"
  using word_less_Suc [of "store_current part (fst st)"] by (auto simp: store_bump_current)

lemma cp_step_rises:
  "epochs_left ev st \<Longrightarrow> store_current p (fst st) \<le> store_current p (fst (cp_step jc ev st))"
  by (cases ev) (auto simp: epochs_left_def handle_bump_def handle_failover_def handle_reshard_def
      case_prod_beta Let_def store_bump_rises split: option.split)

interpretation cp: rising_machine "cp_step jc" epochs_left "\<lambda>_. True" "\<lambda>st. store_current p (fst st)" for jc p
  by unfold_locales (simp_all add: cp_step_rises)

section \<open>Properties\<close>

text \<open>
  C28: the epoch a bump hands out is higher than every epoch of that partition handed out
  or read before, whatever bumps, failovers and reshards of it and of other partitions
  lie in between.
\<close>

theorem bumped_epochs_increase:
  assumes "run_ok epochs_left (cp_step jc) evs st"
    and "epochs_left ev (fold (cp_step jc) evs st)"
  shows "snd (handle_get_epoch q (fst st)) <
    snd (fst (handle_bump jc io q (fold (cp_step jc) evs st)))"
proof -
  let ?p = "default_part q" and ?st = "fold (cp_step jc) evs st"
  have "store_current ?p (fst st) \<le> store_current ?p (fst ?st)"
    using assms(1) by (intro cp.run_rises) simp_all
  also have "\<dots> < store_current ?p (fst ?st) + 1"
    using assms(2) by (intro word_less_Suc) (simp add: epochs_left_def)
  also have "\<dots> = snd (fst (handle_bump jc io q ?st))"
    by (cases ?st) (simp add: handle_bump_def store_bump_eq)
  finally show ?thesis by (simp add: handle_get_epoch_def)
qed

text \<open>
  C29: a reshard that froze the source asks it to thaw in the same session before it
  answers, on success, when the load fails and when it times out; a live reshard freezes
  nothing. The load carries a new epoch in both modes.
\<close>

theorem reshard_thaws_what_it_froze:
  assumes "handle_reshard jc env session (Some r) st = (res, calls, st')"
    and "rq_source r \<noteq> []" and "rq_target r \<noteq> []"
  shows "(rq_live r \<noteq> Some False \<longrightarrow> (\<forall>a sid. FreezeCall a sid \<notin> set calls)) \<and>
    (rq_live r = Some False \<longrightarrow> hd calls = FreezeCall (rq_source r) session \<and>
      (node_post (re_freeze env) \<longrightarrow> last calls = ThawCall (rq_source r) session) \<and>
      (\<not> node_post (re_freeze env) \<longrightarrow> res = Inl FreezeFailed \<and> st' = st)) \<and>
    (rq_live r \<noteq> Some False \<or> node_post (re_freeze env) \<longrightarrow>
      LoadCall (rq_target r) session (rq_source r)
        (store_current (default_part (rq_partition r)) (fst st) + 1) \<in> set calls \<and>
      store_current (default_part (rq_partition r)) (fst st') =
        store_current (default_part (rq_partition r)) (fst st) + 1)"
proof -
  obtain s fs where st: "st = (s, fs)" by fastforce
  have live: "(rq_live r = None \<or> rq_live r = Some True) = (rq_live r \<noteq> Some False)"
    by (cases "rq_live r") auto
  show ?thesis
    using assms store_bump_current [of _ jc "re_io env" "default_part (rq_partition r)" st]
    by (auto simp: handle_reshard_def live Let_def st store_bump_eq split: if_splits)
qed

section \<open>Witnesses\<close>

definition no_epoch_codec :: epoch_codec where
  "no_epoch_codec = \<lparr>enc_epochs = (\<lambda>_. ''{}''), dec_epochs = (\<lambda>_. None)\<rparr>"

abbreviation store0 :: "epoch_store \<times> files" where
  "store0 \<equiv> (\<lparr>es_epochs = [], es_path = ''epochs.json''\<rparr>, Map.empty)"

lemma bumped_epochs_increase_witness:
  "(0 :: u64) < snd (fst (handle_bump no_epoch_codec StorePersists ''''
     (fold (cp_step no_epoch_codec) [CpBump StorePersists ''_default''] store0)))"
proof -
  have "run_ok epochs_left (cp_step no_epoch_codec) [CpBump StorePersists ''_default''] store0"
    by (simp add: epochs_left_def store_current_def)
  moreover have "epochs_left (CpFailover StorePersists None)
      (fold (cp_step no_epoch_codec) [CpBump StorePersists ''_default''] store0)"
    by (simp add: epochs_left_def handle_bump_def case_prod_beta store_bump_current)
      (simp add: store_current_def)
  ultimately show ?thesis
    using bumped_epochs_increase [of no_epoch_codec "[CpBump StorePersists ''_default'']" store0 _ "''''" StorePersists]
    by (simp add: handle_get_epoch_def store_current_def)
qed

lemma reshard_thaws_what_it_froze_witness:
  "last (fst (snd (handle_reshard no_epoch_codec
     \<lparr>re_freeze = Status 200, re_load = NetError, re_polls = [], re_io = StorePersists\<rparr> ''s''
     (Some \<lparr>rq_source = ''a'', rq_target = ''b'', rq_partition = [], rq_live = Some False\<rparr>) store0))) = ThawCall ''a'' ''s''"
proof -
  let ?env = "\<lparr>re_freeze = Status 200, re_load = NetError, re_polls = [], re_io = StorePersists\<rparr>"
  let ?r = "\<lparr>rq_source = ''a'', rq_target = ''b'', rq_partition = [], rq_live = Some False\<rparr>"
  obtain res calls st' where h: "handle_reshard no_epoch_codec ?env ''s'' (Some ?r) store0 = (res, calls, st')"
    by (rule prod_cases3)
  have "node_post (re_freeze ?env)" by (simp add: node_post_def)
  with reshard_thaws_what_it_froze [OF h] h show ?thesis by simp
qed

end
