(* ===== verification/Node.thy ===== *)
theory Node
  imports PartitionLoop Reshard HashRing Membership Epoch
begin

text \<open>
  \<open>cmd/node/main.go\<close>: a node serves writes and reads over HTTP from one partition, fences
  them by epoch, and moves partitions. Requests are served concurrently, so a handler is
  split where other requests can come in between: its admission, the send to the
  partition or to the reshard buffer, and the reply. The goroutine that loads a partition
  from another node is split in the same way. The reads of the clock, the outcomes of file
  operations and the answers of other nodes are arguments of the steps.
\<close>

section \<open>State\<close>

record event_request =
  er_id :: string
  er_key :: string
  er_value :: bytes

record load_request =
  lr_session :: string
  lr_source :: string
  lr_epoch :: u64

text \<open>The flags of \<open>main\<close>, which do not change afterwards.\<close>

record node_config =
  nc_window :: duration
  nc_topk :: int
  nc_queue :: int
  nc_dir :: string
  nc_noidem :: bool
  nc_batch :: int
  nc_self :: string
  nc_rf :: int
  nc_w :: int
  nc_primary :: bool

text \<open>
  A request that is being served: \<open>POST /events\<close>, \<open>POST /replicate\<close>, or a write of the
  loading goroutine with that index. It is to be sent to the buffer, to be sent to the
  partition, or waits for the partition's reply on the channel numbered like the request.
\<close>

datatype req_kind = ClientEvent | ReplicaEvent | LoaderEvent nat

datatype req_stage = ToBuffer | ToApply | Waiting

record pending =
  pd_num :: nat
  pd_kind :: req_kind
  pd_stage :: req_stage
  pd_req :: event_request
  pd_epoch :: u64

text \<open>Where the goroutine started by \<open>POST /reshard/load\<close> is.\<close>

datatype loader =
    Fetching string u64
  | Draining string
  | Finishing string "buffered_write list"
  | Replaying string "buffered_write list"
  | CatchingUp string gotime "entry list"
  | LoaderDone

text \<open>
  \<open>nd_part\<close> is the partition behind the pointer \<open>p\<close>. The goroutines of the partitions it
  replaced are never stopped: \<open>nd_stale\<close>. All of them work on the files of \<open>nd_disk\<close>.
\<close>

record node =
  nd_part :: partition
  nd_stale :: "partition list"
  nd_disk :: disk
  nd_fencer :: fencer
  nd_files :: files
  nd_rs :: reshard
  nd_ring :: ring
  nd_swim :: "swim option"
  nd_pending :: "pending list"
  nd_next :: nat
  nd_loaders :: "loader list"

datatype node_reply =
    StaleEpoch u64 u64
  | NodeOverloaded int int
  | BadRequest
  | NotNow rs_error
  | BufferedReply
  | DuplicateReply u64
  | QuorumMissed int
  | CreatedReply u64
  | NoContentReply

fun reply_status :: "node_reply \<Rightarrow> nat" where
  "reply_status (StaleEpoch e seen) = 409"
| "reply_status (NodeOverloaded depth cap) = 429"
| "reply_status BadRequest = 400"
| "reply_status (NotNow err) = 503"
| "reply_status BufferedReply = 202"
| "reply_status (DuplicateReply off) = 200"
| "reply_status (QuorumMissed need) = 503"
| "reply_status (CreatedReply off) = 201"
| "reply_status NoContentReply = 204"

text \<open>What the client sees: a reply, a connection closed by a panic, or nothing.\<close>

datatype outcome = Reply node_reply | Panicked panic | NeverReplies

section \<open>Starting\<close>

datatype start_failure = NoPeers | NoDataDir | EpochUnreadable | PartitionPanics part_panic

text \<open>
  \<open>main\<close> up to the partition: \<open>mkdir\<close> tells whether the data directory can be made,
  \<open>path\<close> is the epoch file in it. Only primary replication has a ring, and needs peers
  (\<open>[]\<close> is the flag left empty). The membership is started last; a node starts without one
  and \<open>NSwim\<close> gives it one.
\<close>

definition node_start :: "codec \<Rightarrow> (point list \<Rightarrow> point list) \<Rightarrow> node_config \<Rightarrow> string list \<Rightarrow> bool \<Rightarrow> bool \<Rightarrow>
    open_io \<Rightarrow> gotime \<Rightarrow> string \<Rightarrow> files \<Rightarrow> disk \<Rightarrow> start_failure + node" where
  "node_start c psrt cfg peers mkdir readable io now path fs d =
     (let r = (if nc_primary cfg then ring_new psrt peers else \<lparr>points = [], nodes = []\<rparr>)
      in if nc_primary cfg \<and> peers = [] then Inl NoPeers
         else if \<not> mkdir then Inl NoDataDir
         else (case fencer_load readable path fs of
             Inl err \<Rightarrow> Inl EpochUnreadable
           | Inr f \<Rightarrow>
               (case part_open c io now (nc_dir cfg) (nc_window cfg) (nc_topk cfg) (nc_queue cfg)
                    (nc_noidem cfg) (nc_batch cfg) d of
                  Inl err \<Rightarrow> Inl (PartitionPanics err)
                | Inr (p, d') \<Rightarrow>
                    Inr \<lparr>nd_part = p, nd_stale = [], nd_disk = d', nd_fencer = f, nd_files = fs, nd_rs = rs_init,
                         nd_ring = r, nd_swim = None, nd_pending = [], nd_next = 0, nd_loaders = []\<rparr>)))"

section \<open>Admission\<close>

definition parse_epoch :: "string \<Rightarrow> u64" where
  "parse_epoch hdr = fst (parse_uint hdr)"

definition check_epoch :: "persist_io \<Rightarrow> string \<Rightarrow> node \<Rightarrow> node_reply option \<times> node" where
  "check_epoch io hdr nd =
     (let e = parse_epoch hdr;
          ((ok, seen), f, fs) = fencer_check io e (nd_fencer nd, nd_files nd)
      in (if ok then None else Some (StaleEpoch e seen), nd\<lparr>nd_fencer := f, nd_files := fs\<rparr>))"

definition check_shedding :: "node \<Rightarrow> node_reply option" where
  "check_shedding nd =
     (if queue_depth (nd_part nd) \<ge> queue_cap (nd_part nd)
      then Some (NodeOverloaded (queue_depth (nd_part nd)) (queue_cap (nd_part nd))) else None)"

definition add_pending :: "req_kind \<Rightarrow> req_stage \<Rightarrow> event_request \<Rightarrow> u64 \<Rightarrow> node \<Rightarrow> node" where
  "add_pending kind stage req e nd =
     nd\<lparr>nd_pending := nd_pending nd @
          [\<lparr>pd_num = nd_next nd, pd_kind = kind, pd_stage = stage, pd_req = req, pd_epoch = e\<rparr>],
        nd_next := nd_next nd + 1\<rparr>"

text \<open>
  The two write handlers up to the point where they touch the buffer or the partition;
  \<open>body\<close> is \<open>None\<close> when it does not decode. The guards take the locks of the fencer, of the
  queue and of the reshard state one after the other, and are one step here. The two reads
  of the reshard state agree with one read of both at a moment in between
  (\<open>check_and_loading_as_one\<close>); a higher epoch that arrives after the epoch check, but
  before the other guards, counts as arriving after the admission.
\<close>

definition admit :: "req_kind \<Rightarrow> persist_io \<Rightarrow> string \<Rightarrow> event_request option \<Rightarrow> node \<Rightarrow>
    outcome list \<times> node" where
  "admit kind io hdr body nd =
     (case check_epoch io hdr nd of
        (Some r, nd1) \<Rightarrow> ([Reply r], nd1)
      | (None, nd1) \<Rightarrow>
          (case check_shedding nd1 of
             Some r \<Rightarrow> ([Reply r], nd1)
           | None \<Rightarrow>
               (case body of
                  None \<Rightarrow> ([Reply BadRequest], nd1)
                | Some req \<Rightarrow>
                    if er_id req = [] \<or> er_key req = [] then ([Reply BadRequest], nd1)
                    else (case rs_check (nd_rs nd1) of
                        Some err \<Rightarrow> ([Reply (NotNow err)], nd1)
                      | None \<Rightarrow>
                          if is_loading (nd_rs nd1)
                          then ([], add_pending kind ToBuffer req (parse_epoch hdr) nd1)
                          else ([], add_pending kind ToApply req (parse_epoch hdr) nd1)))))"

section \<open>The buffer and the partition\<close>

definition set_stage :: "nat \<Rightarrow> req_stage \<Rightarrow> node \<Rightarrow> node" where
  "set_stage n stage nd =
     nd\<lparr>nd_pending := List.map (\<lambda>pd. if pd_num pd = n then pd\<lparr>pd_stage := stage\<rparr> else pd) (nd_pending nd)\<rparr>"

definition drop_pending :: "nat \<Rightarrow> node \<Rightarrow> node" where
  "drop_pending n nd = nd\<lparr>nd_pending := filter (\<lambda>pd. pd_num pd \<noteq> n) (nd_pending nd)\<rparr>"

definition pending_of :: "nat \<Rightarrow> node \<Rightarrow> pending option" where
  "pending_of n nd = find (\<lambda>pd. pd_num pd = n) (nd_pending nd)"

text \<open>The branch of the handlers for a node that is loading.\<close>

definition send_to_buffer :: "pending \<Rightarrow> node \<Rightarrow> outcome list \<times> node" where
  "send_to_buffer pd nd =
     (let w = \<lparr>bw_id = er_id (pd_req pd), bw_key = er_key (pd_req pd), bw_value = er_value (pd_req pd)\<rparr>;
          nd1 = drop_pending (pd_num pd) (nd\<lparr>nd_rs := buffer_write w (nd_rs nd)\<rparr>)
      in ([Reply (if pd_kind pd = ReplicaEvent then NoContentReply else BufferedReply)], nd1))"

text \<open>\<open>getPartition().Apply\<close> up to the send of the command.\<close>

definition send_to_partition :: "pending \<Rightarrow> node \<Rightarrow> node" where
  "send_to_partition pd nd =
     (let cmd = \<lparr>ac_id = er_id (pd_req pd), ac_key = er_key (pd_req pd), ac_value = er_value (pd_req pd),
                 ac_reply = pd_num pd\<rparr>
      in set_stage (pd_num pd) Waiting (nd\<lparr>nd_part := part_enqueue cmd (nd_part nd)\<rparr>))"

section \<open>Replication by the primary\<close>

definition post_replicate :: "http_answer \<Rightarrow> bool" where
  "post_replicate a =
     (case a of NetError \<Rightarrow> False | Status st \<Rightarrow> st = 204 \<or> st = 200 \<or> st = 201 \<or> st = 202)"

text \<open>The loop that waits for acknowledgements, in the order in which they arrive.\<close>

fun await_acks :: "int \<Rightarrow> int \<Rightarrow> bool list \<Rightarrow> bool" where
  "await_acks need acks [] = (acks \<ge> need)"
| "await_acks need acks (ok # oks) =
     (let acks' = (if ok then acks + 1 else acks)
      in if acks' \<ge> need then True else await_acks need acks' oks)"

definition fan_targets :: "node_config \<Rightarrow> string list \<Rightarrow> node \<Rightarrow> string list" where
  "fan_targets cfg replicas nd =
     filter (\<lambda>a. a \<noteq> nc_self cfg \<and>
       (case nd_swim nd of None \<Rightarrow> True | Some m \<Rightarrow> a \<in> live_http_addrs m)) replicas"

text \<open>\<open>order\<close> permutes the targets into the order in which their answers arrive.\<close>

record fan_env =
  fe_order :: "string list \<Rightarrow> string list"
  fe_answer :: "string \<Rightarrow> http_answer"

definition fan_out_replicate :: "node_config \<Rightarrow> fan_env \<Rightarrow> string \<Rightarrow> node \<Rightarrow> (panic + bool) option" where
  "fan_out_replicate cfg env key nd =
     (case ring_replicas (nd_ring nd) key (nc_rf cfg) of
        None \<Rightarrow> None
      | Some (Inl err) \<Rightarrow> Some (Inl err)
      | Some (Inr replicas) \<Rightarrow>
          Some (Inr (await_acks (nc_w cfg - 1) 0
            (List.map (\<lambda>a. post_replicate (fe_answer env a)) (fe_order env (fan_targets cfg replicas nd))))))"

text \<open>The handlers after the partition's reply.\<close>

definition reply_to :: "node_config \<Rightarrow> fan_env \<Rightarrow> pending \<Rightarrow> apply_result \<Rightarrow> node \<Rightarrow> outcome list" where
  "reply_to cfg env pd res nd =
     (case res of (e, fresh) \<Rightarrow>
        case pd_kind pd of
          LoaderEvent k \<Rightarrow> []
        | ReplicaEvent \<Rightarrow> [Reply NoContentReply]
        | ClientEvent \<Rightarrow>
            if \<not> fresh then [Reply (DuplicateReply (e_offset e))]
            else if nc_primary cfg
            then (case fan_out_replicate cfg env (er_key (pd_req pd)) nd of
                None \<Rightarrow> [NeverReplies]
              | Some (Inl err) \<Rightarrow> [Panicked err]
              | Some (Inr True) \<Rightarrow> [Reply (CreatedReply (e_offset e))]
              | Some (Inr False) \<Rightarrow> [Reply (QuorumMissed (nc_w cfg))])
            else [Reply (CreatedReply (e_offset e))])"

text \<open>
  The partition serves applies; each reply goes to the request that waits for it, which is
  then done. \<open>env n\<close> is what the fan-out of request \<open>n\<close> meets.
\<close>

fun deliver :: "node_config \<Rightarrow> (nat \<Rightarrow> fan_env) \<Rightarrow> reply list \<Rightarrow> node \<Rightarrow> (nat \<times> outcome) list \<times> node" where
  "deliver cfg env [] nd = ([], nd)"
| "deliver cfg env (Applied n res # rs) nd =
     (let (outs, nd') = deliver cfg env rs (drop_pending n nd)
      in case pending_of n nd of
           None \<Rightarrow> (outs, nd')
         | Some pd \<Rightarrow> (List.map (Pair n) (reply_to cfg (env n) pd res nd) @ outs, nd'))"
| "deliver cfg env (r # rs) nd = deliver cfg env rs nd"

definition serve :: "codec \<Rightarrow> node_config \<Rightarrow> (nat \<Rightarrow> fan_env) \<Rightarrow> gotime \<Rightarrow> node \<Rightarrow> (nat \<times> outcome) list \<times> node" where
  "serve c cfg env now nd =
     (let (out, p, d) = part_step c id (PApply now) (nd_part nd, nd_disk nd)
      in deliver cfg env out (nd\<lparr>nd_part := p, nd_disk := d\<rparr>))"

text \<open>A replaced partition goes on serving the commands it was sent.\<close>

definition serve_stale :: "codec \<Rightarrow> node_config \<Rightarrow> (nat \<Rightarrow> fan_env) \<Rightarrow> nat \<Rightarrow> gotime \<Rightarrow> node \<Rightarrow>
    (nat \<times> outcome) list \<times> node" where
  "serve_stale c cfg env k now nd =
     (let (out, p, d) = part_step c id (PApply now) (nd_stale nd ! k, nd_disk nd)
      in deliver cfg env out (nd\<lparr>nd_stale := (nd_stale nd)[k := p], nd_disk := d\<rparr>))"

section \<open>Reads\<close>

definition handle_aggregates :: "codec \<Rightarrow> (top_entry list \<Rightarrow> top_entry list) \<Rightarrow> gotime \<Rightarrow> gotime \<Rightarrow> node \<Rightarrow>
    reply list \<times> node" where
  "handle_aggregates c srt now now' nd =
     (let (out, p, d) = part_step c srt (PQuery now now') (nd_part nd, nd_disk nd)
      in (out, nd\<lparr>nd_part := p, nd_disk := d\<rparr>))"

text \<open>\<open>None\<close> is status 404.\<close>

definition handle_snapshot :: "codec \<Rightarrow> node_config \<Rightarrow> node \<Rightarrow> snapshot option" where
  "handle_snapshot c cfg nd = (if nc_dir cfg = [] then None else load_snapshot c (nd_disk nd))"

text \<open>\<open>q\<close> is the parameter \<open>from\<close>; \<open>None\<close> is status 400.\<close>

definition handle_log :: "string \<Rightarrow> node \<Rightarrow> entry list option" where
  "handle_log q nd =
     (let l = pt_log (nd_part nd)
      in if q \<noteq> []
         then (case parse_uint q of (v, None) \<Rightarrow> Some (log_since v l) | (v, Some err) \<Rightarrow> None)
         else Some (log_since (log_base_offset l) l))"

record health =
  h_depth :: int
  h_cap :: int
  h_overloaded :: bool
  h_epoch :: u64
  h_reshard :: string

definition handle_health :: "node \<Rightarrow> health" where
  "handle_health nd =
     \<lparr>h_depth = queue_depth (nd_part nd), h_cap = queue_cap (nd_part nd),
      h_overloaded = (queue_depth (nd_part nd) \<ge> queue_cap (nd_part nd)),
      h_epoch = fencer_seen (nd_fencer nd), h_reshard = status_string (nd_rs nd)\<rparr>"

section \<open>Resharding\<close>

text \<open>The session in the body, \<open>None\<close> when it does not decode; the result is the status.\<close>

definition handle_freeze :: "string option \<Rightarrow> node \<Rightarrow> nat \<times> node" where
  "handle_freeze body nd =
     (case body of
        None \<Rightarrow> (400, nd)
      | Some sid \<Rightarrow>
          if sid = [] then (400, nd)
          else (case freeze sid (nd_rs nd) of
              Inl err \<Rightarrow> (409, nd)
            | Inr r \<Rightarrow> (200, nd\<lparr>nd_rs := r\<rparr>)))"

definition handle_thaw :: "string option \<Rightarrow> node \<Rightarrow> nat \<times> node" where
  "handle_thaw body nd =
     (case body of
        None \<Rightarrow> (400, nd)
      | Some sid \<Rightarrow>
          if sid = [] then (400, nd)
          else (case thaw sid (nd_rs nd) of
              Inl err \<Rightarrow> (409, nd)
            | Inr r \<Rightarrow> (204, nd\<lparr>nd_rs := r\<rparr>)))"

definition handle_abort :: "node \<Rightarrow> nat \<times> node" where
  "handle_abort nd = (204, nd\<lparr>nd_rs := finish_load (nd_rs nd)\<rparr>)"

definition handle_load :: "load_request option \<Rightarrow> node \<Rightarrow> nat \<times> node" where
  "handle_load body nd =
     (case body of
        None \<Rightarrow> (400, nd)
      | Some req \<Rightarrow>
          if lr_session req = [] \<or> lr_source req = [] then (400, nd)
          else (case start_load (lr_session req) (nd_rs nd) of
              Inl err \<Rightarrow> (409, nd)
            | Inr r \<Rightarrow> (200, nd\<lparr>nd_rs := r,
                               nd_loaders := nd_loaders nd @ [Fetching (lr_source req) (lr_epoch req)]\<rparr>)))"

text \<open>
  What a load meets: the snapshot of the source, when the request succeeds and decodes; the
  writing of it; the tail of the source's log from an offset, when it arrives and decodes;
  and the opening of the new partition. Renaming is tried even after a failed write, which
  may have left part of the content (\<open>WriteLeft\<close>).
\<close>

datatype save_io = Saved | WriteLeft "bytes option" | NotRenamed

record load_env =
  le_snap :: "snapshot option"
  le_save :: save_io
  le_tail :: "u64 \<Rightarrow> entry list option"
  le_open :: open_io
  le_now :: gotime
  le_clock :: "nat \<Rightarrow> gotime"

definition save_snapshot :: "codec \<Rightarrow> save_io \<Rightarrow> snapshot \<Rightarrow> disk \<Rightarrow> disk" where
  "save_snapshot c io snap d =
     (let d1 = d\<lparr>wal_file := None, snap_file := None\<rparr>; data = enc_snap c snap
      in case io of
           Saved \<Rightarrow> d1\<lparr>snap_file := Some data, snap_tmp := None\<rparr>
         | WriteLeft None \<Rightarrow> d1
         | WriteLeft (Some part) \<Rightarrow> d1\<lparr>snap_file := Some part, snap_tmp := None\<rparr>
         | NotRenamed \<Rightarrow> d1\<lparr>snap_tmp := Some data\<rparr>)"

text \<open>
  Removing the write-ahead file leaves the running partition with an open file that has no
  name: what it writes is lost, like writes to a closed file.
\<close>

definition detach :: "partition \<Rightarrow> partition" where
  "detach p =
     (if l_wal (pt_log p) = OpenWal then p\<lparr>pt_log := (pt_log p)\<lparr>l_wal := ClosedWal\<rparr>\<rparr> else p)"

text \<open>\<open>newP.Apply\<close> for each entry of the tail; no one else uses the new partition yet.\<close>

fun apply_tail :: "codec \<Rightarrow> (nat \<Rightarrow> gotime) \<Rightarrow> nat \<Rightarrow> entry list \<Rightarrow> partition \<times> disk \<Rightarrow> partition \<times> disk" where
  "apply_tail c at i [] s = s"
| "apply_tail c at i (e # es) s =
     (let (p, d) = s;
          cmd = \<lparr>ac_id = e_id e, ac_key = e_key e, ac_value = e_value e, ac_reply = 0\<rparr>;
          (out, s') = part_step c id (PApply (at i)) (part_enqueue cmd p, d)
      in apply_tail c at (i + 1) es s')"

datatype load_result = LoadFailed node | LoadPanics part_panic | LoadDone node

definition load_from_source :: "codec \<Rightarrow> node_config \<Rightarrow> load_env \<Rightarrow> persist_io \<Rightarrow> u64 \<Rightarrow> node \<Rightarrow> load_result" where
  "load_from_source c cfg env io epoch nd =
     (let (base, nd1) =
            (case le_snap env of
               None \<Rightarrow> (0, nd)
             | Some snap \<Rightarrow>
                 (s_base snap,
                  if nc_dir cfg \<noteq> []
                  then nd\<lparr>nd_disk := save_snapshot c (le_save env) snap (nd_disk nd), nd_part := detach (nd_part nd)\<rparr>
                  else nd))
      in case le_tail env base of
           None \<Rightarrow> LoadFailed nd1
         | Some entries \<Rightarrow>
             (let nd2 = (if nc_dir cfg \<noteq> []
                         then nd1\<lparr>nd_disk := (nd_disk nd1)\<lparr>wal_file := None\<rparr>, nd_part := detach (nd_part nd1)\<rparr>
                         else nd1)
              in case part_open c (le_open env) (le_now env) (nc_dir cfg) (nc_window cfg) (nc_topk cfg)
                   (nc_queue cfg) (nc_noidem cfg) (nc_batch cfg) (nd_disk nd2) of
                   Inl err \<Rightarrow> LoadPanics err
                 | Inr s \<Rightarrow>
                     (let (p, d) = apply_tail c (le_clock env) 0 entries s;
                          nd3 = nd2\<lparr>nd_part := p, nd_disk := d, nd_stale := nd_stale nd2 @ [nd_part nd2]\<rparr>;
                          (f, fs) = (if epoch > 0 then snd (fencer_check io epoch (nd_fencer nd3, nd_files nd3))
                                     else (nd_fencer nd3, nd_files nd3))
                      in LoadDone (nd3\<lparr>nd_fencer := f, nd_files := fs\<rparr>))))"

text \<open>\<open>env\<close> is the environment variable, \<open>parse\<close> is \<open>time.ParseDuration\<close>.\<close>

definition suspect_timeout_hint :: "(string \<Rightarrow> duration option) \<Rightarrow> string \<Rightarrow> duration" where
  "suspect_timeout_hint parse env =
     (if env \<noteq> [] then (case parse env of Some d \<Rightarrow> d | None \<Rightarrow> 10 * second) else 10 * second)"

text \<open>
  The steps of the loading goroutine: \<open>LoadStep\<close> runs \<open>loadFromSource\<close>, \<open>Go\<close> the next
  statement, \<open>Deadline\<close> sets the end of the catch-up, and \<open>Poll\<close> is a round of it at a
  time, with the source's answer. An apply waits for the partition's reply before the next.
\<close>

datatype loader_env =
    LoadStep load_env persist_io
  | Go
  | Deadline gotime duration
  | Poll gotime "u64 \<Rightarrow> entry list option"

definition loader_apply :: "nat \<Rightarrow> string \<Rightarrow> string \<Rightarrow> bytes \<Rightarrow> node \<Rightarrow> node" where
  "loader_apply k i key v nd =
     add_pending (LoaderEvent k) ToApply \<lparr>er_id = i, er_key = key, er_value = v\<rparr> 0 nd"

definition set_loader :: "nat \<Rightarrow> loader \<Rightarrow> node \<Rightarrow> node" where
  "set_loader k ld nd = nd\<lparr>nd_loaders := (nd_loaders nd)[k := ld]\<rparr>"

definition loader_waits :: "nat \<Rightarrow> node \<Rightarrow> bool" where
  "loader_waits k nd = list_ex (\<lambda>pd. pd_kind pd = LoaderEvent k) (nd_pending nd)"

text \<open>
  One round of \<open>catchUpFromSource\<close>: \<open>tail\<close> is the source's answer for an offset, \<open>None\<close> when
  it does not come or does not decode. The entries it brings are applied one by one.
\<close>

definition catch_up_round :: "nat \<Rightarrow> string \<Rightarrow> gotime \<Rightarrow> gotime \<Rightarrow> (u64 \<Rightarrow> entry list option) \<Rightarrow> node \<Rightarrow> node" where
  "catch_up_round k src deadline now tail nd =
     (if now < deadline
      then (case tail (log_head (pt_log (nd_part nd))) of
              None \<Rightarrow> nd
            | Some es \<Rightarrow> set_loader k (CatchingUp src deadline es) nd)
      else set_loader k LoaderDone nd)"

text \<open>The result is \<open>Inl\<close> when the goroutine panics, which ends the process.\<close>

fun loader_go :: "codec \<Rightarrow> node_config \<Rightarrow> nat \<Rightarrow> loader_env \<Rightarrow> loader \<Rightarrow> node \<Rightarrow> part_panic + node" where
  "loader_go c cfg k (LoadStep env io) (Fetching src epoch) nd =
     (case load_from_source c cfg env io epoch nd of
        LoadPanics err \<Rightarrow> Inl err
      | LoadFailed nd1 \<Rightarrow> Inr (set_loader k LoaderDone (nd1\<lparr>nd_rs := finish_load (nd_rs nd1)\<rparr>))
      | LoadDone nd1 \<Rightarrow> Inr (set_loader k (Draining src) nd1))"
| "loader_go c cfg k Go (Draining src) nd =
     (let (bws, r) = drain_buffer (nd_rs nd) in Inr (set_loader k (Finishing src bws) (nd\<lparr>nd_rs := r\<rparr>)))"
| "loader_go c cfg k Go (Finishing src bws) nd =
     Inr (set_loader k (Replaying src bws) (nd\<lparr>nd_rs := finish_load (nd_rs nd)\<rparr>))"
| "loader_go c cfg k Go (Replaying src (bw # bws)) nd =
     Inr (set_loader k (Replaying src bws) (loader_apply k (bw_id bw) (bw_key bw) (bw_value bw) nd))"
| "loader_go c cfg k (Deadline now hint) (Replaying src []) nd =
     Inr (set_loader k (CatchingUp src (now + 4 * hint) []) nd)"
| "loader_go c cfg k Go (CatchingUp src deadline (e # es)) nd =
     Inr (set_loader k (CatchingUp src deadline es) (loader_apply k (e_id e) (e_key e) (e_value e) nd))"
| "loader_go c cfg k (Poll now tail) (CatchingUp src deadline []) nd = Inr (catch_up_round k src deadline now tail nd)"
| "loader_go c cfg k env ld nd = Inr nd"

definition loader_step :: "codec \<Rightarrow> node_config \<Rightarrow> nat \<Rightarrow> loader_env \<Rightarrow> node \<Rightarrow> part_panic + node" where
  "loader_step c cfg k env nd =
     (if k < length (nd_loaders nd) \<and> \<not> loader_waits k nd
      then loader_go c cfg k env (nd_loaders nd ! k) nd else Inr nd)"

section \<open>Membership changes\<close>

definition watch_node_ring :: "(point list \<Rightarrow> point list) \<Rightarrow> event \<Rightarrow> ring \<Rightarrow> ring" where
  "watch_node_ring srt ev r =
     (if ev_http ev = [] then r
      else (case ev_type ev of
          EventJoin \<Rightarrow> ring_add srt (ev_http ev) r
        | EventDead \<Rightarrow> ring_remove (ev_http ev) r))"

section \<open>The node as a machine\<close>

datatype node_event =
    NAdmit req_kind persist_io string "event_request option"
  | NSend nat
  | NServe gotime "nat \<Rightarrow> fan_env"
  | NServeStale nat gotime "nat \<Rightarrow> fan_env"
  | NQuery gotime gotime
  | NCompact gotime compact_io
  | NCompactStale nat gotime compact_io
  | NFreeze "string option"
  | NThaw "string option"
  | NAbort
  | NLoad "load_request option"
  | NLoader nat loader_env
  | NWatch event
  | NSwim swim

text \<open>
  One step, with the replies it sends. A panic of the loading goroutine ends the process:
  the state stays as it was.
\<close>

fun node_step :: "codec \<Rightarrow> (top_entry list \<Rightarrow> top_entry list) \<Rightarrow> (point list \<Rightarrow> point list) \<Rightarrow> node_config \<Rightarrow>
    node_event \<Rightarrow> node \<Rightarrow> (nat \<times> outcome) list \<times> node" where
  "node_step c srt psrt cfg (NAdmit kind io hdr body) nd =
     (let (outs, nd') = admit kind io hdr body nd
      in (List.map (Pair (nd_next nd)) outs, if outs = [] then nd' else nd'\<lparr>nd_next := nd_next nd' + 1\<rparr>))"
| "node_step c srt psrt cfg (NSend n) nd =
     (case pending_of n nd of
        None \<Rightarrow> ([], nd)
      | Some pd \<Rightarrow>
          (case pd_stage pd of
             ToBuffer \<Rightarrow> (let (outs, nd') = send_to_buffer pd nd in (List.map (Pair n) outs, nd'))
           | ToApply \<Rightarrow> ([], send_to_partition pd nd)
           | Waiting \<Rightarrow> ([], nd)))"
| "node_step c srt psrt cfg (NServe now env) nd = serve c cfg env now nd"
| "node_step c srt psrt cfg (NServeStale k now env) nd =
     (if k < length (nd_stale nd) then serve_stale c cfg env k now nd else ([], nd))"
| "node_step c srt psrt cfg (NQuery now now') nd = ([], snd (handle_aggregates c srt now now' nd))"
| "node_step c srt psrt cfg (NCompact now io) nd =
     (let (_, p, d) = part_step c srt (PCompact now io) (nd_part nd, nd_disk nd)
      in ([], nd\<lparr>nd_part := p, nd_disk := d\<rparr>))"
| "node_step c srt psrt cfg (NCompactStale k now io) nd =
     (if k < length (nd_stale nd)
      then (let (_, p, d) = part_step c srt (PCompact now io) (nd_stale nd ! k, nd_disk nd)
            in ([], nd\<lparr>nd_stale := (nd_stale nd)[k := p], nd_disk := d\<rparr>))
      else ([], nd))"
| "node_step c srt psrt cfg (NFreeze body) nd = ([], snd (handle_freeze body nd))"
| "node_step c srt psrt cfg (NThaw body) nd = ([], snd (handle_thaw body nd))"
| "node_step c srt psrt cfg NAbort nd = ([], snd (handle_abort nd))"
| "node_step c srt psrt cfg (NLoad body) nd = ([], snd (handle_load body nd))"
| "node_step c srt psrt cfg (NLoader k env) nd =
     (case loader_step c cfg k env nd of Inl _ \<Rightarrow> ([], nd) | Inr nd' \<Rightarrow> ([], nd'))"
| "node_step c srt psrt cfg (NWatch ev) nd = ([], nd\<lparr>nd_ring := watch_node_ring psrt ev (nd_ring nd)\<rparr>)"
| "node_step c srt psrt cfg (NSwim m) nd = ([], nd\<lparr>nd_swim := Some m\<rparr>)"

end
