(* ===== verification/NodeWrites.thy ===== *)
theory NodeWrites
  imports Node
begin

text \<open>
  The invariant of a node, which ties the requests in service to the commands in the
  channels of its partitions, its preservation by every step, and the facts on served
  applies and delivered replies that the properties of the node share.
\<close>

section \<open>Serving applies\<close>

abbreviation served :: "partition \<Rightarrow> apply_cmd list" where
  "served p \<equiv> take (nat (pt_batch p)) (pt_apply p)"

lemma reply_all_replies:
  "length cmds = length rs \<Longrightarrow>
    fst (reply_all cmds rs agg) = List.map2 (\<lambda>cmd r. Applied (ac_reply cmd) r) cmds rs"
  by (induction cmds rs arbitrary: agg rule: list_induct2) (auto simp: case_prod_beta Let_def)

lemma append_all_length: "length (fst (append_all c now reqs s)) = length reqs"
proof (induction reqs arbitrary: s)
  case (Cons r reqs)
  then show ?case by (cases r) (simp add: case_prod_beta)
qed simp

lemma apply_step:
  assumes "1 \<le> pt_batch p" and "part_step c srt (PApply now) (p, d) = (out, p', d')"
  shows "\<exists>rs. append_all c now (List.map request (served p)) (pt_log p, d) = (rs, pt_log p', d') \<and>
    out = List.map2 (\<lambda>cmd r. Applied (ac_reply cmd) r) (served p) rs \<and>
    pt_apply p' = drop (nat (pt_batch p)) (pt_apply p) \<and> pt_batch p' = pt_batch p \<and>
    length rs = length (served p)"
proof -
  let ?k = "min (nat (pt_batch p)) (length (pt_apply p))" and ?q = "p\<lparr>pt_batch := 1\<rparr>"
  obtain rs l d1 where a: "append_all c now (List.map request (served p)) (pt_log p, d) = (rs, l, d1)"
    by (rule prod_cases3)
  obtain out1 agg where r: "reply_all (served p) rs (pt_agg p) = (out1, agg)" by fastforce
  have k: "length (served p) = ?k" by (simp add: min_def)
  have "pt_apply ?q = served p @ drop (nat (pt_batch p)) (pt_apply p)" by simp
  then have "part_run c srt (replicate ?k (PApply now)) (?q, d) =
      (out1, ?q\<lparr>pt_log := l, pt_agg := agg, pt_apply := drop (nat (pt_batch p)) (pt_apply p)\<rparr>, d1)"
    using singles [of ?q "served p" "drop (nat (pt_batch p)) (pt_apply p)" c srt now d] a r unfolding k by simp
  then have "out = out1" "p' = p\<lparr>pt_log := l, pt_agg := agg, pt_apply := drop (nat (pt_batch p)) (pt_apply p)\<rparr>" "d' = d1"
    using batch_as_singles [OF assms(1), of c srt now d] assms(2) by auto
  moreover have len: "length (served p) = length rs"
    using append_all_length [of c now "List.map request (served p)" "(pt_log p, d)"] unfolding a by simp
  moreover have "out1 = List.map2 (\<lambda>cmd r. Applied (ac_reply cmd) r) (served p) rs"
    using reply_all_replies [OF len, of "pt_agg p"] unfolding r by simp
  ultimately show ?thesis using a by simp
qed

declare part_step.simps(2) [simp del]

section \<open>Delivering replies\<close>

fun reply_nums :: "reply list \<Rightarrow> nat list" where
  "reply_nums [] = []"
| "reply_nums (Applied n r # rs) = n # reply_nums rs"
| "reply_nums (r # rs) = reply_nums rs"

lemma reply_nums_map2:
  "length cmds = length rs \<Longrightarrow>
    reply_nums (List.map2 (\<lambda>cmd r. Applied (ac_reply cmd) r) cmds rs) = List.map ac_reply cmds"
  by (induction cmds rs rule: list_induct2) auto

lemma drop_pending_simps [simp]:
  "nd_pending (drop_pending n nd) = filter (\<lambda>pd. pd_num pd \<noteq> n) (nd_pending nd)"
  "nd_part (drop_pending n nd) = nd_part nd" "nd_stale (drop_pending n nd) = nd_stale nd"
  "nd_disk (drop_pending n nd) = nd_disk nd" "nd_ring (drop_pending n nd) = nd_ring nd"
  "nd_swim (drop_pending n nd) = nd_swim nd" "nd_next (drop_pending n nd) = nd_next nd"
  "nd_fencer (drop_pending n nd) = nd_fencer nd" "nd_files (drop_pending n nd) = nd_files nd"
  "nd_rs (drop_pending n nd) = nd_rs nd" "nd_loaders (drop_pending n nd) = nd_loaders nd"
  by (simp_all add: drop_pending_def)

lemma deliver_state:
  "snd (deliver cfg env rs nd) =
    nd\<lparr>nd_pending := filter (\<lambda>pd. pd_num pd \<notin> set (reply_nums rs)) (nd_pending nd)\<rparr>"
proof (induction cfg env rs nd rule: deliver.induct)
  case (2 cfg env n res rs nd)
  then have "snd (deliver cfg env (Applied n res # rs) nd) = snd (deliver cfg env rs (drop_pending n nd))"
    by (simp add: case_prod_beta Let_def split: option.split)
  also have "\<dots> = nd\<lparr>nd_pending := filter (\<lambda>pd. pd_num pd \<notin> set (reply_nums (Applied n res # rs))) (nd_pending nd)\<rparr>"
    unfolding 2 by (simp add: drop_pending_def conj_commute)
  finally show ?case .
qed simp_all

lemma fan_out_cong:
  "nd_ring nd' = nd_ring nd \<Longrightarrow> nd_swim nd' = nd_swim nd \<Longrightarrow>
    fan_out_replicate cfg env key nd' = fan_out_replicate cfg env key nd"
proof -
  assume "nd_ring nd' = nd_ring nd" "nd_swim nd' = nd_swim nd"
  moreover from this have "fan_targets cfg rs nd' = fan_targets cfg rs nd" for rs
    by (simp add: fan_targets_def)
  ultimately show ?thesis by (simp only: fan_out_replicate_def)
qed

lemma reply_to_cong:
  "nd_ring nd' = nd_ring nd \<Longrightarrow> nd_swim nd' = nd_swim nd \<Longrightarrow> reply_to cfg env pd res nd' = reply_to cfg env pd res nd"
  unfolding reply_to_def fan_out_cong [of nd' nd] by (simp only: fan_out_cong [of nd' nd])

lemma find_filter: "(\<And>x. P x \<Longrightarrow> Q x) \<Longrightarrow> find P (filter Q xs) = find P xs"
  by (induction xs) auto

lemma pending_of_drop: "pending_of m (drop_pending n nd) = (if m = n then None else pending_of m nd)"
  using find_filter [of "\<lambda>pd. pd_num pd = m" "\<lambda>pd. pd_num pd \<noteq> n" "nd_pending nd"]
  by (auto simp: pending_of_def find_None_iff)

lemma deliver_outs:
  assumes "(n, oc) \<in> set (fst (deliver cfg env rs nd))"
  shows "\<exists>res pd. Applied n res \<in> set rs \<and> pending_of n nd = Some pd \<and> oc \<in> set (reply_to cfg (env n) pd res nd)"
  using assms
proof (induction cfg env rs nd rule: deliver.induct)
  case (2 cfg env m res rs nd)
  let ?d = "deliver cfg env rs (drop_pending m nd)"
  have "reply_to cfg (env n) pd res' (drop_pending m nd) = reply_to cfg (env n) pd res' nd" for pd res'
    by (rule reply_to_cong) simp_all
  then have later: "?case" if "(n, oc) \<in> set (fst ?d)"
    using 2(1) [OF that] by (auto simp: pending_of_drop split: if_splits)
  show ?case
  proof (cases "pending_of m nd")
    case None
    with "2.prems" later show ?thesis by (simp add: case_prod_beta Let_def)
  next
    case (Some pd)
    with "2.prems" consider "(n, oc) \<in> set (fst ?d)" | "n = m" "oc \<in> set (reply_to cfg (env m) pd res nd)"
      by (auto simp: case_prod_beta Let_def)
    then show ?thesis
    proof cases
      case 1
      then show ?thesis by (rule later)
    next
      case 2
      with Some show ?thesis by (intro exI [of _ res] exI [of _ pd]) simp
    qed
  qed
qed auto

lemma pending_ofD: "pending_of n nd = Some pd \<Longrightarrow> pd \<in> set (nd_pending nd) \<and> pd_num pd = n"
  by (auto simp: pending_of_def find_Some_iff)

lemma find_app: "find P (xs @ ys) = (case find P xs of None \<Rightarrow> find P ys | Some x \<Rightarrow> Some x)"
  by (induction xs) auto

section \<open>The invariant\<close>

text \<open>
  The commands in the channels of all partitions, and the requests that wait for a reply,
  each as its number and contents.
\<close>

definition queues :: "node \<Rightarrow> apply_cmd list" where
  "queues nd = pt_apply (nd_part nd) @ concat (List.map pt_apply (nd_stale nd))"

abbreviation cmd_tag :: "apply_cmd \<Rightarrow> nat \<times> string \<times> string \<times> bytes" where
  "cmd_tag cmd \<equiv> (ac_reply cmd, ac_id cmd, ac_key cmd, ac_value cmd)"

abbreviation pending_tag :: "pending \<Rightarrow> nat \<times> string \<times> string \<times> bytes" where
  "pending_tag pd \<equiv> (pd_num pd, er_id (pd_req pd), er_key (pd_req pd), er_value (pd_req pd))"

definition waiting :: "node \<Rightarrow> pending list" where
  "waiting nd = filter (\<lambda>pd. pd_stage pd = Waiting) (nd_pending nd)"

definition requests_ok :: "node \<Rightarrow> bool" where
  "requests_ok nd \<longleftrightarrow> distinct (List.map pd_num (nd_pending nd)) \<and>
     (\<forall>pd\<in>set (nd_pending nd). pd_num pd < nd_next nd) \<and>
     mset (List.map cmd_tag (queues nd)) = mset (List.map pending_tag (waiting nd))"

definition partition_ok :: "partition \<Rightarrow> bool" where
  "partition_ok p \<longleftrightarrow> 1 \<le> pt_batch p \<and> log_ok (pt_log p, empty_disk)"

definition node_ok :: "node \<Rightarrow> bool" where
  "node_ok nd \<longleftrightarrow> requests_ok nd \<and> partition_ok (nd_part nd) \<and> (\<forall>p\<in>set (nd_stale nd). partition_ok p) \<and>
     ring_ok (nd_ring nd)"

lemma log_ok_disk: "log_ok (l, d) \<longleftrightarrow> log_ok (l, d')"
  by (simp add: log_ok_def)

lemma mset_update_concat:
  "k < length xs \<Longrightarrow> mset (concat (List.map f (xs[k := y]))) + mset (f (xs ! k)) = mset (concat (List.map f xs)) + mset (f y)"
proof (induction xs arbitrary: k)
  case (Cons x xs)
  then show ?case by (cases k) (auto simp: ac_simps)
qed simp

lemma next_not_pending:
  "requests_ok nd \<Longrightarrow> find (\<lambda>pd. pd_num pd = nd_next nd) (nd_pending nd) = None"
  by (force simp: requests_ok_def find_None_iff)

text \<open>Serving a list of commands: they leave the channels, and their requests are done.\<close>

lemma requests_served:
  assumes "requests_ok nd" and "mset (queues nd) = mset cmds + mset (queues nd')"
    and "nd_pending nd' = filter (\<lambda>pd. pd_num pd \<notin> ac_reply ` set cmds) (nd_pending nd)"
    and "nd_next nd' = nd_next nd"
  shows "requests_ok nd'"
proof -
  let ?keep = "\<lambda>t :: nat \<times> string \<times> string \<times> bytes. fst t \<notin> ac_reply ` set cmds"
  have eq: "image_mset cmd_tag (mset (queues nd)) = image_mset pending_tag (mset (waiting nd))"
    and dist: "distinct (List.map pd_num (nd_pending nd))"
    using assms(1) by (simp_all add: requests_ok_def)
  have "distinct (List.map pd_num (waiting nd))"
    using dist by (simp add: waiting_def distinct_map_filter)
  moreover have "mset (List.map pd_num (waiting nd)) = image_mset fst (image_mset pending_tag (mset (waiting nd)))"
    by (simp add: image_mset.compositionality comp_def)
  ultimately have "distinct (List.map ac_reply (queues nd))"
    using eq by (metis (no_types, lifting) comp_apply fst_conv image_mset.compositionality image_mset_cong mset_eq_imp_distinct_iff mset_map)
  then have "distinct (List.map ac_reply (cmds @ queues nd'))"
    using assms(2) by (metis mset_append mset_eq_imp_distinct_iff mset_map)
  then have apart: "\<forall>cmd\<in>set (queues nd'). ac_reply cmd \<notin> ac_reply ` set cmds" by auto
  have none: "filter_mset ?keep (image_mset cmd_tag (mset cmds)) = {#}" by auto
  have all: "filter_mset ?keep (image_mset cmd_tag (mset (queues nd'))) = image_mset cmd_tag (mset (queues nd'))"
    using apart by (auto simp: filter_mset_eq_conv)
  have "image_mset cmd_tag (mset (queues nd')) =
      filter_mset ?keep (image_mset cmd_tag (mset cmds) + image_mset cmd_tag (mset (queues nd')))"
    unfolding filter_union_mset none all by simp
  also have "\<dots> = filter_mset ?keep (image_mset pending_tag (mset (waiting nd)))"
    using assms(2) by (simp flip: eq)
  also have "\<dots> = image_mset pending_tag (mset (waiting nd'))"
    by (simp add: filter_mset_image_mset waiting_def assms(3) conj_commute flip: mset_filter)
  finally show ?thesis
    using assms dist by (simp add: requests_ok_def distinct_map_filter)
qed


lemma requests_same:
  assumes "requests_ok nd" and "mset (queues nd') = mset (queues nd)"
    and "nd_pending nd' = nd_pending nd" and "nd_next nd' = nd_next nd"
  shows "requests_ok nd'"
  using requests_served [of nd "[]" nd'] assms by simp

lemma add_pending_ok:
  assumes "requests_ok nd" and "stage \<noteq> Waiting"
  shows "requests_ok (add_pending kind stage req e nd)"
proof -
  have "nd_next nd \<notin> pd_num ` set (nd_pending nd)" using assms(1) by (auto simp: requests_ok_def)
  with assms show ?thesis
    by (auto simp: requests_ok_def add_pending_def queues_def waiting_def less_Suc_eq)
qed

lemma send_to_buffer_ok:
  assumes "requests_ok nd" and "pending_of n nd = Some pd" and "pd_stage pd = ToBuffer"
  shows "requests_ok (snd (send_to_buffer pd nd))"
proof -
  have "pd \<in> set (nd_pending nd)" and n: "pd_num pd = n" using pending_ofD [OF assms(2)] by auto
  then have "q = pd" if "q \<in> set (nd_pending nd)" "pd_num q = n" for q
    using assms(1) that by (auto simp: requests_ok_def distinct_map dest: inj_onD)
  then have "pd_num q \<noteq> n" if "q \<in> set (nd_pending nd)" "pd_stage q = Waiting" for q
    using assms(3) that by force
  then have "waiting (snd (send_to_buffer pd nd)) = waiting nd"
    using n by (auto simp: waiting_def send_to_buffer_def Let_def intro!: filter_cong)
  moreover have "queues (snd (send_to_buffer pd nd)) = queues nd"
    by (simp add: queues_def send_to_buffer_def Let_def)
  ultimately show ?thesis
    using assms(1) by (auto simp: requests_ok_def send_to_buffer_def Let_def distinct_map_filter)
qed

lemma set_stage_nums [simp]:
  "List.map pd_num (nd_pending (set_stage n stage nd)) = List.map pd_num (nd_pending nd)"
  by (auto simp: set_stage_def)

lemma send_to_partition_ok:
  assumes "requests_ok nd" and "pending_of n nd = Some pd" and "pd_stage pd = ToApply"
  shows "requests_ok (send_to_partition pd nd)"
proof -
  let ?nd = "send_to_partition pd nd"
  have n: "pd_num pd = n" using pending_ofD [OF assms(2)] by simp
  obtain us vs where p: "nd_pending nd = us @ pd # vs"
    using pending_ofD [OF assms(2)] by (meson split_list)
  have "n \<notin> pd_num ` (set us \<union> set vs)"
    using assms(1) n by (auto simp: requests_ok_def p image_Un)
  then have out: "\<forall>q\<in>set us \<union> set vs. pd_num q \<noteq> n" by blast
  have pend: "nd_pending ?nd = us @ pd\<lparr>pd_stage := Waiting\<rparr> # vs"
    using out n by (auto simp: send_to_partition_def set_stage_def p Let_def intro!: map_idI)
  have "mset (List.map pending_tag (waiting ?nd)) = add_mset (pending_tag pd) (mset (List.map pending_tag (waiting nd)))"
    using assms(3) by (simp add: waiting_def pend p)
  moreover have "mset (List.map cmd_tag (queues ?nd)) = add_mset (pending_tag pd) (mset (List.map cmd_tag (queues nd)))"
    by (simp add: queues_def send_to_partition_def set_stage_def part_enqueue_def Let_def)
  moreover have "List.map pd_num (nd_pending ?nd) = List.map pd_num (nd_pending nd)"
    and "nd_next ?nd = nd_next nd" and "pd_num ` set (nd_pending ?nd) = pd_num ` set (nd_pending nd)"
    by (simp_all add: pend p) (simp add: send_to_partition_def set_stage_def Let_def)
  ultimately show ?thesis
    using assms(1) unfolding requests_ok_def by (metis (no_types, lifting) imageE imageI)
qed


section \<open>Every step keeps the invariant\<close>

lemma part_step_ok:
  assumes "partition_ok p" and "part_step c srt ev (p, d) = (out, p', d')"
  shows "partition_ok p'"
proof -
  have ok: "1 \<le> pt_batch p" "log_ok (pt_log p, d)"
    using assms(1) by (auto simp: partition_ok_def log_ok_def)
  have batch: "1 \<le> pt_batch p'" using pt_batch_step [of c srt ev "(p, d)"] assms(2) ok(1) by simp
  have "log_ok (pt_log p', d')"
  proof (cases ev)
    case (PApply now)
    with assms(2) apply_step [OF ok(1)] obtain rs where
      "append_all c now (List.map request (served p)) (pt_log p, d) = (rs, pt_log p', d')" by blast
    with append_all_ok [OF ok(2), of c now "List.map request (served p)"] show ?thesis by simp
  next
    case (PCompact now io)
    define snap where "snap = fst (agg_snapshot now (log_head (pt_log p)) (pt_agg p))"
    have "s_base snap = log_head (pt_log p)" by (simp add: snap_def agg_snapshot_def Let_def case_prod_beta)
    then have "log_event_ok (LCompact io snap) (pt_log p, d)" by (simp add: log_head_def)
    from log_compact_ok [OF ok(2) this, of c] assms(2) ok(2) show ?thesis
      by (auto simp: PCompact snap_def case_prod_beta Let_def log_ok_def split: if_splits)
  qed (use assms(2) ok(2) in \<open>auto simp: part_enqueue_def case_prod_beta Let_def log_ok_def\<close>)
  with batch show ?thesis by (simp add: partition_ok_def log_ok_def)
qed

lemma detach_ok [simp]: "partition_ok p \<Longrightarrow> partition_ok (detach p)" and
  detach_apply [simp]: "pt_apply (detach p) = pt_apply p"
  by (simp_all add: detach_def partition_ok_def log_ok_def)

lemma part_open_ok:
  assumes "part_open c io now dir window topk cap noidem batch d = Inr (p, d')"
  shows "partition_ok p" and "pt_apply p = []"
proof -
  obtain l where l: "log_open c io now dir d = Inr (l, d')" "pt_log p = set_no_idempotent noidem l"
    and *: "1 \<le> pt_batch p" "pt_apply p = []"
    using assms by (auto simp: part_open_def Let_def split: if_splits sum.splits prod.splits)
  have "log_ok (l, d')" using l(1) by (rule log_open_ok)
  with * l(2) show "partition_ok p" and "pt_apply p = []"
    by (simp_all add: partition_ok_def set_no_idempotent_def log_ok_def)
qed

lemma apply_tail_ok:
  "partition_ok (fst s) \<Longrightarrow> pt_apply (fst s) = [] \<Longrightarrow>
    partition_ok (fst (apply_tail c at i es s)) \<and> pt_apply (fst (apply_tail c at i es s)) = []"
proof (induction es arbitrary: i s)
  case (Cons e es)
  obtain p d where s: "s = (p, d)" by fastforce
  define cmd where "cmd = \<lparr>ac_id = e_id e, ac_key = e_key e, ac_value = e_value e, ac_reply = 0\<rparr>"
  obtain out p' d' where st: "part_step c id (PApply (at i)) (part_enqueue cmd p, d) = (out, p', d')"
    by (rule prod_cases3)
  have ok: "partition_ok (part_enqueue cmd p)" "pt_apply (part_enqueue cmd p) = [cmd]"
    using Cons.prems by (simp_all add: s part_enqueue_def partition_ok_def)
  then have "1 \<le> pt_batch (part_enqueue cmd p)" by (simp add: partition_ok_def)
  from apply_step [OF this st] this have "pt_apply p' = []"
    by (auto simp: ok(2))
  with Cons.IH [of "(p', d')" "i + 1"] st part_step_ok [OF ok(1) st] show ?case
    by (simp add: s cmd_def del: part_step.simps)
qed simp


lemma serve_ok:
  assumes "node_ok nd"
  shows "node_ok (snd (serve c cfg env now nd))"
proof -
  obtain out p d where st: "part_step c id (PApply now) (nd_part nd, nd_disk nd) = (out, p, d)"
    by (rule prod_cases3)
  have ok: "partition_ok (nd_part nd)" "requests_ok nd" using assms by (simp_all add: node_ok_def)
  obtain rs where out: "out = List.map2 (\<lambda>cmd r. Applied (ac_reply cmd) r) (served (nd_part nd)) rs"
    and rest: "pt_apply p = drop (nat (pt_batch (nd_part nd))) (pt_apply (nd_part nd))"
    and len: "length rs = length (served (nd_part nd))"
    using apply_step [OF _ st] ok(1) by (auto simp: partition_ok_def)
  let ?nd = "snd (serve c cfg env now nd)"
  have nd': "?nd = nd\<lparr>nd_part := p, nd_disk := d,
      nd_pending := filter (\<lambda>pd. pd_num pd \<notin> ac_reply ` set (served (nd_part nd))) (nd_pending nd)\<rparr>"
    using reply_nums_map2 [OF len [symmetric]] by (simp add: serve_def st deliver_state out)
  have "mset (pt_apply (nd_part nd)) = mset (served (nd_part nd)) + mset (pt_apply p)"
    unfolding rest by (metis append_take_drop_id mset_append)
  then have "mset (queues nd) = mset (served (nd_part nd)) + mset (queues ?nd)"
    by (simp add: queues_def nd')
  then have "requests_ok ?nd"
    by (rule requests_served [OF ok(2)]) (simp_all add: nd')
  with assms part_step_ok [OF ok(1) st] show ?thesis by (simp add: node_ok_def nd')
qed

lemma serve_stale_ok:
  assumes "node_ok nd" and k: "k < length (nd_stale nd)"
  shows "node_ok (snd (serve_stale c cfg env k now nd))"
proof -
  let ?p = "nd_stale nd ! k"
  obtain out p d where st: "part_step c id (PApply now) (?p, nd_disk nd) = (out, p, d)"
    by (rule prod_cases3)
  have ok: "partition_ok ?p" "requests_ok nd" using assms by (simp_all add: node_ok_def)
  obtain rs where out: "out = List.map2 (\<lambda>cmd r. Applied (ac_reply cmd) r) (served ?p) rs"
    and rest: "pt_apply p = drop (nat (pt_batch ?p)) (pt_apply ?p)"
    and len: "length rs = length (served ?p)"
    using apply_step [OF _ st] ok(1) by (auto simp: partition_ok_def)
  let ?nd = "snd (serve_stale c cfg env k now nd)"
  have nd': "?nd = nd\<lparr>nd_stale := (nd_stale nd)[k := p], nd_disk := d,
      nd_pending := filter (\<lambda>pd. pd_num pd \<notin> ac_reply ` set (served ?p)) (nd_pending nd)\<rparr>"
    using reply_nums_map2 [OF len [symmetric]] by (simp add: serve_stale_def st deliver_state out)
  have "mset (pt_apply ?p) = mset (served ?p) + mset (pt_apply p)"
    unfolding rest by (metis append_take_drop_id mset_append)
  then have "mset (queues nd) = mset (served ?p) + mset (queues ?nd)"
    using mset_update_concat [OF k, of pt_apply p] by (simp add: queues_def nd' add.commute)
  then have "requests_ok ?nd"
    by (rule requests_served [OF ok(2)]) (simp_all add: nd')
  with assms part_step_ok [OF ok(1) st] show ?thesis
    by (auto simp: node_ok_def nd' dest: set_update_subset_insert [THEN subsetD])
qed

lemma node_ok_same:
  assumes "node_ok nd" and "partition_ok (nd_part nd')" and "\<forall>p\<in>set (nd_stale nd'). partition_ok p"
    and "ring_ok (nd_ring nd')" and "mset (queues nd') = mset (queues nd)"
    and "nd_pending nd' = nd_pending nd" and "nd_next nd' = nd_next nd"
  shows "node_ok nd'"
  using assms requests_same [of nd nd'] by (simp add: node_ok_def)


text \<open>Only the handlers admit requests for themselves; \<open>sort.Slice\<close> sorts.\<close>

fun node_event_ok :: "(point list \<Rightarrow> point list) \<Rightarrow> node_event \<Rightarrow> node \<Rightarrow> bool" where
  "node_event_ok psrt (NAdmit kind io hdr body) nd = (kind = ClientEvent \<or> kind = ReplicaEvent)"
| "node_event_ok psrt (NWatch ev) nd = is_sort_slice pt_hash psrt"
| "node_event_ok psrt ev nd = True"

lemma check_epoch_fields:
  "check_epoch io hdr nd = (r, nd1) \<Longrightarrow> nd1 = nd\<lparr>nd_fencer := nd_fencer nd1, nd_files := nd_files nd1\<rparr>"
  by (auto simp: check_epoch_def Let_def case_prod_beta)

text \<open>What admission changes: the fencer, and at most one request is added.\<close>

lemma admit_cases:
  obtains (refused) r f fs where "admit kind io hdr body nd = ([Reply r], nd\<lparr>nd_fencer := f, nd_files := fs\<rparr>)"
      "reply_status r \<ge> 400"
  | (admitted) req stage f fs where "body = Some req" "er_id req \<noteq> []" "stage \<noteq> Waiting"
      "stage = ToBuffer \<longleftrightarrow> status (nd_rs nd) = Loading" "status (nd_rs nd) \<noteq> Frozen"
      "admit kind io hdr body nd =
        ([], add_pending kind stage req (parse_epoch hdr) (nd\<lparr>nd_fencer := f, nd_files := fs\<rparr>))"
proof -
  obtain r nd1 where ce: "check_epoch io hdr nd = (r, nd1)" by fastforce
  define f fs where "f = nd_fencer nd1" and "fs = nd_files nd1"
  have nd1: "nd1 = nd\<lparr>nd_fencer := f, nd_files := fs\<rparr>"
    using check_epoch_fields [OF ce] by (simp add: f_def fs_def)
  have st: "reply_status r' \<ge> 400" if "r = Some r'" for r'
    using ce that by (auto simp: check_epoch_def Let_def case_prod_beta split: if_splits)
  show thesis
  proof (cases "\<exists>req. r = None \<and> check_shedding nd1 = None \<and> body = Some req \<and> er_id req \<noteq> [] \<and> er_key req \<noteq> [] \<and>
      rs_check (nd_rs nd1) = None")
    case True
    then obtain req where *: "r = None" "check_shedding nd1 = None" "body = Some req" "er_id req \<noteq> []" "er_key req \<noteq> []"
      "rs_check (nd_rs nd1) = None" by blast
    then have "status (nd_rs nd) \<noteq> Frozen" by (auto simp: rs_check_def nd1)
    with * show thesis
      by (intro admitted [of req "if status (nd_rs nd) = Loading then ToBuffer else ToApply" fs f])
        (simp_all add: admit_def ce is_loading_def nd1)
  next
    case False
    then have "\<exists>r'. admit kind io hdr body nd = ([Reply r'], nd1) \<and> reply_status r' \<ge> 400"
      using st by (auto simp: admit_def ce check_shedding_def split: option.split)
    then show thesis using refused nd1 by metis
  qed
qed


lemma add_pending_simps [simp]:
  "nd_part (add_pending kind stage req e nd) = nd_part nd" "nd_stale (add_pending kind stage req e nd) = nd_stale nd"
  "nd_ring (add_pending kind stage req e nd) = nd_ring nd" "nd_disk (add_pending kind stage req e nd) = nd_disk nd"
  "nd_rs (add_pending kind stage req e nd) = nd_rs nd" "nd_fencer (add_pending kind stage req e nd) = nd_fencer nd"
  "nd_files (add_pending kind stage req e nd) = nd_files nd" "nd_loaders (add_pending kind stage req e nd) = nd_loaders nd"
  "nd_swim (add_pending kind stage req e nd) = nd_swim nd"
  by (simp_all add: add_pending_def)

lemma node_ok_add_pending: "node_ok nd \<Longrightarrow> stage \<noteq> Waiting \<Longrightarrow> node_ok (add_pending kind stage req e nd)"
  by (simp add: node_ok_def add_pending_ok)

lemma node_ok_bookkeeping:
  "node_ok nd \<Longrightarrow> node_ok (nd\<lparr>nd_fencer := f, nd_files := fs\<rparr>)"
  "node_ok nd \<Longrightarrow> node_ok (nd\<lparr>nd_rs := r\<rparr>)"
  "node_ok nd \<Longrightarrow> node_ok (set_loader k ld nd)"
  "node_ok nd \<Longrightarrow> node_ok (nd\<lparr>nd_loaders := ls\<rparr>)"
  "node_ok nd \<Longrightarrow> node_ok (nd\<lparr>nd_disk := d\<rparr>)"
  "node_ok nd \<Longrightarrow> node_ok (nd\<lparr>nd_fencer := f, nd_files := fs, nd_next := Suc (nd_next nd)\<rparr>)"
  by (auto simp add: node_ok_def requests_ok_def queues_def waiting_def set_loader_def)

lemma node_ok_set_part:
  "node_ok nd \<Longrightarrow> partition_ok p \<Longrightarrow> pt_apply p = pt_apply (nd_part nd) \<Longrightarrow> node_ok (nd\<lparr>nd_part := p, nd_disk := d\<rparr>)"
  by (rule node_ok_same) (auto simp: queues_def node_ok_def)

text \<open>What a load does to the node.\<close>

lemma load_from_source_cases:
  assumes "load_from_source c cfg env io epoch nd = res"
  obtains (failed) d p where "res = LoadFailed (nd\<lparr>nd_disk := d, nd_part := p\<rparr>)" "p = nd_part nd \<or> p = detach (nd_part nd)"
  | (panics) err where "res = LoadPanics err"
  | (loaded) p0 d0 p1 d1 es q f fs base where
      "res = LoadDone (nd\<lparr>nd_part := p1, nd_disk := d1, nd_stale := nd_stale nd @ [q], nd_fencer := f, nd_files := fs\<rparr>)"
      "part_open c (le_open env) (le_now env) (nc_dir cfg) (nc_window cfg) (nc_topk cfg) (nc_queue cfg)
        (nc_noidem cfg) (nc_batch cfg) d0 = Inr p0" "apply_tail c (le_clock env) 0 es p0 = (p1, d1)"
      "q = nd_part nd \<or> q = detach (nd_part nd)" "le_tail env base = Some es"
      "base = (case le_snap env of None \<Rightarrow> 0 | Some snap \<Rightarrow> s_base snap)"
proof -
  have twice: "detach (detach p) = detach p" for p by (simp add: detach_def)
  obtain base nd1 where b: "(case le_snap env of None \<Rightarrow> (0, nd) | Some snap \<Rightarrow> (s_base snap,
      if nc_dir cfg \<noteq> [] then nd\<lparr>nd_disk := save_snapshot c (le_save env) snap (nd_disk nd), nd_part := detach (nd_part nd)\<rparr>
      else nd)) = (base, nd1)" by fastforce
  then have base: "base = (case le_snap env of None \<Rightarrow> 0 | Some snap \<Rightarrow> s_base snap)"
    by (auto split: option.splits)
  obtain d p where nd1: "nd1 = nd\<lparr>nd_disk := d, nd_part := p\<rparr>" "p = nd_part nd \<or> p = detach (nd_part nd)"
  proof (cases "le_snap env = None \<or> nc_dir cfg = []")
    case True
    then have "nd1 = nd" using b by (auto split: option.splits)
    then show thesis using that [of "nd_part nd" "nd_disk nd"] by simp
  next
    case False
    then show thesis using b that by auto
  qed
  show thesis
  proof (cases "le_tail env base")
    case None
    then have "res = LoadFailed nd1" using assms b by (simp add: load_from_source_def)
    then show thesis using nd1 by (intro failed [of p d]) simp_all
  next
    case (Some es)
    define nd2 where "nd2 = (if nc_dir cfg \<noteq> [] then nd1\<lparr>nd_disk := (nd_disk nd1)\<lparr>wal_file := None\<rparr>, nd_part := detach (nd_part nd1)\<rparr>
      else nd1)"
    obtain d2 q where nd2: "nd2 = nd\<lparr>nd_disk := d2, nd_part := q\<rparr>" "q = nd_part nd \<or> q = detach (nd_part nd)"
      using nd1 by (cases "nc_dir cfg = []") (auto simp: nd2_def twice)
    let ?open = "part_open c (le_open env) (le_now env) (nc_dir cfg) (nc_window cfg) (nc_topk cfg) (nc_queue cfg)
        (nc_noidem cfg) (nc_batch cfg)"
    show thesis
    proof (cases "?open (nd_disk nd2)")
      case (Inl err)
      then have "res = LoadPanics err"
        using assms b Some unfolding load_from_source_def by (simp add: nd2_def [symmetric] Let_def)
      then show thesis by (rule panics)
    next
      case (Inr p0)
      obtain p1 d1 where t: "apply_tail c (le_clock env) 0 es p0 = (p1, d1)" by fastforce
      obtain f fs where f: "(if epoch > 0 then snd (fencer_check io epoch (nd_fencer nd, nd_files nd))
          else (nd_fencer nd, nd_files nd)) = (f, fs)" by fastforce
      have f': "(if epoch > 0 then snd (fencer_check io epoch (nd_fencer N, nd_files N))
          else (nd_fencer N, nd_files N)) = (f, fs)"
        if "nd_fencer N = nd_fencer nd" "nd_files N = nd_files nd" for N :: node
        unfolding that by (rule f)
      have "res = LoadDone (nd\<lparr>nd_part := p1, nd_disk := d1, nd_stale := nd_stale nd @ [q], nd_fencer := f, nd_files := fs\<rparr>)"
        using assms b Some Inr t
          f' [of "nd\<lparr>nd_part := p1, nd_disk := d1, nd_stale := nd_stale nd @ [q]\<rparr>"] nd2(1) unfolding load_from_source_def
        by (simp add: nd2_def [symmetric] Let_def)
      then show thesis using Inr t nd2 Some base by (intro loaded) auto
    qed
  qed
qed


lemma load_done_ok:
  assumes "load_from_source c cfg env io epoch nd = LoadDone nd'" and "node_ok nd"
  shows "node_ok nd'"
  using assms(1)
proof (cases rule: load_from_source_cases)
  case (loaded p0 d0 p1 d1 es q f fs base)
  from loaded(2) have p0: "partition_ok (fst p0)" "pt_apply (fst p0) = []"
    by (cases p0; auto dest: part_open_ok)+
  have p1: "partition_ok p1" "pt_apply p1 = []"
    using apply_tail_ok [OF p0, of c "le_clock env" 0 es] by (simp_all add: loaded(3))
  show ?thesis
    using assms(2) p1 loaded(1,4) by (intro node_ok_same [OF assms(2)]) (auto simp: queues_def node_ok_def)
qed simp_all

lemma loader_go_ok:
  assumes "loader_go c cfg k env ld nd = Inr nd'" and "node_ok nd"
  shows "node_ok nd'"
  using assms
proof (induction c cfg k env ld nd rule: loader_go.induct)
  case (1 c cfg k env io src epoch nd)
  show ?case
  proof (cases "load_from_source c cfg env io epoch nd")
    case (LoadFailed nd1)
    have "node_ok nd1"
      using LoadFailed
    proof (cases rule: load_from_source_cases)
      case (failed d p)
      then show ?thesis
        using "1.prems"(2) by (intro node_ok_same [OF "1.prems"(2)]) (auto simp: queues_def node_ok_def)
    qed simp_all
    with LoadFailed 1 show ?thesis by (auto intro: node_ok_bookkeeping)
  next
    case (LoadDone nd1)
    with 1 load_done_ok [OF LoadDone] show ?thesis by (auto intro: node_ok_bookkeeping)
  qed (use 1 in simp)
qed (auto simp: loader_apply_def drain_buffer_def catch_up_round_def intro!: node_ok_bookkeeping node_ok_add_pending
      split: if_splits option.splits)

lemma node_step_ok:
  assumes "node_ok nd" and "node_event_ok psrt ev nd"
  shows "node_ok (snd (node_step c srt psrt cfg ev nd))"
proof (cases ev)
  case (NAdmit kind io hdr body)
  show ?thesis
    by (rule admit_cases [of kind io hdr body nd])
      (simp_all add: NAdmit node_ok_bookkeeping node_ok_add_pending assms(1))
next
  case (NSend n)
  show ?thesis
  proof (cases "pending_of n nd")
    case (Some pd)
    from assms(1) have r: "requests_ok nd" by (simp add: node_ok_def)
    show ?thesis
    proof (cases "pd_stage pd")
      case ToBuffer
      from send_to_buffer_ok [OF r Some this] assms(1) ToBuffer Some show ?thesis
        by (simp add: NSend case_prod_beta node_ok_def) (simp add: send_to_buffer_def Let_def)
    next
      case ToApply
      from send_to_partition_ok [OF r Some this] assms(1) ToApply Some show ?thesis
        by (simp add: NSend node_ok_def)
          (simp add: send_to_partition_def set_stage_def part_enqueue_def partition_ok_def Let_def)
    qed (use Some assms(1) NSend in simp)
  qed (use assms(1) NSend in simp)
next
  case (NServe now env)
  then show ?thesis using assms(1) by (simp add: serve_ok)
next
  case (NServeStale k now env)
  then show ?thesis using assms(1) by (simp add: serve_stale_ok)
next
  case (NQuery now now')
  obtain out p d where st: "part_step c srt (PQuery now now') (nd_part nd, nd_disk nd) = (out, p, d)"
    by (rule prod_cases3)
  have "pt_apply p = pt_apply (nd_part nd)" using st by (auto simp: case_prod_beta)
  then show ?thesis
    using assms(1) part_step_ok [OF _ st] st
    by (simp add: NQuery handle_aggregates_def node_ok_set_part node_ok_def [THEN iffD1] del: part_step.simps)
next
  case (NCompact now io)
  obtain out p d where st: "part_step c srt (PCompact now io) (nd_part nd, nd_disk nd) = (out, p, d)"
    by (rule prod_cases3)
  have "pt_apply p = pt_apply (nd_part nd)"
    using st by (auto simp: case_prod_beta Let_def split: if_splits)
  then show ?thesis
    using assms(1) part_step_ok [OF _ st] st by (simp add: NCompact node_ok_set_part node_ok_def [THEN iffD1] del: part_step.simps)
next
  case (NCompactStale k now io)
  show ?thesis
  proof (cases "k < length (nd_stale nd)")
    case True
    obtain out p d where st: "part_step c srt (PCompact now io) (nd_stale nd ! k, nd_disk nd) = (out, p, d)"
      by (rule prod_cases3)
    have same: "pt_apply p = pt_apply (nd_stale nd ! k)"
      using st by (auto simp: case_prod_beta Let_def split: if_splits)
    have "partition_ok (nd_stale nd ! k)" using assms(1) True by (simp add: node_ok_def)
    then have p: "partition_ok p" using st by (rule part_step_ok)
    have "mset (concat (List.map pt_apply ((nd_stale nd)[k := p]))) = mset (concat (List.map pt_apply (nd_stale nd)))"
      using mset_update_concat [OF True, of pt_apply p] by (simp add: same)
    then show ?thesis
      using assms(1) p st True unfolding NCompactStale
      by (intro node_ok_same [OF assms(1)])
        (auto simp: queues_def node_ok_def del: part_step.simps dest: set_update_subset_insert [THEN subsetD])
  qed (use assms(1) NCompactStale in simp)
next
  case (NLoader k env)
  then show ?thesis
    using assms(1) loader_go_ok [of c cfg k env "nd_loaders nd ! k" nd]
    by (auto simp: loader_step_def split: sum.splits)
next
  case (NWatch e)
  have "ring_ok (watch_node_ring psrt e (nd_ring nd))"
    using assms by (auto simp: NWatch watch_node_ring_def node_ok_def ring_add_ok ring_remove_ok split: event_type.split)
  with assms(1) show ?thesis by (auto simp: NWatch node_ok_def requests_ok_def queues_def waiting_def)
next
  case (NSwim m)
  with assms(1) show ?thesis by (auto simp: node_ok_def requests_ok_def queues_def waiting_def)
qed (use assms(1) in \<open>auto simp: handle_freeze_def handle_thaw_def handle_abort_def handle_load_def
      node_ok_def requests_ok_def queues_def waiting_def split: option.split sum.split\<close>)

interpretation nm: machine "\<lambda>ev nd. snd (node_step c srt psrt cfg ev nd)" "node_event_ok psrt" node_ok
  for c srt psrt cfg
  by unfold_locales (rule node_step_ok)


text \<open>The states a started node can be in.\<close>

definition started :: "codec \<Rightarrow> (point list \<Rightarrow> point list) \<Rightarrow> node_config \<Rightarrow> node \<Rightarrow> bool" where
  "started c psrt cfg nd \<longleftrightarrow> (\<exists>peers mkdir readable io now path fs d.
     node_start c psrt cfg peers mkdir readable io now path fs d = Inr nd)"

abbreviation node_run :: "codec \<Rightarrow> (top_entry list \<Rightarrow> top_entry list) \<Rightarrow> (point list \<Rightarrow> point list) \<Rightarrow> node_config \<Rightarrow>
    node_event list \<Rightarrow> node \<Rightarrow> node" where
  "node_run c srt psrt cfg evs nd \<equiv> fold (\<lambda>ev nd. snd (node_step c srt psrt cfg ev nd)) evs nd"

abbreviation node_run_ok :: "codec \<Rightarrow> (top_entry list \<Rightarrow> top_entry list) \<Rightarrow> (point list \<Rightarrow> point list) \<Rightarrow> node_config \<Rightarrow>
    node_event list \<Rightarrow> node \<Rightarrow> bool" where
  "node_run_ok c srt psrt cfg evs nd \<equiv>
     run_ok (node_event_ok psrt) (\<lambda>ev nd. snd (node_step c srt psrt cfg ev nd)) evs nd"

lemma started_ok:
  assumes "started c psrt cfg nd" and "is_sort_slice pt_hash psrt"
  shows "node_ok nd"
proof -
  obtain peers mkdir readable io now path fs d where
    st: "node_start c psrt cfg peers mkdir readable io now path fs d = Inr nd"
    using assms(1) by (auto simp: started_def)
  define r where "r = (if nc_primary cfg then ring_new psrt peers else \<lparr>points = [], nodes = []\<rparr>)"
  have "ring_ok \<lparr>points = [], nodes = []\<rparr>" by (simp add: ring_ok_def)
  then have r: "ring_ok r" using ring_new_ok [OF assms(2)] by (simp add: r_def)
  from st have "mkdir" by (simp add: node_start_def split: if_splits)
  have peers: "\<not> (nc_primary cfg \<and> peers = [])" using st by (auto simp: node_start_def)
  from st this \<open>mkdir\<close> obtain f where f: "fencer_load readable path fs = Inr f"
    by (cases "fencer_load readable path fs") (simp_all add: node_start_def)
  from st f peers \<open>mkdir\<close> obtain p d' where p: "part_open c io now (nc_dir cfg) (nc_window cfg) (nc_topk cfg) (nc_queue cfg)
      (nc_noidem cfg) (nc_batch cfg) d = Inr (p, d')"
    by (cases "part_open c io now (nc_dir cfg) (nc_window cfg) (nc_topk cfg) (nc_queue cfg)
      (nc_noidem cfg) (nc_batch cfg) d") (auto simp: node_start_def)
  have "nd = \<lparr>nd_part = p, nd_stale = [], nd_disk = d', nd_fencer = f, nd_files = fs, nd_rs = rs_init,
      nd_ring = r, nd_swim = None, nd_pending = [], nd_next = 0, nd_loaders = []\<rparr>"
    using st f p peers \<open>mkdir\<close> by (simp add: node_start_def r_def)
  then show ?thesis
    using part_open_ok [OF p] r by (simp add: node_ok_def requests_ok_def queues_def waiting_def)
qed

lemma run_node_ok:
  "started c psrt cfg nd \<Longrightarrow> is_sort_slice pt_hash psrt \<Longrightarrow> node_run_ok c srt psrt cfg evs nd \<Longrightarrow>
    node_ok (node_run c srt psrt cfg evs nd)"
  by (rule nm.run_inv [OF started_ok])

section \<open>What a reply says\<close>

lemma append_all_entries:
  "append_all c now reqs (l, d) = (rs, l', d') \<Longrightarrow> \<exists>es. l_entries l' = l_entries l @ es"
proof (induction reqs arbitrary: l d rs)
  case (Cons r reqs)
  obtain i k v where r: "r = (i, k, v)" by (cases r)
  obtain e1 fresh l1 d1 where a: "log_append c now i k v (l, d) = ((e1, fresh), l1, d1)"
    by (metis prod.exhaust)
  obtain rs1 where all: "append_all c now reqs (l1, d1) = (rs1, l', d')"
    using Cons.prems a by (auto simp: r split: prod.splits)
  have "\<exists>es. l_entries l1 = l_entries l @ es"
    using a by (auto simp: log_append_def Let_def split: prod.splits if_splits)
  with Cons.IH [OF all] show ?case by auto
qed simp

lemma append_all_results:
  assumes "append_all c now reqs (l, d) = (rs, l', d')" and "(req, e, True) \<in> set (zip reqs rs)"
  shows "(e_id e, e_key e, e_value e) = req \<and> e \<in> set (l_entries l')"
  using assms
proof (induction reqs arbitrary: l d rs)
  case (Cons r reqs)
  obtain i k v where r: "r = (i, k, v)" by (cases r)
  obtain e1 fresh l1 d1 where a: "log_append c now i k v (l, d) = ((e1, fresh), l1, d1)"
    by (metis prod.exhaust)
  obtain rs1 where all: "append_all c now reqs (l1, d1) = (rs1, l', d')" and rs: "rs = (e1, fresh) # rs1"
    using Cons.prems(1) a by (auto simp: r split: prod.splits)
  have "set (l_entries l1) \<subseteq> set (l_entries l')" using append_all_entries [OF all] by auto
  moreover have "fresh \<Longrightarrow> (e_id e1, e_key e1, e_value e1) = r \<and> e1 \<in> set (l_entries l1)"
    using a by (auto simp: r log_append_def Let_def split: prod.splits if_splits)
  ultimately show ?case using Cons.IH [OF all] Cons.prems(2) by (auto simp: rs)
qed simp

end
