(* ===== verification/NodeQueues.thy ===== *)
theory NodeQueues
  imports NodeWrites
begin

text \<open>
  What one step of a node does to the channels of its partitions and to the requests in
  service. A partition keeps its number for good: a load appends the one it replaces to
  \<open>nd_stale\<close>, and the new one gets the next number. The lemmas follow one command in one
  channel, whatever else the node does.
\<close>

section \<open>Channels\<close>

definition chans :: "node \<Rightarrow> apply_cmd list list" where
  "chans nd = List.map pt_apply (nd_stale nd) @ [pt_apply (nd_part nd)]"

lemma length_chans [simp]: "length (chans nd) = Suc (length (nd_stale nd))"
  by (simp add: chans_def)

lemma last_chan [simp]: "chans nd ! length (nd_stale nd) = pt_apply (nd_part nd)"
  by (simp add: chans_def nth_append)

lemma set_queues: "set (queues nd) = \<Union> (set ` set (chans nd))"
  by (auto simp: queues_def chans_def)

lemma chan_queued: "j < length (chans nd) \<Longrightarrow> cmd \<in> set (chans nd ! j) \<Longrightarrow> cmd \<in> set (queues nd)"
  unfolding set_queues by (meson UN_I nth_mem)

lemma queued_chan: "cmd \<in> set (queues nd) \<Longrightarrow> \<exists>j < length (chans nd). cmd \<in> set (chans nd ! j)"
  unfolding set_queues by (auto simp: set_conv_nth simp del: length_chans)

text \<open>The steps in which partition \<open>j\<close> serves its channel.\<close>

fun serves_part :: "nat \<Rightarrow> node_event \<Rightarrow> node \<Rightarrow> bool" where
  "serves_part j (NServe now env) nd = (j = length (nd_stale nd))"
| "serves_part j (NServeStale k now env) nd = (j = k \<and> k < length (nd_stale nd))"
| "serves_part j ev nd = False"

text \<open>
  A channel loses its next commands when its partition serves it, as many as the partition
  takes at a time, and otherwise only grows.
\<close>

definition batch_of :: "nat \<Rightarrow> node \<Rightarrow> nat" where
  "batch_of j nd = nat (pt_batch ((nd_stale nd @ [nd_part nd]) ! j))"

definition chan_moves :: "node_event \<Rightarrow> node \<Rightarrow> node \<Rightarrow> bool" where
  "chan_moves ev nd nd' \<longleftrightarrow> (\<forall>j < length (chans nd). j < length (chans nd') \<and>
     (\<exists>add. chans nd' ! j = drop (if serves_part j ev nd then batch_of j nd else 0) (chans nd ! j) @ add))"

lemma chans_same:
  assumes "List.map pt_apply (nd_stale nd') = List.map pt_apply (nd_stale nd)"
    and "pt_apply (nd_part nd') = pt_apply (nd_part nd) @ new" and "\<And>j. \<not> serves_part j ev nd"
  shows "chan_moves ev nd nd'"
  unfolding chan_moves_def
proof (intro allI impI conjI)
  fix j assume j: "j < length (chans nd)"
  have "length (nd_stale nd') = length (nd_stale nd)" using assms(1) by (metis length_map)
  with j show "j < length (chans nd')" by simp
  have "chans nd' ! j = chans nd ! j @ (if j = length (nd_stale nd) then new else [])"
    using j assms(1,2) by (auto simp: chans_def nth_append less_Suc_eq)
  then show "\<exists>add. chans nd' ! j = drop (if serves_part j ev nd then batch_of j nd else 0) (chans nd ! j) @ add"
    using assms(3) by simp
qed

lemma chans_grown: "chans nd' = chans nd @ [q] \<Longrightarrow> (\<And>j. \<not> serves_part j ev nd) \<Longrightarrow> chan_moves ev nd nd'"
  by (auto simp: chan_moves_def nth_append)

lemma chans_dropped:
  assumes "chans nd' = (chans nd)[k := drop (batch_of k nd) (chans nd ! k)]"
    and "\<And>j. j < length (chans nd) \<Longrightarrow> serves_part j ev nd \<longleftrightarrow> j = k"
  shows "chan_moves ev nd nd'"
  unfolding chan_moves_def
proof (intro allI impI conjI)
  fix j assume j: "j < length (chans nd)"
  then show "j < length (chans nd')" unfolding assms(1) by (simp only: length_list_update)
  show "\<exists>add. chans nd' ! j = drop (if serves_part j ev nd then batch_of j nd else 0) (chans nd ! j) @ add"
    using j assms(2) unfolding assms(1) by (simp add: nth_list_update)
qed

lemma part_step_apply:
  "part_step c srt (PQuery now now') (p, d) = (out, p', d') \<Longrightarrow> pt_apply p' = pt_apply p"
  "part_step c srt (PCompact now io) (p, d) = (out, p', d') \<Longrightarrow> pt_apply p' = pt_apply p"
  by (auto simp: case_prod_beta Let_def split: if_splits)

lemma batch_of_part [simp]:
  "batch_of (length (nd_stale nd)) nd = nat (pt_batch (nd_part nd))"
  "k < length (nd_stale nd) \<Longrightarrow> batch_of k nd = nat (pt_batch (nd_stale nd ! k))"
  by (simp_all add: batch_of_def nth_append)

lemma batch_positive:
  assumes "node_ok nd" and "j < length (chans nd)"
  shows "1 \<le> batch_of j nd"
proof -
  have "partition_ok ((nd_stale nd @ [nd_part nd]) ! j)"
    using assms by (auto simp: node_ok_def nth_append less_Suc_eq)
  then show ?thesis unfolding partition_ok_def batch_of_def by linarith
qed

lemma serve_chans:
  assumes "node_ok nd"
  shows "chans (snd (serve c cfg env now nd)) = (chans nd)[length (nd_stale nd) :=
    drop (nat (pt_batch (nd_part nd))) (pt_apply (nd_part nd))]"
proof -
  obtain out p d where st: "part_step c id (PApply now) (nd_part nd, nd_disk nd) = (out, p, d)"
    by (rule prod_cases3)
  have "1 \<le> pt_batch (nd_part nd)" using assms by (simp add: node_ok_def partition_ok_def)
  from apply_step [OF this st] have "pt_apply p = drop (nat (pt_batch (nd_part nd))) (pt_apply (nd_part nd))" by blast
  then show ?thesis by (simp add: serve_def st deliver_state chans_def list_update_append)
qed

lemma serve_stale_chans:
  assumes "node_ok nd" and "k < length (nd_stale nd)"
  shows "chans (snd (serve_stale c cfg env k now nd)) = (chans nd)[k :=
    drop (nat (pt_batch (nd_stale nd ! k))) (chans nd ! k)]"
proof -
  let ?p = "nd_stale nd ! k"
  obtain out p d where st: "part_step c id (PApply now) (?p, nd_disk nd) = (out, p, d)"
    by (rule prod_cases3)
  have "1 \<le> pt_batch ?p" using assms by (simp add: node_ok_def partition_ok_def)
  from apply_step [OF this st] have "pt_apply p = drop (nat (pt_batch ?p)) (pt_apply ?p)" by blast
  then show ?thesis
    using assms(2) by (simp add: serve_stale_def st deliver_state chans_def list_update_append map_update nth_append)
qed

lemma loader_go_chans:
  assumes "loader_go c cfg k env ld nd = Inr nd'"
  shows "chans nd' = chans nd \<or> (\<exists>q. chans nd' = chans nd @ [q])"
proof (cases "\<exists>le io src epoch. env = LoadStep le io \<and> ld = Fetching src epoch")
  case False
  then have "nd_stale nd' = nd_stale nd \<and> nd_part nd' = nd_part nd"
    using assms by (induction c cfg k env ld nd rule: loader_go.induct)
      (auto simp: loader_apply_def drain_buffer_def catch_up_round_def set_loader_def
        split: if_splits option.splits)
  then show ?thesis by (simp add: chans_def)
next
  case True
  then obtain le io src epoch where l: "env = LoadStep le io" "ld = Fetching src epoch" by blast
  show ?thesis
  proof (cases rule: load_from_source_cases [of c cfg le io epoch nd, OF HOL.refl])
    case (1 d p)
    with assms have "nd' = set_loader k LoaderDone (nd\<lparr>nd_disk := d, nd_part := p, nd_rs := finish_load (nd_rs nd)\<rparr>)"
      by (simp add: l)
    with 1(2) show ?thesis by (auto simp: chans_def set_loader_def)
  next
    case (2 err)
    with assms show ?thesis by (simp add: l)
  next
    case (3 p0 d0 p1 d1 es q f fs base)
    with assms have "nd' = set_loader k (Draining src)
        (nd\<lparr>nd_part := p1, nd_disk := d1, nd_stale := nd_stale nd @ [q], nd_fencer := f, nd_files := fs\<rparr>)"
      by (simp add: l)
    with 3(4) show ?thesis by (auto simp: chans_def set_loader_def)
  qed
qed

lemma node_step_chans:
  assumes "node_ok nd"
  shows "chan_moves ev nd (snd (node_step c srt psrt cfg ev nd))"
proof (cases ev)
  case (NAdmit kind io hdr body)
  have "nd_stale (snd (node_step c srt psrt cfg ev nd)) = nd_stale nd \<and>
      nd_part (snd (node_step c srt psrt cfg ev nd)) = nd_part nd"
    by (rule admit_cases [of kind io hdr body nd]) (simp_all add: NAdmit)
  then show ?thesis by (intro chans_same [where new = "[]"]) (simp_all add: NAdmit del: node_step.simps)
next
  case (NSend n)
  have "nd_stale (snd (node_step c srt psrt cfg ev nd)) = nd_stale nd"
    and "\<exists>new. pt_apply (nd_part (snd (node_step c srt psrt cfg ev nd))) = pt_apply (nd_part nd) @ new"
    by (simp_all add: NSend case_prod_beta send_to_buffer_def send_to_partition_def set_stage_def part_enqueue_def
        Let_def split: option.split req_stage.split)
  then obtain new where "pt_apply (nd_part (snd (node_step c srt psrt cfg ev nd))) = pt_apply (nd_part nd) @ new"
    "nd_stale (snd (node_step c srt psrt cfg ev nd)) = nd_stale nd" by blast
  then show ?thesis by (intro chans_same [where new = new]) (simp_all add: NSend del: node_step.simps)
next
  case (NServe now env)
  with serve_chans [OF assms, of c cfg env now] show ?thesis
    by (intro chans_dropped [where k = "length (nd_stale nd)"]) simp_all
next
  case (NServeStale k now env)
  show ?thesis
  proof (cases "k < length (nd_stale nd)")
    case True
    with serve_stale_chans [OF assms True, of c cfg env now] NServeStale show ?thesis
      by (intro chans_dropped [where k = k]) simp_all
  next
    case False
    then show ?thesis by (intro chans_same [where new = "[]"]) (auto simp: NServeStale)
  qed
next
  case (NQuery now now')
  obtain out p d where st: "part_step c srt (PQuery now now') (nd_part nd, nd_disk nd) = (out, p, d)"
    by (rule prod_cases3)
  then show ?thesis
    using part_step_apply(1) [OF st]
    by (intro chans_same [where new = "[]"]) (auto simp: NQuery handle_aggregates_def simp del: part_step.simps)
next
  case (NCompact now io)
  obtain out p d where st: "part_step c srt (PCompact now io) (nd_part nd, nd_disk nd) = (out, p, d)"
    by (rule prod_cases3)
  then show ?thesis
    using part_step_apply(2) [OF st]
    by (intro chans_same [where new = "[]"]) (auto simp: NCompact simp del: part_step.simps)
next
  case (NCompactStale k now io)
  obtain out p d where st: "part_step c srt (PCompact now io) (nd_stale nd ! k, nd_disk nd) = (out, p, d)"
    by (rule prod_cases3)
  then show ?thesis
    using part_step_apply(2) [OF st]
    by (intro chans_same [where new = "[]"])
      (auto simp: NCompactStale map_update list_update_same_conv simp del: part_step.simps)
next
  case (NLoader k env)
  show ?thesis
  proof (cases "loader_step c cfg k env nd")
    case (Inl err)
    then show ?thesis by (intro chans_same [where new = "[]"]) (auto simp: NLoader)
  next
    case (Inr nd')
    have step: "snd (node_step c srt psrt cfg ev nd) = nd'" by (simp add: NLoader Inr)
    from Inr have "nd' = nd \<or> loader_go c cfg k env (nd_loaders nd ! k) nd = Inr nd'"
      by (auto simp: loader_step_def split: if_splits)
    then consider "chans nd' = chans nd" | q where "chans nd' = chans nd @ [q]"
      using loader_go_chans by blast
    then show ?thesis
    proof cases
      case 1
      then show ?thesis unfolding step by (intro chans_same [where new = "[]"]) (simp_all add: chans_def NLoader)
    next
      case 2
      then show ?thesis unfolding step by (rule chans_grown) (simp add: NLoader)
    qed
  qed
qed (intro chans_same [where new = "[]"]; simp add: handle_freeze_def handle_thaw_def handle_abort_def
    handle_load_def split: option.split sum.split)+

section \<open>Requests in service\<close>

lemma pending_unique:
  assumes "node_ok nd" and "p \<in> set (nd_pending nd)" and "q \<in> set (nd_pending nd)" and "pd_num p = pd_num q"
  shows "p = q"
proof -
  have "inj_on pd_num (set (nd_pending nd))"
    using assms(1) by (simp add: node_ok_def requests_ok_def distinct_map)
  then show ?thesis using assms(2-4) by (simp add: inj_on_def)
qed

lemma pending_found: "node_ok nd \<Longrightarrow> pd \<in> set (nd_pending nd) \<Longrightarrow> pending_of (pd_num pd) nd = Some pd"
proof (cases "pending_of (pd_num pd) nd")
  case (Some q)
  assume "node_ok nd" "pd \<in> set (nd_pending nd)"
  with pending_unique [of nd q pd] pending_ofD [OF Some] Some show ?thesis by simp
qed (auto simp: pending_of_def find_None_iff)

lemma queued_waiting:
  assumes "requests_ok nd" and "cmd \<in> set (queues nd)"
  shows "\<exists>q \<in> set (waiting nd). cmd_tag cmd = pending_tag q"
proof -
  have "set (List.map cmd_tag (queues nd)) = set (List.map pending_tag (waiting nd))"
    using assms(1) unfolding requests_ok_def by (intro mset_eq_setD) blast
  moreover from assms(2) have "cmd_tag cmd \<in> set (List.map cmd_tag (queues nd))" by simp
  ultimately show ?thesis by auto
qed

lemma waiting_queued:
  assumes "requests_ok nd" and "pd \<in> set (waiting nd)"
  shows "\<exists>cmd \<in> set (queues nd). cmd_tag cmd = pending_tag pd"
proof -
  have "set (List.map cmd_tag (queues nd)) = set (List.map pending_tag (waiting nd))"
    using assms(1) unfolding requests_ok_def by (intro mset_eq_setD) blast
  then have eq: "cmd_tag ` set (queues nd) = pending_tag ` set (waiting nd)" by simp
  have "pending_tag pd \<in> cmd_tag ` set (queues nd)" unfolding eq using assms(2) by (rule imageI)
  then show ?thesis by (elim imageE) (metis (no_types, lifting))
qed

text \<open>What stays the same of a request while it is in service.\<close>

abbreviation identity :: "pending \<Rightarrow> nat \<times> req_kind \<times> event_request \<times> u64" where
  "identity pd \<equiv> (pd_num pd, pd_kind pd, pd_req pd, pd_epoch pd)"

definition only_new :: "node \<Rightarrow> node \<Rightarrow> bool" where
  "only_new nd nd' \<longleftrightarrow> nd_next nd \<le> nd_next nd' \<and>
     (\<forall>q \<in> set (nd_pending nd'). pd_num q < nd_next nd \<longrightarrow>
        (\<exists>p \<in> set (nd_pending nd). identity p = identity q))"

lemma only_new_subset: "set (nd_pending nd') \<subseteq> set (nd_pending nd) \<Longrightarrow> nd_next nd \<le> nd_next nd' \<Longrightarrow> only_new nd nd'"
  by (auto simp: only_new_def)

lemma only_new_add: "only_new nd (add_pending kind stage req e nd)"
  by (auto simp: only_new_def add_pending_def)

lemma only_new_stage: "only_new nd (send_to_partition pd nd)"
  by (auto simp: only_new_def send_to_partition_def set_stage_def Let_def)

lemma load_pending:
  "load_from_source c cfg env io epoch nd = LoadFailed nd1 \<Longrightarrow> nd_pending nd1 = nd_pending nd \<and> nd_next nd1 = nd_next nd"
  "load_from_source c cfg env io epoch nd = LoadDone nd1 \<Longrightarrow> nd_pending nd1 = nd_pending nd \<and> nd_next nd1 = nd_next nd"
  by (erule load_from_source_cases, auto)+

lemma loader_go_pending: "loader_go c cfg k env ld nd = Inr nd' \<Longrightarrow> only_new nd nd'"
  by (induction c cfg k env ld nd rule: loader_go.induct)
    (auto simp: loader_apply_def drain_buffer_def catch_up_round_def set_loader_def only_new_def add_pending_def
      load_pending split: if_splits option.splits load_result.splits)

lemma serve_pending:
  "nd_pending (snd (serve c cfg env now nd)) =
     filter (\<lambda>pd. pd_num pd \<notin> set (reply_nums (fst (part_step c id (PApply now) (nd_part nd, nd_disk nd))))) (nd_pending nd)"
  "nd_next (snd (serve c cfg env now nd)) = nd_next nd"
  "nd_pending (snd (serve_stale c cfg env k now nd)) =
     filter (\<lambda>pd. pd_num pd \<notin> set (reply_nums (fst (part_step c id (PApply now) (nd_stale nd ! k, nd_disk nd))))) (nd_pending nd)"
  "nd_next (snd (serve_stale c cfg env k now nd)) = nd_next nd"
  by (simp_all add: serve_def serve_stale_def case_prod_beta deliver_state)

lemma node_step_pending: "only_new nd (snd (node_step c srt psrt cfg ev nd))"
proof (cases ev)
  case (NAdmit kind io hdr body)
  show ?thesis
    by (rule admit_cases [of kind io hdr body nd]) (auto simp: NAdmit only_new_def add_pending_def)
next
  case (NSend n)
  then show ?thesis
    by (auto simp: case_prod_beta only_new_stage send_to_buffer_def Let_def intro: only_new_subset
        split: option.split req_stage.split)
next
  case (NLoader k env)
  then show ?thesis
    using loader_go_pending [of c cfg k env "nd_loaders nd ! k" nd]
    by (auto simp: loader_step_def only_new_subset split: sum.split)
qed (intro only_new_subset; simp add: serve_pending handle_aggregates_def handle_freeze_def handle_thaw_def
    handle_abort_def handle_load_def case_prod_beta split: option.split sum.split)+

text \<open>As long as the command is in a channel, its request is in service and waits.\<close>

lemma command_keeps_request:
  assumes "node_ok nd" and "node_event_ok psrt ev nd" and "pd \<in> set (waiting nd)"
    and "cmd \<in> set (queues (snd (node_step c srt psrt cfg ev nd)))" and "ac_reply cmd = pd_num pd"
  shows "pd \<in> set (waiting (snd (node_step c srt psrt cfg ev nd)))"
proof -
  let ?nd = "snd (node_step c srt psrt cfg ev nd)"
  have "requests_ok ?nd" using node_step_ok [OF assms(1,2)] by (simp add: node_ok_def)
  from queued_waiting [OF this assms(4)] obtain q where q: "q \<in> set (waiting ?nd)" "pd_num q = pd_num pd"
    using assms(5) by auto
  have pd: "pd \<in> set (nd_pending nd)" "pd_stage pd = Waiting" using assms(3) by (auto simp: waiting_def)
  then have "pd_num q < nd_next nd" using assms(1) q(2) by (simp add: node_ok_def requests_ok_def)
  with node_step_pending [of nd c srt psrt cfg ev] q(1) obtain p where
    p: "p \<in> set (nd_pending nd)" "identity p = identity q"
    unfolding only_new_def waiting_def by auto
  with pending_unique [OF assms(1) p(1) pd(1)] q have "identity q = identity pd" by simp
  moreover have "pd_stage q = pd_stage pd" using q(1) pd(2) by (simp add: waiting_def)
  ultimately have "q = pd" by simp
  with q(1) show ?thesis by simp
qed

section \<open>The reply to a served command\<close>

lemma reply_to_replies:
  assumes "ring_ok (nd_ring nd)" and "\<And>k. pd_kind pd \<noteq> LoaderEvent k"
  shows "\<exists>r. reply_to cfg env pd res nd = [Reply r]"
proof -
  have "\<exists>ok. fan_out_replicate cfg env key nd = Some (Inr ok)" for key
    using replicas_preference [OF assms(1), of key "nc_rf cfg"] by (simp add: fan_out_replicate_def)
  then obtain ok where "fan_out_replicate cfg env (er_key (pd_req pd)) nd = Some (Inr ok)" by blast
  then show ?thesis
    using assms(2) by (cases "pd_kind pd"; cases ok) (auto simp: reply_to_def split: prod.split)
qed

lemma deliver_replies:
  assumes "n \<in> set (reply_nums rs)" and "pending_of n nd = Some pd" and "\<And>k. pd_kind pd \<noteq> LoaderEvent k"
    and "ring_ok (nd_ring nd)"
  shows "\<exists>r. (n, Reply r) \<in> set (fst (deliver cfg env rs nd))"
  using assms(1,2,4)
proof (induction cfg env rs nd rule: deliver.induct)
  case (2 cfg env m res rs nd)
  show ?case
  proof (cases "m = n")
    case True
    obtain r where "reply_to cfg (env n) pd res nd = [Reply r]"
      using reply_to_replies [OF "2.prems"(3) assms(3)] by blast
    with True "2.prems" show ?thesis by (auto simp: case_prod_beta Let_def)
  next
    case False
    with "2.prems" have "\<exists>r. (n, Reply r) \<in> set (fst (deliver cfg env rs (drop_pending m nd)))"
      by (intro "2.IH") (simp_all add: pending_of_drop)
    then show ?thesis by (auto simp: case_prod_beta Let_def split: option.split)
  qed
qed auto

lemma part_serves:
  assumes "partition_ok p" and "part_step c id (PApply now) (p, d) = (out, p', d')"
    and "i < nat (pt_batch p)" and "i < length (pt_apply p)"
  shows "ac_reply (pt_apply p ! i) \<in> set (reply_nums out)"
proof -
  have "1 \<le> pt_batch p" using assms(1) by (simp add: partition_ok_def)
  from apply_step [OF this assms(2)] obtain rs where
    "out = List.map2 (\<lambda>cmd r. Applied (ac_reply cmd) r) (served p) rs" "length rs = length (served p)" by blast
  then have "reply_nums out = List.map ac_reply (served p)" by (simp add: reply_nums_map2)
  moreover have "pt_apply p ! i \<in> set (served p)"
    using assms(3,4) by (auto simp: in_set_conv_nth intro!: exI [of _ i])
  ultimately show ?thesis by simp
qed

lemma served_replied:
  assumes "node_ok nd" and "serves_part j ev nd" and "i < batch_of j nd" and "i < length (chans nd ! j)"
    and "pd \<in> set (waiting nd)" and "pd_num pd = ac_reply (chans nd ! j ! i)" and "\<And>k. pd_kind pd \<noteq> LoaderEvent k"
  shows "\<exists>r. (pd_num pd, Reply r) \<in> set (fst (node_step c srt psrt cfg ev nd))"
proof -
  have found: "pending_of (pd_num pd) nd = Some pd"
    using assms(5) by (intro pending_found [OF assms(1)]) (simp add: waiting_def)
  have ring: "ring_ok (nd_ring nd)" using assms(1) by (simp add: node_ok_def)
  from assms(2) consider now env where "ev = NServe now env" "j = length (nd_stale nd)"
    | now env where "ev = NServeStale j now env" "j < length (nd_stale nd)"
    by (cases ev) auto
  then show ?thesis
  proof cases
    case 1
    obtain out p d where st: "part_step c id (PApply now) (nd_part nd, nd_disk nd) = (out, p, d)"
      by (rule prod_cases3)
    have "partition_ok (nd_part nd)" using assms(1) by (simp add: node_ok_def)
    from part_serves [OF this st] have "pd_num pd \<in> set (reply_nums out)"
      using assms(3,4,6) by (simp add: 1)
    from deliver_replies [OF this _ assms(7), of "nd\<lparr>nd_part := p, nd_disk := d\<rparr>"] found ring show ?thesis
      by (simp add: 1 serve_def st pending_of_def)
  next
    case 2
    obtain out p d where st: "part_step c id (PApply now) (nd_stale nd ! j, nd_disk nd) = (out, p, d)"
      by (rule prod_cases3)
    have "partition_ok (nd_stale nd ! j)" using assms(1) 2 by (simp add: node_ok_def)
    from part_serves [OF this st] have "pd_num pd \<in> set (reply_nums out)"
      using assms(3,4,6) 2 by (simp add: chans_def nth_append)
    from deliver_replies [OF this _ assms(7), of "nd\<lparr>nd_stale := (nd_stale nd)[j := p], nd_disk := d\<rparr>"] found ring
    show ?thesis using 2 by (simp add: serve_stale_def st pending_of_def)
  qed
qed

text \<open>How often partition \<open>j\<close> serves its channel in a run.\<close>

fun serves :: "codec \<Rightarrow> (top_entry list \<Rightarrow> top_entry list) \<Rightarrow> (point list \<Rightarrow> point list) \<Rightarrow> node_config \<Rightarrow>
    nat \<Rightarrow> node_event list \<Rightarrow> node \<Rightarrow> nat" where
  "serves c srt psrt cfg j [] nd = 0"
| "serves c srt psrt cfg j (ev # evs) nd =
     (if serves_part j ev nd then 1 else 0) + serves c srt psrt cfg j evs (snd (node_step c srt psrt cfg ev nd))"

fun node_outs :: "codec \<Rightarrow> (top_entry list \<Rightarrow> top_entry list) \<Rightarrow> (point list \<Rightarrow> point list) \<Rightarrow> node_config \<Rightarrow>
    node_event list \<Rightarrow> node \<Rightarrow> (nat \<times> outcome) list" where
  "node_outs c srt psrt cfg [] nd = []"
| "node_outs c srt psrt cfg (ev # evs) nd =
     (let (outs, nd') = node_step c srt psrt cfg ev nd in outs @ node_outs c srt psrt cfg evs nd')"

lemma command_answered:
  assumes "node_ok nd" and "node_run_ok c srt psrt cfg evs nd" and "j < length (chans nd)"
    and "i < length (chans nd ! j)" and "pd \<in> set (waiting nd)" and "pd_num pd = ac_reply (chans nd ! j ! i)"
    and "\<And>k. pd_kind pd \<noteq> LoaderEvent k" and "i < serves c srt psrt cfg j evs nd"
  shows "\<exists>r. (pd_num pd, Reply r) \<in> set (node_outs c srt psrt cfg evs nd)"
  using assms(1-6,8)
proof (induction evs arbitrary: nd i)
  case (Cons ev evs)
  let ?nd = "snd (node_step c srt psrt cfg ev nd)"
  have outs: "set (node_outs c srt psrt cfg (ev # evs) nd) =
      set (fst (node_step c srt psrt cfg ev nd)) \<union> set (node_outs c srt psrt cfg evs ?nd)"
    by (simp add: case_prod_beta Let_def del: node_step.simps)
  define m where "m = (if serves_part j ev nd then batch_of j nd else 0)"
  from node_step_chans [OF Cons.prems(1), of ev c srt psrt cfg] Cons.prems(3) obtain add where
    j: "j < length (chans ?nd)" and q: "chans ?nd ! j = drop m (chans nd ! j) @ add"
    unfolding chan_moves_def m_def by blast
  show ?case
  proof (cases "i < m")
    case True
    then have "serves_part j ev nd" "i < batch_of j nd" by (simp_all add: m_def split: if_splits)
    from served_replied [OF Cons.prems(1) this Cons.prems(4-6) assms(7)] show ?thesis unfolding outs by blast
  next
    case False
    with Cons.prems(4) have i: "i - m < length (chans ?nd ! j)" "chans ?nd ! j ! (i - m) = chans nd ! j ! i"
      unfolding q by (simp_all add: nth_append)
    have ev: "node_event_ok psrt ev nd" and run: "node_run_ok c srt psrt cfg evs ?nd"
      using Cons.prems(2) by (simp_all del: node_step.simps)
    have "chans nd ! j ! i \<in> set (queues ?nd)"
      using chan_queued [OF j] i nth_mem by metis
    then have "pd \<in> set (waiting ?nd)"
      using Cons.prems(6) by (intro command_keeps_request [OF Cons.prems(1) ev Cons.prems(5)]) simp_all
    moreover have "i - m < serves c srt psrt cfg j evs ?nd"
      using Cons.prems(7) False batch_positive [OF Cons.prems(1,3)] by (auto simp: m_def split: if_splits)
    ultimately have "\<exists>r. (pd_num pd, Reply r) \<in> set (node_outs c srt psrt cfg evs ?nd)"
      using Cons.prems(6) i by (intro Cons.IH [OF node_step_ok [OF Cons.prems(1) ev] run j]) simp_all
    then show ?thesis unfolding outs by blast
  qed
qed simp

end
