(* ===== verification/NodeAcks.thy ===== *)
theory NodeAcks
  imports NodeQueues
begin

text \<open>
  Properties of the write path of a node: what a \<open>201\<close> promises, that each request is answered
  at most once, and that each request in the partition's channel is answered.
\<close>

section \<open>Replies of a serving step\<close>

lemma queued_request:
  assumes "requests_ok nd" and "cmd \<in> set (queues nd)" and "pending_of (ac_reply cmd) nd = Some pd"
  shows "pd_stage pd = Waiting \<and> cmd_tag cmd = pending_tag pd"
proof -
  obtain q where q: "q \<in> set (nd_pending nd)" "pd_stage q = Waiting" "cmd_tag cmd = pending_tag q"
    using queued_waiting [OF assms(1,2)] by (auto simp: waiting_def)
  have nums: "pd_num q = pd_num pd" using q(3) pending_ofD [OF assms(3)] by simp
  have "distinct (List.map pd_num (nd_pending nd))" using assms(1) by (simp add: requests_ok_def)
  then have "q = pd" using q(1) pending_ofD [OF assms(3)] nums by (metis distinct_map inj_onD)
  with q show ?thesis by simp
qed

lemma part_outs:
  assumes "node_ok nd" and "partition_ok p0" and "set (pt_apply p0) \<subseteq> set (queues nd)"
    and "part_step c id (PApply now) (p0, d0) = (out, p, d)" and "(n, oc) \<in> set (fst (deliver cfg env out nd1))"
    and "nd_pending nd1 = nd_pending nd" and "nd_ring nd1 = nd_ring nd" and "nd_swim nd1 = nd_swim nd"
  shows "\<exists>pd e fresh rs cmds. pending_of n nd = Some pd \<and> pd_stage pd = Waiting \<and>
    oc \<in> set (reply_to cfg (env n) pd (e, fresh) nd) \<and>
    append_all c now (List.map request cmds) (pt_log p0, d0) = (rs, pt_log p, d) \<and>
    ((er_id (pd_req pd), er_key (pd_req pd), er_value (pd_req pd)), e, fresh) \<in> set (zip (List.map request cmds) rs)"
proof -
  have "1 \<le> pt_batch p0" using assms(2) by (simp add: partition_ok_def)
  from apply_step [OF this assms(4)] obtain rs where
    app: "append_all c now (List.map request (served p0)) (pt_log p0, d0) = (rs, pt_log p, d)"
    and out: "out = List.map2 (\<lambda>cmd r. Applied (ac_reply cmd) r) (served p0) rs"
    and len: "length rs = length (served p0)" by blast
  from deliver_outs [OF assms(5)] assms(6) obtain res pd where
    res: "Applied n res \<in> set out" and pd: "pending_of n nd = Some pd" and "oc \<in> set (reply_to cfg (env n) pd res nd1)"
    by (auto simp: pending_of_def)
  moreover have "reply_to cfg (env n) pd res nd1 = reply_to cfg (env n) pd res nd"
    using assms(7,8) by (rule reply_to_cong)
  ultimately have oc: "oc \<in> set (reply_to cfg (env n) pd res nd)" by simp
  from res out obtain j where j: "j < length rs" "ac_reply (served p0 ! j) = n" "rs ! j = res"
    using len by (auto simp: set_zip)
  define cmd where "cmd = served p0 ! j"
  have "cmd \<in> set (served p0)" unfolding cmd_def using j(1) len by (intro nth_mem) simp
  then have "cmd \<in> set (queues nd)" using assms(3) by (auto dest: in_set_takeD)
  moreover have "requests_ok nd" using assms(1) by (simp add: node_ok_def)
  ultimately have q: "pd_stage pd = Waiting" "cmd_tag cmd = pending_tag pd"
    using queued_request [of nd cmd pd] pd j(2) by (simp_all add: cmd_def)
  from q(2) have req: "request cmd = (er_id (pd_req pd), er_key (pd_req pd), er_value (pd_req pd))" by simp
  have "(request cmd, rs ! j) \<in> set (zip (List.map request (served p0)) rs)"
    unfolding set_zip cmd_def using j(1) len by (intro CollectI exI [of _ j]) simp
  then have "((er_id (pd_req pd), er_key (pd_req pd), er_value (pd_req pd)), fst res, snd res) \<in>
      set (zip (List.map request (served p0)) rs)"
    unfolding req j(3) prod.collapse .
  then show ?thesis
    using pd oc app q(1)
    by (intro exI [of _ pd] exI [of _ "fst res"] exI [of _ "snd res"] exI [of _ rs] exI [of _ "served p0"]) simp
qed

lemma serve_outs:
  assumes "node_ok nd" and "(n, oc) \<in> set (fst (serve c cfg env now nd))"
  shows "\<exists>pd e fresh rs cmds. pending_of n nd = Some pd \<and> pd_stage pd = Waiting \<and>
    oc \<in> set (reply_to cfg (env n) pd (e, fresh) nd) \<and>
    append_all c now (List.map request cmds) (pt_log (nd_part nd), nd_disk nd) =
      (rs, pt_log (nd_part (snd (serve c cfg env now nd))), nd_disk (snd (serve c cfg env now nd))) \<and>
    ((er_id (pd_req pd), er_key (pd_req pd), er_value (pd_req pd)), e, fresh) \<in> set (zip (List.map request cmds) rs)"
proof -
  obtain out p d where st: "part_step c id (PApply now) (nd_part nd, nd_disk nd) = (out, p, d)"
    by (rule prod_cases3)
  have "partition_ok (nd_part nd)" using assms(1) by (simp add: node_ok_def)
  moreover have "set (pt_apply (nd_part nd)) \<subseteq> set (queues nd)" by (simp add: queues_def)
  moreover have "(n, oc) \<in> set (fst (deliver cfg env out (nd\<lparr>nd_part := p, nd_disk := d\<rparr>)))"
    using assms(2) by (simp add: serve_def st)
  ultimately show ?thesis
    using part_outs [OF assms(1) _ _ st, of n oc cfg env "nd\<lparr>nd_part := p, nd_disk := d\<rparr>"]
    by (simp add: serve_def st deliver_state)
qed

text \<open>The partition that serves in a step, as the step leaves it, and what its fan-outs meet.\<close>

fun serving_part :: "node_event \<Rightarrow> node \<Rightarrow> (partition \<times> (nat \<Rightarrow> fan_env)) option" where
  "serving_part (NServe now env) nd = Some (nd_part nd, env)"
| "serving_part (NServeStale k now env) nd = Some (nd_stale nd ! k, env)"
| "serving_part ev nd = None"

lemma step_outs:
  assumes "node_ok nd" and "node_step c srt psrt cfg ev nd = (outs, nd')" and "(n, oc) \<in> set outs"
    and "serving_part ev nd' = Some (p, env)"
  shows "\<exists>pd e fresh rs cmds now l0 d0. pending_of n nd = Some pd \<and>
    oc \<in> set (reply_to cfg (env n) pd (e, fresh) nd) \<and>
    append_all c now (List.map request cmds) (l0, d0) = (rs, pt_log p, nd_disk nd') \<and>
    ((er_id (pd_req pd), er_key (pd_req pd), er_value (pd_req pd)), e, fresh) \<in> set (zip (List.map request cmds) rs)"
proof (cases ev)
  case (NServe now env')
  with assms(2-4) have mem: "(n, oc) \<in> set (fst (serve c cfg env now nd))"
    and nd': "snd (serve c cfg env now nd) = nd'" and p: "pt_log (nd_part nd') = pt_log p" by auto
  from serve_outs [OF assms(1) mem] show ?thesis unfolding nd' p by (elim exE conjE) (intro exI conjI; assumption)
next
  case (NServeStale k now env')
  with assms(2,3,4) have k: "k < length (nd_stale nd)" and eqs: "env' = env" "p = nd_stale nd' ! k"
    "serve_stale c cfg env k now nd = (outs, nd')" by (auto split: if_splits)
  obtain out q d where st: "part_step c id (PApply now) (nd_stale nd ! k, nd_disk nd) = (out, q, d)"
    by (rule prod_cases3)
  let ?nd = "nd\<lparr>nd_stale := (nd_stale nd)[k := q], nd_disk := d\<rparr>"
  have "partition_ok (nd_stale nd ! k)" "set (pt_apply (nd_stale nd ! k)) \<subseteq> set (queues nd)"
    using assms(1) k by (auto simp: node_ok_def queues_def)
  moreover have d: "deliver cfg env out ?nd = (outs, nd')" using eqs(3) by (simp add: serve_stale_def st)
  moreover have "p = q" "nd_disk nd' = d" using eqs(2) k d deliver_state [of cfg env out ?nd] by simp_all
  moreover have "(n, oc) \<in> set (fst (deliver cfg env out ?nd))" using d assms(3) by simp
  ultimately obtain pd e fresh rs cmds where "pending_of n nd = Some pd"
    "oc \<in> set (reply_to cfg (env n) pd (e, fresh) nd)"
    "append_all c now (List.map request cmds) (pt_log (nd_stale nd ! k), nd_disk nd) = (rs, pt_log p, nd_disk nd')"
    "((er_id (pd_req pd), er_key (pd_req pd), er_value (pd_req pd)), e, fresh) \<in> set (zip (List.map request cmds) rs)"
    using part_outs [OF assms(1) _ _ st, of n oc cfg env ?nd] by auto
  then show ?thesis by blast
qed (use assms(4) in simp_all)

section \<open>Write quorums\<close>

lemma await_acks_count: "await_acks need acks oks \<Longrightarrow> need \<le> acks + int (length (filter id oks))"
  by (induction need acks oks rule: await_acks.induct) (auto simp: Let_def split: if_splits)

lemma fan_out_quorum:
  assumes "ring_ok (nd_ring nd)" and "fan_out_replicate cfg env key nd = Some (Inr True)"
    and "\<forall>xs. mset (fe_order env xs) = mset xs"
  shows "\<exists>replicas A. ring_replicas (nd_ring nd) key (nc_rf cfg) = Some (Inr replicas) \<and>
    A \<subseteq> set replicas - {nc_self cfg} \<and> (\<forall>a\<in>A. post_replicate (fe_answer env a)) \<and> nc_w cfg \<le> 1 + int (card A)"
proof -
  obtain replicas where r: "ring_replicas (nd_ring nd) key (nc_rf cfg) = Some (Inr replicas)"
    and w: "await_acks (nc_w cfg - 1) 0
      (List.map (\<lambda>a. post_replicate (fe_answer env a)) (fe_order env (fan_targets cfg replicas nd)))"
    using assms(2) by (auto simp: fan_out_replicate_def split: option.splits sum.splits)
  define ts where "ts = fe_order env (fan_targets cfg replicas nd)"
  have "mset ts = mset (fan_targets cfg replicas nd)" using assms(3) by (simp add: ts_def)
  then have ts: "set ts = set (fan_targets cfg replicas nd)" and "distinct ts = distinct (fan_targets cfg replicas nd)"
    by (auto dest: mset_eq_setD mset_eq_imp_distinct_iff)
  moreover have "distinct replicas"
    using replicas_preference [OF assms(1), of key "nc_rf cfg"] r by auto
  ultimately have dist: "distinct ts" by (simp add: fan_targets_def)
  let ?A = "set (filter (\<lambda>a. post_replicate (fe_answer env a)) ts)"
  have "nc_w cfg - 1 \<le> int (length (filter (\<lambda>a. post_replicate (fe_answer env a)) ts))"
    using await_acks_count [OF w] by (simp add: ts_def filter_map comp_def)
  also have "\<dots> = int (card ?A)" using distinct_card [OF distinct_filter [OF dist]] by simp
  finally show ?thesis
    using r ts by (intro exI [of _ replicas] exI [of _ ?A]) (auto simp: fan_targets_def)
qed

section \<open>Each request is answered once\<close>

lemma reply_to_single: "length (reply_to cfg env pd res nd) \<le> 1"
  by (auto simp: reply_to_def split: prod.split req_kind.split option.split sum.split bool.split)

lemma deliver_pending:
  "n \<in> fst ` set (fst (deliver cfg env rs nd)) \<Longrightarrow> n \<in> pd_num ` set (nd_pending nd) \<and> n \<in> set (reply_nums rs)"
proof -
  assume "n \<in> fst ` set (fst (deliver cfg env rs nd))"
  then obtain oc where "(n, oc) \<in> set (fst (deliver cfg env rs nd))" by force
  from deliver_outs [OF this] obtain res pd where *: "Applied n res \<in> set rs" "pending_of n nd = Some pd" by blast
  have "n \<in> set (reply_nums rs)" using *(1) by (induction rs rule: reply_nums.induct) auto
  with pending_ofD [OF *(2)] show ?thesis by blast
qed

lemma deliver_distinct: "distinct (List.map fst (fst (deliver cfg env rs nd)))"
proof (induction cfg env rs nd rule: deliver.induct)
  case (2 cfg env n res rs nd)
  let ?d = "deliver cfg env rs (drop_pending n nd)"
  have "n \<notin> pd_num ` set (nd_pending (drop_pending n nd))" by auto
  then have new: "n \<notin> fst ` set (fst ?d)" using deliver_pending [of n cfg env rs "drop_pending n nd"] by blast
  have tl: "distinct (List.map fst (fst ?d))" by (rule 2)
  show ?case
  proof (cases "pending_of n nd")
    case (Some pd)
    have "reply_to cfg (env n) pd res nd = [] \<or> (\<exists>oc. reply_to cfg (env n) pd res nd = [oc])"
      using reply_to_single [of cfg "env n" pd res nd] by (cases "reply_to cfg (env n) pd res nd") auto
    with Some new tl show ?thesis by (auto simp: case_prod_beta Let_def)
  qed (use tl in \<open>simp add: case_prod_beta Let_def\<close>)
qed simp_all

abbreviation nums :: "node \<Rightarrow> nat set" where
  "nums nd \<equiv> pd_num ` set (nd_pending nd)"

text \<open>
  A step answers requests that were in service, or one that it refuses; what it answers is
  no longer in service, and the numbers it gives to new requests are new.
\<close>

definition answers_fresh :: "(nat \<times> outcome) list \<Rightarrow> node \<Rightarrow> node \<Rightarrow> bool" where
  "answers_fresh outs nd nd' \<longleftrightarrow> distinct (List.map fst outs) \<and>
     (\<forall>n\<in>fst ` set outs. (n \<in> nums nd \<or> nd_next nd \<le> n) \<and> n \<notin> nums nd' \<and> n < nd_next nd') \<and>
     nd_next nd \<le> nd_next nd' \<and> (\<forall>n\<in>nums nd'. n \<in> nums nd \<or> nd_next nd \<le> n)"

lemma answers_none:
  "nd_pending nd' = nd_pending nd \<Longrightarrow> nd_next nd' = nd_next nd \<Longrightarrow> answers_fresh [] nd nd'"
  by (simp add: answers_fresh_def)

lemma answers_deliver:
  assumes "requests_ok nd" and "nd_pending nd0 = nd_pending nd" and "nd_next nd0 = nd_next nd"
  shows "answers_fresh (fst (deliver cfg env rs nd0)) nd (snd (deliver cfg env rs nd0))"
proof -
  have "n \<in> nums nd \<and> n \<in> set (reply_nums rs)" if "n \<in> fst ` set (fst (deliver cfg env rs nd0))" for n
    using deliver_pending [OF that] assms(2) by simp
  moreover have "n < nd_next nd" if "n \<in> nums nd" for n
    using assms(1) that by (auto simp: requests_ok_def)
  ultimately have "\<forall>n\<in>fst ` set (fst (deliver cfg env rs nd0)). n \<in> nums nd \<and> n < nd_next nd \<and> n \<in> set (reply_nums rs)"
    by blast
  then show ?thesis
    using deliver_distinct [of cfg env rs nd0] assms(2,3)
    unfolding answers_fresh_def deliver_state by auto
qed

lemma answers_add: "answers_fresh [] nd (add_pending kind stage req e nd)"
  by (auto simp: answers_fresh_def add_pending_def)

lemma answers_loader:
  "loader_go c cfg k env ld nd = Inr nd' \<Longrightarrow> answers_fresh [] nd nd'"
  by (induction c cfg k env ld nd rule: loader_go.induct)
    (auto simp: loader_apply_def drain_buffer_def catch_up_round_def set_loader_def answers_fresh_def add_pending_def
      load_pending split: if_splits option.splits load_result.splits)


lemma answers_send_buffer:
  assumes "requests_ok nd" and "pending_of n nd = Some pd"
  shows "answers_fresh (List.map (Pair n) (fst (send_to_buffer pd nd))) nd (snd (send_to_buffer pd nd))"
  using pending_ofD [OF assms(2)] assms(1)
  by (auto simp: answers_fresh_def send_to_buffer_def requests_ok_def Let_def)

lemma answers_send_partition: "answers_fresh [] nd (send_to_partition pd nd)"
proof -
  have "pd_num ` set (nd_pending (send_to_partition pd nd)) = nums nd"
    unfolding send_to_partition_def Let_def by (simp flip: set_map)
  then show ?thesis by (simp add: answers_fresh_def) (simp add: send_to_partition_def set_stage_def Let_def)
qed

lemma node_step_answers:
  assumes "node_ok nd"
  shows "answers_fresh (fst (node_step c srt psrt cfg ev nd)) nd (snd (node_step c srt psrt cfg ev nd))"
proof -
  have ok: "requests_ok nd" using assms by (simp add: node_ok_def)
  show ?thesis
  proof (cases ev)
    case (NAdmit kind io hdr body)
    show ?thesis
    proof (rule admit_cases [of kind io hdr body nd], goal_cases)
      case (1 r f fs)
      with ok show ?case by (auto simp: NAdmit answers_fresh_def requests_ok_def)
    next
      case (2 req stage f fs)
      with answers_add [of "nd\<lparr>nd_fencer := f, nd_files := fs\<rparr>" kind stage req "parse_epoch hdr"]
      show ?case by (simp add: NAdmit answers_fresh_def)
    qed
  next
    case (NSend n)
    then show ?thesis
      using answers_send_buffer [OF ok, of n] answers_send_partition [of nd]
      by (auto simp: case_prod_beta answers_none split: option.split req_stage.split)
  next
    case (NServe now env)
    obtain out p d where "part_step c id (PApply now) (nd_part nd, nd_disk nd) = (out, p, d)" by (rule prod_cases3)
    with answers_deliver [OF ok, of "nd\<lparr>nd_part := p, nd_disk := d\<rparr>" cfg env out] show ?thesis
      by (simp add: NServe serve_def)
  next
    case (NServeStale k now env)
    obtain out p d where "part_step c id (PApply now) (nd_stale nd ! k, nd_disk nd) = (out, p, d)" by (rule prod_cases3)
    with answers_deliver [OF ok, of "nd\<lparr>nd_stale := (nd_stale nd)[k := p], nd_disk := d\<rparr>" cfg env out] show ?thesis
      by (simp add: NServeStale serve_stale_def answers_none)
  next
    case (NLoader k env)
    then show ?thesis
      using answers_loader [of c cfg k env "nd_loaders nd ! k" nd]
      by (auto simp: loader_step_def answers_none split: sum.split)
  qed (simp_all add: answers_none case_prod_beta handle_aggregates_def handle_freeze_def handle_thaw_def
      handle_abort_def handle_load_def split: option.split sum.split)
qed

lemma answers_freshD:
  "answers_fresh os nd nd' \<Longrightarrow> distinct (List.map fst os) \<and> (\<forall>n\<in>fst ` set os. n \<notin> nums nd')"
  unfolding answers_fresh_def by blast

lemma answers_trans:
  assumes "answers_fresh os nd nd1" and "answers_fresh os' nd1 nd2"
  shows "answers_fresh (os @ os') nd nd2"
proof -
  note first = assms(1) [unfolded answers_fresh_def] and later = assms(2) [unfolded answers_fresh_def]
  have "fst ` set os \<inter> fst ` set os' = {}"
    using first later by (meson disjoint_iff leD)
  then have dist: "distinct (List.map fst (os @ os'))" using first later by simp
  have "n \<notin> nums nd2 \<and> n < nd_next nd2" if "n \<in> fst ` set os" for n
    using first later that by (meson leD order_less_le_trans)
  moreover have older: "n \<in> nums nd \<or> nd_next nd \<le> n" if "n \<in> nums nd1 \<or> nd_next nd1 \<le> n" for n
    using first that by (meson le_trans)
  then have "(n \<in> nums nd \<or> nd_next nd \<le> n) \<and> n \<notin> nums nd2 \<and> n < nd_next nd2" if "n \<in> fst ` set os'" for n
    using later that by blast
  ultimately have "\<forall>n\<in>fst ` set (os @ os'). (n \<in> nums nd \<or> nd_next nd \<le> n) \<and> n \<notin> nums nd2 \<and> n < nd_next nd2"
    using first by (simp add: image_Un ball_Un)
  moreover have "\<forall>n\<in>nums nd2. n \<in> nums nd \<or> nd_next nd \<le> n"
    using later older by blast
  moreover have "nd_next nd \<le> nd_next nd2" using first later by linarith
  ultimately show ?thesis using dist unfolding answers_fresh_def by blast
qed

lemma node_outs_fresh:
  assumes "node_ok nd" and "node_run_ok c srt psrt cfg evs nd"
  shows "answers_fresh (node_outs c srt psrt cfg evs nd) nd (node_run c srt psrt cfg evs nd)"
  using assms
proof (induction evs arbitrary: nd)
  case Nil
  then show ?case by (simp add: answers_none)
next
  case (Cons ev evs)
  let ?nd = "snd (node_step c srt psrt cfg ev nd)"
  have "node_ok ?nd" using Cons.prems by (intro node_step_ok) auto
  then have later: "answers_fresh (node_outs c srt psrt cfg evs ?nd) ?nd (node_run c srt psrt cfg evs ?nd)"
    using Cons.prems by (intro Cons.IH) auto
  have first: "answers_fresh (fst (node_step c srt psrt cfg ev nd)) nd ?nd"
    by (rule node_step_answers [OF Cons.prems(1)])
  show ?case using answers_trans [OF first later] by (simp add: case_prod_beta Let_def)
qed

text \<open>
  C16: No request is answered twice, whatever the interleaving: over any run of a node the
  replies go to different requests, and none of those is still in service afterwards.
\<close>

theorem answered_at_most_once:
  assumes "started c psrt cfg nd0" and "is_sort_slice pt_hash psrt" and "node_run_ok c srt psrt cfg evs nd0"
  shows "distinct (List.map fst (node_outs c srt psrt cfg evs nd0)) \<and>
    (\<forall>n\<in>fst ` set (node_outs c srt psrt cfg evs nd0). pending_of n (node_run c srt psrt cfg evs nd0) = None)"
proof -
  have "pending_of n nd = None" if "n \<notin> nums nd" for n nd
    using that by (auto simp: pending_of_def find_None_iff)
  moreover note answers_freshD [OF node_outs_fresh [OF started_ok [OF assms(1,2)] assms(3)]]
  ultimately show ?thesis by simp
qed

section \<open>Every waiting request is answered\<close>

text \<open>
  C17: Every write that reached a partition gets its reply: once each partition, the replaced
  ones included, has served its channel as often as there were commands in it, each client
  and replica request that was waiting has been answered, whatever else the node did in
  between (other requests, reads, compactions, loads) and whatever the replicas answer.
\<close>

theorem waiting_requests_answered:
  assumes "started c psrt cfg nd0" and "is_sort_slice pt_hash psrt" and "node_run_ok c srt psrt cfg evs nd0"
    and "nd = node_run c srt psrt cfg evs nd0" and "pd \<in> set (nd_pending nd)" and "pd_stage pd = Waiting"
    and "pd_kind pd = ClientEvent \<or> pd_kind pd = ReplicaEvent"
    and "node_run_ok c srt psrt cfg later nd"
    and "\<forall>j < length (chans nd). length (chans nd ! j) \<le> serves c srt psrt cfg j later nd"
  shows "\<exists>r. (pd_num pd, Reply r) \<in> set (node_outs c srt psrt cfg later nd)"
proof -
  have ok: "node_ok nd" unfolding assms(4) using assms(1-3) by (rule run_node_ok)
  have w: "pd \<in> set (waiting nd)" using assms(5,6) by (simp add: waiting_def)
  have "requests_ok nd" using ok by (simp add: node_ok_def)
  from waiting_queued [OF this w] obtain cmd where cmd: "cmd \<in> set (queues nd)" "ac_reply cmd = pd_num pd" by auto
  from queued_chan [OF cmd(1)] obtain j i where
    j: "j < length (chans nd)" "i < length (chans nd ! j)" "chans nd ! j ! i = cmd"
    by (auto simp: in_set_conv_nth)
  have "i < serves c srt psrt cfg j later nd" using assms(9) j(1,2) by (meson less_le_trans)
  then show ?thesis
    using cmd(2) j assms(7) by (intro command_answered [OF ok assms(8) j(1,2) w]) auto
qed

section \<open>Write quorums in a run\<close>

lemma created_is_served:
  assumes "node_step c srt psrt cfg ev nd = (outs, nd')" and "(n, Reply (CreatedReply off)) \<in> set outs"
  shows "\<exists>p env. serving_part ev nd' = Some (p, env) \<and> p \<in> set (nd_part nd' # nd_stale nd')"
proof (cases ev)
  case (NAdmit kind io hdr body)
  then show ?thesis
    using assms
    by (auto simp: admit_def check_epoch_def check_shedding_def case_prod_beta Let_def
        split: option.splits if_splits)
next
  case (NSend m)
  then show ?thesis
    using assms by (auto simp: send_to_buffer_def case_prod_beta Let_def split: option.splits req_stage.splits if_splits)
next
  case (NServeStale k now env)
  then have k: "k < length (nd_stale nd)" and nd': "nd' = snd (serve_stale c cfg env k now nd)"
    using assms by (auto split: if_splits)
  have "length (nd_stale nd') = length (nd_stale nd)"
    by (simp add: nd' serve_stale_def case_prod_beta deliver_state)
  with k show ?thesis by (simp add: NServeStale)
qed (use assms in \<open>auto simp: case_prod_beta Let_def split: sum.splits if_splits\<close>)

text \<open>
  C3: Whatever the node's next step is, it answers a client with \<open>201\<close> only when the step
  served the write: the write is then in the log of the partition that served it, at the
  offset the client is told. That is the partition the write was sent to, which a load may
  have replaced meanwhile. When the node replicates by itself, at least \<open>w - 1\<close> other
  replicas of the key have acknowledged the write.
\<close>

theorem created_means_quorum:
  assumes "started c psrt cfg nd0" and "is_sort_slice pt_hash psrt" and "node_run_ok c srt psrt cfg evs nd0"
    and "nd = node_run c srt psrt cfg evs nd0"
    and "node_step c srt psrt cfg ev nd = (outs, nd')" and "(n, Reply (CreatedReply off)) \<in> set outs"
    and "\<And>p env m xs. serving_part ev nd' = Some (p, env) \<Longrightarrow> mset (fe_order (env m) xs) = mset xs"
  shows "\<exists>p env pd e. serving_part ev nd' = Some (p, env) \<and> p \<in> set (nd_part nd' # nd_stale nd') \<and>
    pending_of n nd = Some pd \<and> e \<in> set (l_entries (pt_log p)) \<and> e_offset e = off \<and>
    (e_id e, e_key e, e_value e) = (er_id (pd_req pd), er_key (pd_req pd), er_value (pd_req pd)) \<and>
    (nc_primary cfg \<longrightarrow> (\<exists>replicas A. ring_replicas (nd_ring nd) (e_key e) (nc_rf cfg) = Some (Inr replicas) \<and>
      A \<subseteq> set replicas - {nc_self cfg} \<and> (\<forall>a\<in>A. post_replicate (fe_answer (env n) a)) \<and>
      nc_w cfg \<le> 1 + int (card A)))"
proof -
  have ok: "node_ok nd" unfolding assms(4) using assms(1-3) by (rule run_node_ok)
  obtain p env where sp: "serving_part ev nd' = Some (p, env)" and p: "p \<in> set (nd_part nd' # nd_stale nd')"
    using created_is_served [OF assms(5,6)] by blast
  from step_outs [OF ok assms(5,6) sp] obtain pd e fresh rs cmds now l0 d0 where
    pd: "pending_of n nd = Some pd" and oc: "Reply (CreatedReply off) \<in> set (reply_to cfg (env n) pd (e, fresh) nd)"
    and app: "append_all c now (List.map request cmds) (l0, d0) = (rs, pt_log p, nd_disk nd')"
    and res: "((er_id (pd_req pd), er_key (pd_req pd), er_value (pd_req pd)), e, fresh) \<in> set (zip (List.map request cmds) rs)"
    by blast
  have kind: "fresh" "off = e_offset e"
    and fan: "nc_primary cfg \<longrightarrow> fan_out_replicate cfg (env n) (er_key (pd_req pd)) nd = Some (Inr True)"
    using oc by (auto simp: reply_to_def split: req_kind.splits if_splits option.splits sum.splits bool.splits)
  from append_all_results [OF app] res kind(1) have
    e: "(e_id e, e_key e, e_value e) = (er_id (pd_req pd), er_key (pd_req pd), er_value (pd_req pd))"
    "e \<in> set (l_entries (pt_log p))" by auto
  have ring: "ring_ok (nd_ring nd)" using ok by (simp add: node_ok_def)
  have "\<forall>xs. mset (fe_order (env n) xs) = mset xs" using assms(7) [OF sp] by blast
  with fan have "nc_primary cfg \<longrightarrow> (\<exists>replicas A. ring_replicas (nd_ring nd) (e_key e) (nc_rf cfg) = Some (Inr replicas) \<and>
      A \<subseteq> set replicas - {nc_self cfg} \<and> (\<forall>a\<in>A. post_replicate (fe_answer (env n) a)) \<and> nc_w cfg \<le> 1 + int (card A))"
    using fan_out_quorum [OF ring, of cfg "env n" "er_key (pd_req pd)"] e(1) by simp
  then show ?thesis
    using sp p pd e kind(2) by (intro exI [of _ p] exI [of _ env] exI [of _ pd] exI [of _ e]) simp
qed


section \<open>Witnesses\<close>

definition cfg_a :: node_config where
  "cfg_a = \<lparr>nc_window = 5, nc_topk = 3, nc_queue = 8, nc_dir = [], nc_noidem = False, nc_batch = 1,
     nc_self = ''a'', nc_rf = 2, nc_w = 2, nc_primary = True\<rparr>"

definition ring_ab :: ring where
  "ring_ab = ring_new stable [''a'', ''b'']"

definition node_a :: node where
  "node_a = \<lparr>nd_part = memory_partition 1, nd_stale = [], nd_disk = empty_disk,
     nd_fencer = \<lparr>f_seen = 0, f_path = ''epoch''\<rparr>, nd_files = Map.empty, nd_rs = rs_init,
     nd_ring = ring_ab, nd_swim = None, nd_pending = [], nd_next = 0, nd_loaders = []\<rparr>"

abbreviation req_a :: event_request where
  "req_a \<equiv> \<lparr>er_id = ''a'', er_key = ''k'', er_value = ''v''\<rparr>"

abbreviation pending_a :: pending where
  "pending_a \<equiv> \<lparr>pd_num = 0, pd_kind = ClientEvent, pd_stage = Waiting, pd_req = req_a, pd_epoch = 0\<rparr>"

definition node_a_waiting :: node where
  "node_a_waiting = node_a\<lparr>nd_part := (memory_partition 1)\<lparr>pt_apply := [cmd_a]\<rparr>, nd_pending := [pending_a], nd_next := 1\<rparr>"

abbreviation admit_a :: "node_event list" where
  "admit_a \<equiv> [NAdmit ClientEvent Persists '''' (Some req_a), NSend 0]"

lemma stable_sorts: "is_sort_slice pt_hash stable"
  by (rule is_sort_slice_sort_key)

lemma started_a: "started no_codec stable cfg_a node_a"
proof -
  have "node_start no_codec stable cfg_a [''a'', ''b''] True True OpenOk 0 ''epoch'' Map.empty empty_disk = Inr node_a"
    using memory_open by (simp add: node_start_def cfg_a_def fencer_load_def node_a_def ring_ab_def)
  then show ?thesis unfolding started_def by blast
qed

lemma admit_run: "node_run no_codec srt stable cfg_a admit_a node_a = node_a_waiting"
  by (simp add: admit_def check_epoch_def parse_epoch_def parse_uint_def fencer_check_def Let_def check_shedding_def
      queue_depth_def queue_cap_def rs_check_def is_loading_def rs_init_def add_pending_def node_a_def memory_partition_def
      pending_of_def send_to_partition_def set_stage_def part_enqueue_def node_a_waiting_def)

lemma ring_ab_ok: "ring_ok ring_ab" and ring_ab_nodes: "set (nodes ring_ab) = {''a'', ''b''}"
  by (simp_all add: ring_ab_def ring_new_ok [OF stable_sorts]) (simp add: ring_new_def Let_def)

lemma replicas_ab:
  "\<exists>rs. ring_replicas ring_ab key 2 = Some (Inr rs) \<and> distinct rs \<and> set rs = {''a'', ''b''}"
proof -
  have "length (preference ring_ab key) = card {''a'', ''b''}"
    using distinct_card [OF distinct_preference, of ring_ab key] set_preference [OF ring_ab_ok, of key]
    by (simp only: ring_ab_nodes)
  then have "take 2 (preference ring_ab key) = preference ring_ab key" by simp
  then show ?thesis
    using replicas_preference [OF ring_ab_ok, of key 2] set_preference [OF ring_ab_ok, of key] ring_ab_nodes by simp
qed

lemma only_element: "distinct xs \<Longrightarrow> set xs = {x} \<Longrightarrow> xs = [x]"
  by (cases xs; cases "tl xs") auto

lemma targets_ab:
  assumes "nd_ring nd = ring_ab" and "nd_swim nd = None"
  shows "\<exists>rs. ring_replicas ring_ab key 2 = Some (Inr rs) \<and> fan_targets cfg_a rs nd = [''b'']"
proof -
  obtain rs where rs: "ring_replicas ring_ab key 2 = Some (Inr rs)" "distinct rs" "set rs = {''a'', ''b''}"
    using replicas_ab by blast
  have "fan_targets cfg_a rs nd = [''b'']"
    by (rule only_element) (use rs assms(2) in \<open>auto simp: fan_targets_def cfg_a_def\<close>)
  with rs show ?thesis by blast
qed

definition env_b :: "http_answer \<Rightarrow> fan_env" where
  "env_b a = \<lparr>fe_order = (\<lambda>xs. xs), fe_answer = (\<lambda>_. a)\<rparr>"

lemma fan_out_b:
  assumes "nd_ring nd = ring_ab" and "nd_swim nd = None"
  shows "fan_out_replicate cfg_a (env_b a) key nd = Some (Inr (post_replicate a))"
proof -
  obtain rs where "ring_replicas ring_ab key 2 = Some (Inr rs)" "fan_targets cfg_a rs nd = [''b'']"
    using targets_ab [OF assms] by blast
  then show ?thesis
    by (simp add: fan_out_replicate_def assms(1)) (simp add: cfg_a_def env_b_def)
qed

lemma serve_a:
  "fst (node_step no_codec srt stable cfg_a (NServe now (\<lambda>_. env_b a)) node_a_waiting) =
     [(0, Reply (if post_replicate a then CreatedReply 0 else QuorumMissed 2))]"
proof -
  have "part_step no_codec id (PApply now) (nd_part node_a_waiting, nd_disk node_a_waiting) =
      ([Applied 0 (new_entry log_new now ''a'' ''k'' ''v'', True)],
       (memory_partition 1)\<lparr>pt_log := fst (snd (log_append no_codec now ''a'' ''k'' ''v'' (log_new, empty_disk))),
         pt_agg := agg_apply (new_entry log_new now ''a'' ''k'' ''v'') (agg_new 5 3)\<rparr>, empty_disk)"
    by (simp add: node_a_waiting_def node_a_def memory_partition_def apply_one_def append_to_new part_step.simps(2))
  then show ?thesis
    by (simp add: serve_def pending_of_def node_a_waiting_def reply_to_def node_a_def fan_out_b Let_def)
      (simp add: cfg_a_def log_new_def)
qed

lemma created_means_quorum_witness:
  "\<exists>replicas A. ring_replicas ring_ab ''k'' 2 = Some (Inr replicas) \<and> A \<subseteq> set replicas - {''a''} \<and> 2 \<le> 1 + int (card A)"
proof -
  let ?step = "node_step no_codec (\<lambda>xs. xs) stable cfg_a (NServe 1 (\<lambda>_. env_b (Status 204))) node_a_waiting"
  obtain outs nd' where st: "?step = (outs, nd')" by fastforce
  have "outs = [(0, Reply (CreatedReply 0))]"
    using serve_a [of "\<lambda>xs. xs" 1 "Status 204"] st by (simp add: post_replicate_def del: node_step.simps)
  then have mem: "(0, Reply (CreatedReply 0)) \<in> set outs" by simp
  have run: "node_run_ok no_codec (\<lambda>xs. xs) stable cfg_a admit_a node_a" by simp
  let ?ev = "NServe 1 (\<lambda>_. env_b (Status 204))"
  have perm: "mset (fe_order (env m) xs) = mset xs" if "serving_part ?ev nd' = Some (p, env)" for p env m xs
    using that by (auto simp: env_b_def)
  have "\<exists>p env pd e. serving_part ?ev nd' = Some (p, env) \<and> p \<in> set (nd_part nd' # nd_stale nd') \<and>
    pending_of 0 node_a_waiting = Some pd \<and> e \<in> set (l_entries (pt_log p)) \<and> e_offset e = 0 \<and>
    (e_id e, e_key e, e_value e) = (er_id (pd_req pd), er_key (pd_req pd), er_value (pd_req pd)) \<and>
    (nc_primary cfg_a \<longrightarrow> (\<exists>replicas A. ring_replicas (nd_ring node_a_waiting) (e_key e) (nc_rf cfg_a) = Some (Inr replicas) \<and>
      A \<subseteq> set replicas - {nc_self cfg_a} \<and> (\<forall>a\<in>A. post_replicate (fe_answer (env 0) a)) \<and>
      nc_w cfg_a \<le> 1 + int (card A)))"
    by (rule created_means_quorum [OF started_a stable_sorts run admit_run [symmetric] st mem]) (rule perm)
  then obtain pd and e :: entry and env :: "nat \<Rightarrow> fan_env" where pd: "pending_of 0 node_a_waiting = Some pd"
    "(e_id e, e_key e, e_value e) = (er_id (pd_req pd), er_key (pd_req pd), er_value (pd_req pd))" and
    q: "nc_primary cfg_a \<longrightarrow> (\<exists>replicas A. ring_replicas (nd_ring node_a_waiting) (e_key e) (nc_rf cfg_a) = Some (Inr replicas) \<and>
      A \<subseteq> set replicas - {nc_self cfg_a} \<and> (\<forall>a\<in>A. post_replicate (fe_answer (env 0) a)) \<and>
      nc_w cfg_a \<le> 1 + int (card A))" by blast
  have "pending_of 0 node_a_waiting = Some pending_a" by (simp add: pending_of_def node_a_waiting_def)
  with pd(1) have "pd = pending_a" by simp
  with pd(2) have "e_key e = ''k''" by simp
  moreover have "nc_primary cfg_a" "nd_ring node_a_waiting = ring_ab" "nc_rf cfg_a = 2" "nc_self cfg_a = ''a''" "nc_w cfg_a = 2"
    by (simp_all add: cfg_a_def node_a_waiting_def node_a_def)
  ultimately show ?thesis using q by metis
qed

lemma answered_at_most_once_witness:
  "distinct (List.map fst (node_outs no_codec (\<lambda>xs. xs) stable cfg_a (admit_a @ [NServe 1 (\<lambda>_. env_b NetError)]) node_a))"
  using answered_at_most_once [OF started_a stable_sorts,
      of "\<lambda>xs. xs" "admit_a @ [NServe 1 (\<lambda>_. env_b NetError)]"] by simp

lemma waiting_requests_answered_witness:
  "\<exists>r. (0, Reply r) \<in> set (node_outs no_codec (\<lambda>xs. xs) stable cfg_a
     [NQuery 1 1, NServe 1 (\<lambda>_. env_b NetError)] node_a_waiting)"
proof -
  have run: "node_run_ok no_codec (\<lambda>xs. xs) stable cfg_a admit_a node_a" by simp
  have pd: "pending_a \<in> set (nd_pending node_a_waiting)" by (simp add: node_a_waiting_def)
  have later: "node_run_ok no_codec (\<lambda>xs. xs) stable cfg_a [NQuery 1 1, NServe 1 (\<lambda>_. env_b NetError)] node_a_waiting"
    by simp
  have "nd_stale (snd (node_step no_codec srt stable cfg_a (NQuery 1 1) node_a_waiting)) = []" for srt
    by (simp add: handle_aggregates_def case_prod_beta node_a_waiting_def node_a_def)
  then have "\<forall>j < length (chans node_a_waiting). length (chans node_a_waiting ! j) \<le>
      serves no_codec (\<lambda>xs. xs) stable cfg_a j [NQuery 1 1, NServe 1 (\<lambda>_. env_b NetError)] node_a_waiting"
    by (simp add: chans_def del: node_step.simps) (simp add: node_a_waiting_def node_a_def)
  from waiting_requests_answered [OF started_a stable_sorts run admit_run [symmetric] pd _ _ later this]
  show ?thesis by (simp del: node_step.simps node_outs.simps)
qed

end
