(* ===== verification/NodeGuards.thy ===== *)
theory NodeGuards
  imports NodeAcks
begin

text \<open>
  What a node refuses: writes with an epoch older than one it has met, and writes to a
  frozen partition; and what its write path gets wrong: an epoch that does not fit in 64
  bits, and a retry after a missed quorum.
\<close>

section \<open>Epochs\<close>

lemma fencer_check_seen: "f_seen (fst (snd (fencer_check io e (f, fs)))) = max (f_seen f) e"
  by (auto simp: fencer_check_def Let_def max_def not_less)

lemma load_fencer_rises:
  assumes "load_from_source c cfg env io epoch nd = res"
  shows "(\<forall>nd1. res = LoadFailed nd1 \<longrightarrow> nd_fencer nd1 = nd_fencer nd) \<and>
    (\<forall>nd1. res = LoadDone nd1 \<longrightarrow> f_seen (nd_fencer nd) \<le> f_seen (nd_fencer nd1))"
proof -
  have "f_seen f \<le> f_seen f'" if "(if epoch > 0 then snd (fencer_check io epoch (f, fs)) else (f, fs)) = (f', fs')"
    for f fs f' fs'
    using that fencer_check_seen [of io epoch f fs] by (auto split: if_splits)
  then show ?thesis
    using assms by (fastforce simp: load_from_source_def Let_def split: option.splits sum.splits prod.splits if_splits)
qed

lemma check_epoch_seen:
  "f_seen (nd_fencer (snd (check_epoch io hdr nd))) = max (f_seen (nd_fencer nd)) (parse_epoch hdr)"
  using fencer_check_seen [of io "parse_epoch hdr" "nd_fencer nd" "nd_files nd"]
  by (simp add: check_epoch_def Let_def case_prod_beta)

lemma admit_fencer: "nd_fencer (snd (admit kind io hdr body nd)) = nd_fencer (snd (check_epoch io hdr nd))"
  by (auto simp: admit_def split: prod.split option.split)

lemma loader_go_seen:
  "loader_go c cfg k env ld nd = Inr nd' \<Longrightarrow> f_seen (nd_fencer nd) \<le> f_seen (nd_fencer nd')"
proof (induction c cfg k env ld nd rule: loader_go.induct)
  case (1 c cfg k env io src epoch nd)
  then show ?case
    using load_fencer_rises [OF HOL.refl, of c cfg env io epoch nd]
    by (auto simp: set_loader_def split: load_result.splits)
qed (auto simp: catch_up_round_def loader_apply_def drain_buffer_def set_loader_def split: if_splits option.splits)

lemma node_step_seen: "f_seen (nd_fencer nd) \<le> f_seen (nd_fencer (snd (node_step c srt psrt cfg ev nd)))"
proof (cases ev)
  case (NAdmit kind io hdr body)
  then show ?thesis
    using check_epoch_seen [of io hdr nd] admit_fencer [of kind io hdr body nd] by (simp add: case_prod_beta)
next
  case (NLoader k env)
  then show ?thesis
    using loader_go_seen [of c cfg k env "nd_loaders nd ! k" nd] by (auto simp: loader_step_def split: sum.split)
next
  case (NServe now env)
  then show ?thesis by (simp add: serve_def case_prod_beta deliver_state)
next
  case (NServeStale k now env)
  then show ?thesis by (simp add: serve_stale_def case_prod_beta deliver_state)
qed (auto simp: case_prod_beta handle_aggregates_def handle_freeze_def handle_thaw_def handle_abort_def handle_load_def
    send_to_buffer_def send_to_partition_def set_stage_def Let_def split: option.split sum.split req_stage.split)

interpretation ns: rising_machine "\<lambda>ev nd. snd (node_step c srt psrt cfg ev nd)" "\<lambda>_ _. True" "\<lambda>_. True"
    "\<lambda>nd. f_seen (nd_fencer nd)" for c srt psrt cfg
  by unfold_locales (simp_all add: node_step_seen del: node_step.simps)

text \<open>
  C12: A node fences its writes: once it has met an epoch in any write, later writes with an
  older one get \<open>409\<close> with the newest epoch and leave the rest of the node as it is,
  whatever happened in between.
\<close>

theorem stale_writes_refused:
  assumes "nd' = node_run c srt psrt cfg evs (snd (node_step c srt psrt cfg (NAdmit kind io hdr body) nd))"
    and "parse_epoch hdr' < parse_epoch hdr"
  shows "node_step c srt psrt cfg (NAdmit kind' io' hdr' body') nd' =
    ([(nd_next nd', Reply (StaleEpoch (parse_epoch hdr') (f_seen (nd_fencer nd'))))], nd'\<lparr>nd_next := nd_next nd' + 1\<rparr>)"
proof -
  let ?nd = "snd (node_step c srt psrt cfg (NAdmit kind io hdr body) nd)"
  have "parse_epoch hdr \<le> f_seen (nd_fencer ?nd)"
    using check_epoch_seen [of io hdr nd] admit_fencer [of kind io hdr body nd] by (simp add: case_prod_beta)
  also have "\<dots> \<le> f_seen (nd_fencer nd')"
    unfolding assms(1) by (rule ns.run_rises) (simp_all del: node_step.simps)
  finally have "parse_epoch hdr' < f_seen (nd_fencer nd')" using assms(2) by simp
  then show ?thesis by (simp add: admit_def check_epoch_def fencer_check_def Let_def)
qed

lemma parse_digits_range: "parse_digits s n = (v, Some ErrRange) \<Longrightarrow> v = - 1"
  by (induction s n rule: parse_digits.induct) (auto simp: Let_def split: if_splits)

text \<open>
  An epoch header that does not fit in 64 bits is taken for the highest epoch, because the
  error of \<open>ParseUint\<close> is dropped and its value kept: the write is not refused, and from
  then on the node refuses every write that carries another epoch.
\<close>

theorem overflowing_epoch_blocks_node:
  assumes "snd (parse_uint hdr) = Some ErrRange" and "parse_epoch hdr' \<noteq> - 1"
    and "nd' = node_run c srt psrt cfg evs (snd (node_step c srt psrt cfg (NAdmit kind io hdr body) nd))"
  shows "fst (check_epoch io hdr nd) = None \<and>
    fst (node_step c srt psrt cfg (NAdmit kind' io' hdr' body') nd') =
      [(nd_next nd', Reply (StaleEpoch (parse_epoch hdr') (f_seen (nd_fencer nd'))))]"
proof -
  have max: "parse_epoch hdr = - 1"
    using assms(1) parse_digits_range [of hdr 0 "fst (parse_digits hdr 0)"]
    by (cases "parse_digits hdr 0") (simp add: parse_epoch_def parse_uint_def split: if_splits)
  have "x \<le> - 1" for x :: u64 by (rule word_n1_ge)
  then have "fst (check_epoch io hdr nd) = None"
    using max by (auto simp: check_epoch_def fencer_check_def Let_def not_less [symmetric])
  moreover have "parse_epoch hdr' < parse_epoch hdr"
    using assms(2) max by (simp add: word_order.not_eq_extremum)
  ultimately show ?thesis using stale_writes_refused [OF assms(3)] by (simp del: node_step.simps)
qed

section \<open>Frozen partitions\<close>

text \<open>Everything but the ends of a transition: a thaw, an abort, or a loading goroutine.\<close>

fun keeps_frozen :: "node_event \<Rightarrow> bool" where
  "keeps_frozen (NThaw body) = False"
| "keeps_frozen NAbort = False"
| "keeps_frozen (NLoader k env) = False"
| "keeps_frozen ev = True"

definition frozen_at :: "u64 \<Rightarrow> node \<Rightarrow> bool" where
  "frozen_at head nd \<longleftrightarrow> status (nd_rs nd) = Frozen \<and> nd_pending nd = [] \<and> queues nd = [] \<and>
     log_head (pt_log (nd_part nd)) = head"

lemma log_compact_head:
  assumes "s_base snap = log_head l"
  shows "log_head (fst (snd (log_compact c io snap (l, d)))) = log_head l"
proof -
  have "unat (of_nat n :: u64) \<le> n" for n by (simp add: unat_of_nat)
  then have zero: "of_nat (n - unat (of_nat n :: u64)) = (0 :: u64)" for n by (simp add: of_nat_diff)
  have keep: "s_base snap - l_base l = of_nat (length (l_entries l))" by (simp add: assms log_head_def)
  show ?thesis
    unfolding log_compact_def prod.case Let_def keep
    by (simp add: zero assms log_head_def split: compact_io.split)
qed

lemma compact_head:
  assumes "part_step c srt (PCompact now io) (p, d) = (out, p', d')"
  shows "pt_apply p' = pt_apply p \<and> log_head (pt_log p') = log_head (pt_log p)"
proof -
  define snap where "snap = fst (agg_snapshot now (log_head (pt_log p)) (pt_agg p))"
  have "s_base snap = log_head (pt_log p)" by (simp add: snap_def agg_snapshot_def Let_def case_prod_beta)
  from log_compact_head [OF this, of c io d] assms show ?thesis
    by (auto simp: snap_def case_prod_beta Let_def split: if_splits)
qed

lemma idle_apply: "pt_apply p = [] \<Longrightarrow> part_step c srt (PApply now) (p, d) = ([], p, d)"
  by (simp add: part_step.simps(2))

lemma concat_nil_nth: "concat (List.map f xs) = [] \<Longrightarrow> k < length xs \<Longrightarrow> f (xs ! k) = []"
  by simp

abbreviation refusals :: "(nat \<times> outcome) list \<Rightarrow> bool" where
  "refusals outs \<equiv> \<forall>p\<in>set outs. \<exists>r. snd p = Reply r \<and> 400 \<le> reply_status r"

lemma frozen_step:
  assumes "frozen_at head nd" and "keeps_frozen ev"
  shows "frozen_at head (snd (node_step c srt psrt cfg ev nd)) \<and> refusals (fst (node_step c srt psrt cfg ev nd))"
proof -
  note fz = assms(1) [unfolded frozen_at_def]
  have idle: "pt_apply (nd_part nd) = []" "concat (List.map pt_apply (nd_stale nd)) = []"
    using fz by (simp_all add: queues_def)
  show ?thesis
  proof (cases ev)
    case (NAdmit kind io hdr body)
    show ?thesis
      by (rule admit_cases [of kind io hdr body nd]) (use fz in \<open>auto simp: NAdmit frozen_at_def queues_def\<close>)
  next
    case (NSend n)
    then show ?thesis using assms(1) fz by (simp add: pending_of_def)
  next
    case (NServe now env)
    then show ?thesis using assms(1) by (simp add: serve_def idle_apply [OF idle(1)])
  next
    case (NServeStale k now env)
    show ?thesis
    proof (cases "k < length (nd_stale nd)")
      case True
      have "pt_apply (nd_stale nd ! k) = []" using concat_nil_nth [OF idle(2) True] .
      with assms(1) True show ?thesis by (simp add: NServeStale serve_stale_def idle_apply)
    qed (use assms(1) NServeStale in simp)
  next
    case (NQuery now now')
    then show ?thesis using assms(1)
      by (simp add: handle_aggregates_def case_prod_beta frozen_at_def queues_def log_head_def)
  next
    case (NCompact now io)
    obtain out p d where st: "part_step c srt (PCompact now io) (nd_part nd, nd_disk nd) = (out, p, d)"
      by (rule prod_cases3)
    from compact_head [OF st] st fz show ?thesis
      by (simp add: NCompact frozen_at_def queues_def del: part_step.simps)
  next
    case (NCompactStale k now io)
    show ?thesis
    proof (cases "k < length (nd_stale nd)")
      case True
      obtain out p d where st: "part_step c srt (PCompact now io) (nd_stale nd ! k, nd_disk nd) = (out, p, d)"
        by (rule prod_cases3)
      have "pt_apply p = []" using compact_head [OF st] concat_nil_nth [OF idle(2) True] by simp
      then have "concat (List.map pt_apply ((nd_stale nd)[k := p])) = []"
        using idle(2) set_update_subset_insert [of "nd_stale nd" k p] by auto
      with st True fz idle(1) show ?thesis
        by (simp add: NCompactStale frozen_at_def queues_def del: part_step.simps concat_eq_Nil_conv)
    qed (use assms(1) NCompactStale in simp)
  next
    case (NFreeze body)
    with assms(1) show ?thesis
      by (auto simp: handle_freeze_def freeze_def frozen_at_def queues_def split: option.split)
  next
    case (NLoad body)
    with assms(1) show ?thesis
      by (auto simp: handle_load_def start_load_def frozen_at_def queues_def split: option.split)
  next
    case (NWatch e)
    with assms(1) show ?thesis by (simp add: frozen_at_def queues_def)
  next
    case (NSwim m)
    with assms(1) show ?thesis by (simp add: frozen_at_def queues_def)
  qed (use assms(2) in simp_all)
qed

text \<open>
  C19: A frozen node takes no writes: from the moment a freeze succeeds on a node that has no
  request in service, until a thaw, an abort or a loading goroutine, every write is
  refused and the head of its log stays where it is, so that the copy the target makes is
  complete.
\<close>

theorem frozen_node_keeps_head:
  assumes "started c psrt cfg nd0" and "is_sort_slice pt_hash psrt" and "node_run_ok c srt psrt cfg evs0 nd0"
    and "nd = node_run c srt psrt cfg evs0 nd0" and "nd_pending nd = []"
    and "handle_freeze (Some sid) nd = (200, nd1)" and "\<forall>ev\<in>set evs. keeps_frozen ev"
  shows "refusals (node_outs c srt psrt cfg evs nd1) \<and>
    log_head (pt_log (nd_part (node_run c srt psrt cfg evs nd1))) = log_head (pt_log (nd_part nd))"
proof -
  have "node_ok nd" unfolding assms(4) using assms(1-3) by (rule run_node_ok)
  then have "queues nd = []" using assms(5) by (simp add: node_ok_def requests_ok_def waiting_def)
  then have fz: "frozen_at (log_head (pt_log (nd_part nd))) nd1"
    using assms(5,6) by (auto simp: frozen_at_def handle_freeze_def freeze_def queues_def split: if_splits sum.splits)
  have "frozen_at head nd \<Longrightarrow> refusals (node_outs c srt psrt cfg evs nd) \<and> frozen_at head (node_run c srt psrt cfg evs nd)"
    if "\<forall>ev\<in>set evs. keeps_frozen ev" for head nd evs
    using that
  proof (induction evs arbitrary: nd)
    case Nil
    then show ?case by simp
  next
    case (Cons ev evs)
    have "keeps_frozen ev" using Cons.prems(2) by simp
    note first = frozen_step [OF Cons.prems(1) this, of c srt psrt cfg]
    note later = Cons.IH [OF first [THEN conjunct1]]
    show ?case
      using first later Cons.prems(2) by (simp add: case_prod_beta Let_def ball_Un del: node_step.simps)
  qed
  from this [OF assms(7) fz] show ?thesis by (simp add: frozen_at_def)
qed

section \<open>Retrying after a missed quorum\<close>

lemma log_append_ttl [simp]:
  assumes "log_ok s"
  shows "d_ttl (l_dedup (fst (snd (log_append c now i k v s)))) = d_ttl (l_dedup (fst s))"
  using assms by (cases s) (simp add: log_ok_def log_append_cases)

lemma append_all_added_live:
  assumes "log_ok s" and "\<not> l_noidem (fst s)" and "append_all c now reqs s = (rs, s')"
    and "((i, k, v), e, True) \<in> set (zip reqs rs)" and "now \<le> t"
    and "t - now \<le> d_ttl (l_dedup (fst s)) - second"
  shows "i \<in> live (l_dedup (fst s')) t"
  using assms
proof (induction reqs arbitrary: s rs)
  case (Cons r reqs)
  obtain i1 k1 v1 where r: "r = (i1, k1, v1)" by (cases r)
  obtain res s1 where a: "log_append c now i1 k1 v1 s = (res, s1)" by (metis prod.exhaust)
  obtain rs1 where all: "append_all c now reqs s1 = (rs1, s')" and rs: "rs = res # rs1"
    using Cons.prems(3) a by (auto simp: r split: prod.splits)
  have ok: "log_ok s1" using log_append_ok [OF Cons.prems(1), of c now i1 k1 v1] a by simp
  have idem: "\<not> l_noidem (fst s1)" using log_append_noidem [of c now i1 k1 v1 s] a Cons.prems(2) by simp
  have ttl: "d_ttl (l_dedup (fst s1)) = d_ttl (l_dedup (fst s))"
    using log_append_ttl [OF Cons.prems(1), of c now i1 k1 v1] a by simp
  from Cons.prems(4) consider "(i, k, v) = r" "res = (e, True)" | "((i, k, v), e, True) \<in> set (zip reqs rs1)"
    by (auto simp: rs)
  then show ?case
  proof cases
    case 1
    then have "i \<in> live (l_dedup (fst s1)) t"
      using log_append_added_live [OF Cons.prems(1,2), of c now i k v t] Cons.prems(6) a r by simp
    then show ?thesis using append_all_live [OF ok Cons.prems(5), of c reqs] all by auto
  next
    case 2
    from Cons.IH [OF ok idem all 2 Cons.prems(5)] Cons.prems(6) ttl show ?thesis by simp
  qed
qed simp

lemma append_one_dup:
  assumes "log_ok (l, d)" and "\<not> l_noidem l" and "i \<in> live (l_dedup l) t"
  shows "append_all c t [(i, k, v)] (l, d) = ([(zero_entry, False)], l\<lparr>l_dedup := dedup_after i t l\<rparr>, d)"
  using assms by (simp add: log_ok_def log_append_cases)

lemma admit_and_send:
  assumes "requests_ok nd" and "pt_apply (nd_part nd) = []" and "status (nd_rs nd) = Normal"
    and "fst (admit kind io hdr (Some req) nd) = []"
    and "nd2 = node_run c srt psrt cfg [NAdmit kind io hdr (Some req), NSend (nd_next nd)] nd"
  shows "nd_part nd2 = (nd_part nd)\<lparr>pt_apply :=
      [\<lparr>ac_id = er_id req, ac_key = er_key req, ac_value = er_value req, ac_reply = nd_next nd\<rparr>]\<rparr> \<and>
    (\<exists>pd. pending_of (nd_next nd) nd2 = Some pd \<and> pd_kind pd = kind \<and> pd_req pd = req) \<and> nd_disk nd2 = nd_disk nd"
proof (rule admit_cases [of kind io hdr "Some req" nd])
  fix r f fs assume "admit kind io hdr (Some req) nd = ([Reply r], nd\<lparr>nd_fencer := f, nd_files := fs\<rparr>)"
  with assms(4) show ?thesis by simp
next
  fix req' stage f fs
  assume *: "Some req = Some req'" "stage = ToBuffer \<longleftrightarrow> status (nd_rs nd) = Loading" "stage \<noteq> Waiting"
    "admit kind io hdr (Some req) nd =
      ([], add_pending kind stage req' (parse_epoch hdr) (nd\<lparr>nd_fencer := f, nd_files := fs\<rparr>))"
  then have "stage = ToApply" using assms(3) by (cases stage) auto
  note fresh = next_not_pending [OF assms(1)]
  have find_map: "find (\<lambda>pd. pd_num pd = n) (List.map (\<lambda>pd. if pd_num pd = n then pd\<lparr>pd_stage := st\<rparr> else pd) xs) =
      map_option (\<lambda>pd. pd\<lparr>pd_stage := st\<rparr>) (find (\<lambda>pd. pd_num pd = n) xs)" for n st and xs :: "pending list"
    by (induction xs) auto
  show ?thesis
    using * \<open>stage = ToApply\<close> assms(2) fresh
    by (simp add: assms(5) add_pending_def pending_of_def find_app send_to_partition_def set_stage_def
        part_enqueue_def Let_def find_map)
qed

text \<open>
  A write that missed its quorum is kept, and its retry is acknowledged without being
  replicated: the primary answers \<open>503\<close> because too few replicas have the write, but
  the same request sent again is a duplicate for the partition, so that it gets \<open>200\<close> with
  offset zero although every replica may still be unreachable.
\<close>

theorem retry_acknowledged_without_quorum:
  assumes "started c psrt cfg nd0" and "is_sort_slice pt_hash psrt" and "node_run_ok c srt psrt cfg evs nd0"
    and "nd = node_run c srt psrt cfg evs nd0"
    and "node_step c srt psrt cfg (NServe now env) nd = (outs, nd1)" and "(n, Reply (QuorumMissed w)) \<in> set outs"
    and "pending_of n nd = Some pd" and "\<not> l_noidem (pt_log (nd_part nd))" and "now \<le> t"
    and "t - now \<le> d_ttl (l_dedup (pt_log (nd_part nd))) - second"
    and "pt_apply (nd_part nd1) = []" and "status (nd_rs nd1) = Normal"
    and "fst (admit ClientEvent io hdr (Some (pd_req pd)) nd1) = []"
    and "nd2 = node_run c srt psrt cfg [NAdmit ClientEvent io hdr (Some (pd_req pd)), NSend (nd_next nd1)] nd1"
  shows "fst (node_step c srt psrt cfg (NServe t env') nd2) = [(nd_next nd1, Reply (DuplicateReply 0))]"
proof -
  have ok: "node_ok nd" unfolding assms(4) using assms(1-3) by (rule run_node_ok)
  have outs: "outs = fst (serve c cfg env now nd)" and nd1: "nd1 = snd (serve c cfg env now nd)"
    using assms(5) by simp_all
  have ok1: "node_ok nd1" unfolding nd1 using ok by (rule serve_ok)
  from serve_outs [OF ok assms(6) [unfolded outs]] obtain e fresh rs cmds where
    oc: "Reply (QuorumMissed w) \<in> set (reply_to cfg (env n) pd (e, fresh) nd)"
    and app: "append_all c now (List.map request cmds) (pt_log (nd_part nd), nd_disk nd) = (rs, pt_log (nd_part nd1), nd_disk nd1)"
    and res: "((er_id (pd_req pd), er_key (pd_req pd), er_value (pd_req pd)), e, fresh) \<in> set (zip (List.map request cmds) rs)"
    unfolding nd1 using assms(7) by auto
  have fresh: "fresh" using oc by (auto simp: reply_to_def split: req_kind.splits if_splits)
  have log: "log_ok (pt_log (nd_part nd), nd_disk nd)" using ok by (simp add: node_ok_def partition_ok_def log_ok_def)
  have live: "er_id (pd_req pd) \<in> live (l_dedup (pt_log (nd_part nd1))) t"
    using append_all_added_live [OF log _ app res [unfolded fresh [THEN eqTrueI]] assms(9)] assms(8,10) fresh by simp
  have idem: "\<not> l_noidem (pt_log (nd_part nd1))"
    using append_all_noidem [of c now "List.map request cmds" "(pt_log (nd_part nd), nd_disk nd)"] app assms(8) by simp
  have r1: "requests_ok nd1" using ok1 by (simp add: node_ok_def)
  from admit_and_send [OF r1 assms(11,12,13,14)] obtain q where
    part: "nd_part nd2 = (nd_part nd1)\<lparr>pt_apply := [\<lparr>ac_id = er_id (pd_req pd), ac_key = er_key (pd_req pd),
        ac_value = er_value (pd_req pd), ac_reply = nd_next nd1\<rparr>]\<rparr>"
    and q: "pending_of (nd_next nd1) nd2 = Some q" "pd_kind q = ClientEvent" and "nd_disk nd2 = nd_disk nd1" by blast
  define cmd where "cmd = \<lparr>ac_id = er_id (pd_req pd), ac_key = er_key (pd_req pd), ac_value = er_value (pd_req pd),
    ac_reply = nd_next nd1\<rparr>"
  have batch: "1 \<le> pt_batch (nd_part nd2)" using ok1 by (simp add: part node_ok_def partition_ok_def)
  then have "served (nd_part nd2) = [cmd]"
    by (cases "nat (pt_batch (nd_part nd2))") (auto simp: part cmd_def)
  moreover obtain out p d where st: "part_step c id (PApply t) (nd_part nd2, nd_disk nd2) = (out, p, d)"
    by (rule prod_cases3)
  ultimately obtain rs2 where "append_all c t [request cmd] (pt_log (nd_part nd1), nd_disk nd2) = (rs2, pt_log p, d)"
    "out = List.map2 (\<lambda>cmd r. Applied (ac_reply cmd) r) [cmd] rs2"
    using apply_step [OF batch st] part by auto
  moreover have "log_ok (pt_log (nd_part nd1), nd_disk nd2)"
    using ok1 by (simp add: node_ok_def partition_ok_def log_ok_def)
  ultimately have "out = [Applied (nd_next nd1) (zero_entry, False)]"
    using append_one_dup [OF _ idem live] by (auto simp: cmd_def simp del: append_all.simps)
  with st q show ?thesis
    by (simp add: serve_def pending_of_def reply_to_def zero_entry_def)
qed

section \<open>Witnesses\<close>

lemma parse_epochs: "parse_epoch ''4'' = 4" "parse_epoch ''5'' = 5" "parse_epoch [] = 0"
  by (simp_all add: parse_epoch_def parse_uint_def)

lemma stale_writes_refused_witness:
  "\<exists>n seen. fst (node_step no_codec (\<lambda>xs. xs) stable cfg_a (NAdmit ReplicaEvent Persists ''4'' (Some req_a))
     (snd (node_step no_codec (\<lambda>xs. xs) stable cfg_a (NAdmit ClientEvent Persists ''5'' None) node_a))) =
     [(n, Reply (StaleEpoch 4 seen))]"
  using stale_writes_refused [of _ no_codec "\<lambda>xs. xs" stable cfg_a "[]" ClientEvent Persists "''5''" None node_a
      "''4''" ReplicaEvent Persists "Some req_a"]
  by (auto simp: parse_epochs simp del: node_step.simps)

lemma too_large: "snd (parse_uint ''18446744073709551616'') = Some ErrRange"
  by (simp add: parse_uint_def)

lemma overflowing_epoch_blocks_node_witness:
  "\<exists>n seen. fst (node_step no_codec (\<lambda>xs. xs) stable cfg_a (NAdmit ClientEvent Persists ''5'' (Some req_a))
     (snd (node_step no_codec (\<lambda>xs. xs) stable cfg_a (NAdmit ClientEvent Persists ''18446744073709551616'' None) node_a))) =
     [(n, Reply (StaleEpoch 5 seen))]"
proof -
  have "parse_epoch ''5'' \<noteq> - 1" by (simp add: parse_epochs)
  from overflowing_epoch_blocks_node [OF too_large this, of _ no_codec "\<lambda>xs. xs" stable cfg_a "[]" ClientEvent Persists None node_a]
  show ?thesis by (auto simp: parse_epochs simp del: node_step.simps)
qed

lemma frozen_node_keeps_head_witness:
  "log_head (pt_log (nd_part (node_run no_codec (\<lambda>xs. xs) stable cfg_a
       (admit_a @ [NServe 1 (\<lambda>_. env_b NetError)]) (snd (handle_freeze (Some ''s'') node_a))))) =
     log_head (pt_log (nd_part node_a))"
proof -
  have fr: "handle_freeze (Some ''s'') node_a = (200, snd (handle_freeze (Some ''s'') node_a))"
    by (simp add: handle_freeze_def freeze_def node_a_def rs_init_def)
  have "node_run_ok no_codec (\<lambda>xs. xs) stable cfg_a [] node_a" "node_a = node_run no_codec (\<lambda>xs. xs) stable cfg_a [] node_a"
    by simp_all
  moreover have "nd_pending node_a = []" by (simp add: node_a_def)
  ultimately show ?thesis
    using frozen_node_keeps_head [OF started_a stable_sorts _ _ _ fr, of "\<lambda>xs. xs" "[]"
        "admit_a @ [NServe 1 (\<lambda>_. env_b NetError)]"]
    by (simp del: node_step.simps)
qed

definition node_a_missed :: node where
  "node_a_missed = snd (node_step no_codec (\<lambda>xs. xs) stable cfg_a (NServe 1 (\<lambda>_. env_b NetError)) node_a_waiting)"

lemma node_a_missed_fields:
  "pt_apply (nd_part node_a_missed) = []" "status (nd_rs node_a_missed) = Normal" "nd_next node_a_missed = 1"
  "pt_cap (nd_part node_a_missed) = 8" "nd_fencer node_a_missed = \<lparr>f_seen = 0, f_path = ''epoch''\<rparr>"
  by (simp_all add: node_a_missed_def serve_def node_a_waiting_def node_a_def memory_partition_def part_step.simps(2)
      apply_one_def append_to_new deliver_state rs_init_def del: deliver.simps)

lemma retry_acknowledged_without_quorum_witness:
  "fst (node_step no_codec (\<lambda>xs. xs) stable cfg_a (NServe 2 (\<lambda>_. env_b NetError))
     (node_run no_codec (\<lambda>xs. xs) stable cfg_a [NAdmit ClientEvent Persists [] (Some req_a), NSend 1] node_a_missed)) =
     [(1, Reply (DuplicateReply 0))]"
proof -
  let ?step = "node_step no_codec (\<lambda>xs. xs) stable cfg_a (NServe 1 (\<lambda>_. env_b NetError)) node_a_waiting"
  have st: "?step = ([(0, Reply (QuorumMissed 2))], node_a_missed)"
    using serve_a [of "\<lambda>xs. xs" 1 NetError] unfolding node_a_missed_def
    by (intro prod_eqI) (simp_all add: post_replicate_def del: node_step.simps)
  have run: "node_run_ok no_codec (\<lambda>xs. xs) stable cfg_a admit_a node_a" by simp
  have pd: "pending_of 0 node_a_waiting = Some pending_a" by (simp add: pending_of_def node_a_waiting_def)
  have log: "\<not> l_noidem (pt_log (nd_part node_a_waiting))"
    "2 - 1 \<le> d_ttl (l_dedup (pt_log (nd_part node_a_waiting))) - second"
    by (simp_all add: node_a_waiting_def memory_partition_def log_new_def new_dedup_def dedup_ttl_def)
  have admit: "fst (admit ClientEvent Persists [] (Some (pd_req pending_a)) node_a_missed) = []"
    by (simp add: admit_def check_epoch_def parse_epochs fencer_check_def Let_def check_shedding_def queue_depth_def
        queue_cap_def rs_check_def is_loading_def node_a_missed_fields)
  show ?thesis
    using retry_acknowledged_without_quorum [OF started_a stable_sorts run admit_run [symmetric] st _ pd log(1) _ log(2)
        node_a_missed_fields(1,2) admit HOL.refl, of 2 "\<lambda>_. env_b NetError"]
    by (simp add: node_a_missed_fields(3) del: node_step.simps)
qed

end
