(* ===== verification/NodeLoads.thy ===== *)
theory NodeLoads
  imports NodeGuards
begin

text \<open>
  Moving a partition: what a load copies from the source, and the writes it loses. The
  lemmas follow the new partition through \<open>apply_tail\<close> and the replaced one through the
  events that come after.
\<close>

section \<open>Applying the tail of the source's log\<close>

abbreviation known_ids :: "log \<Rightarrow> string set" where
  "known_ids l \<equiv> dom (map_of (d_at (l_dedup l)))"

lemma log_append_known:
  assumes "log_ok (l, d)"
  shows "known_ids (fst (snd (log_append c now i k v (l, d)))) \<subseteq> insert i (known_ids l)"
proof -
  have ok: "dedup_ok (l_dedup l)" using assms by (simp add: log_ok_def dedup_good_def)
  have "dom (map_of (d_at (dedup_after i now l))) \<subseteq> known_ids l"
    by (auto simp: dedup_after_def dedup_seen_def Let_def map_of_evict [OF ok] split: option.splits if_splits)
  moreover have "dom (map_of (d_at (dedup_add i now d))) \<subseteq> insert i (dom (map_of (d_at d)))" for d
    by (auto simp: dedup_add_def Let_def map_simps)
  ultimately have "dom (map_of (d_at (dedup_add i now (dedup_after i now l)))) \<subseteq> insert i (known_ids l)"
    and "dom (map_of (d_at (dedup_after i now l))) \<subseteq> insert i (known_ids l)" by blast+
  then show ?thesis using assms by (simp add: log_ok_def log_append_cases)
qed

lemma log_append_unknown:
  assumes "log_ok (l, d)" and "i \<notin> known_ids l"
  shows "\<exists>l' d'. log_append c now i k v (l, d) = ((new_entry l now i k v, True), l', d') \<and>
    l_entries l' = l_entries l @ [new_entry l now i k v] \<and> l_base l' = l_base l"
  using assms by (auto simp: log_ok_def log_append_cases live_def)

lemma apply_one_step:
  assumes "partition_ok p" and "pt_apply p = []"
    and "part_step c id (PApply now) (part_enqueue cmd p, d) = (out, p', d')"
  shows "pt_apply p' = [] \<and> partition_ok p' \<and>
    snd (log_append c now (ac_id cmd) (ac_key cmd) (ac_value cmd) (pt_log p, d)) = (pt_log p', d')"
proof -
  let ?p = "part_enqueue cmd p"
  have ok: "partition_ok ?p" "pt_apply ?p = [cmd]" "pt_log ?p = pt_log p"
    using assms(1,2) by (simp_all add: part_enqueue_def partition_ok_def)
  then have b: "1 \<le> pt_batch ?p" by (simp add: partition_ok_def)
  then have sv: "served ?p = [cmd]" and dr: "drop (nat (pt_batch ?p)) (pt_apply ?p) = []"
    by (cases "nat (pt_batch ?p)"; simp add: ok(2))+
  from apply_step [OF b assms(3)] have
    app: "\<exists>rs. append_all c now [request cmd] (pt_log p, d) = (rs, pt_log p', d')" and "pt_apply p' = []"
    unfolding sv dr ok(3) by auto
  moreover have "partition_ok p'" by (rule part_step_ok [OF ok(1) assms(3)])
  ultimately show ?thesis by (auto simp: case_prod_beta)
qed

abbreviation content :: "entry \<Rightarrow> u64 \<times> string \<times> string \<times> bytes" where
  "content e \<equiv> (e_offset e, e_id e, e_key e, e_value e)"

lemma disjoint_grown: "A \<inter> B = {} \<Longrightarrow> x \<notin> A \<Longrightarrow> C \<subseteq> insert x B \<Longrightarrow> A \<inter> C = {}"
  by blast

lemma apply_tail_log:
  assumes "partition_ok (fst s)" and "pt_apply (fst s) = []" and "distinct (List.map e_id es)"
    and "e_id ` set es \<inter> known_ids (pt_log (fst s)) = {}"
    and "dense (log_head (pt_log (fst s))) es"
  shows "l_base (pt_log (fst (apply_tail c at i es s))) = l_base (pt_log (fst s)) \<and>
    (\<exists>new. l_entries (pt_log (fst (apply_tail c at i es s))) = l_entries (pt_log (fst s)) @ new \<and>
      List.map content new = List.map content es \<and> List.map e_time new = List.map at [i..<i + length es])"
  using assms
proof (induction es arbitrary: i s)
  case (Cons e es)
  obtain p d where s: "s = (p, d)" by fastforce
  define cmd where "cmd = \<lparr>ac_id = e_id e, ac_key = e_key e, ac_value = e_value e, ac_reply = 0\<rparr>"
  obtain out p' d' where st: "part_step c id (PApply (at i)) (part_enqueue cmd p, d) = (out, p', d')"
    by (rule prod_cases3)
  have ok: "partition_ok p" "pt_apply p = []" "e_id e \<notin> known_ids (pt_log p)" using Cons.prems by (auto simp: s)
  from apply_one_step [OF ok(1,2) st] have p': "pt_apply p' = []" "partition_ok p'" and
    app: "snd (log_append c (at i) (e_id e) (e_key e) (e_value e) (pt_log p, d)) = (pt_log p', d')"
    by (simp_all add: cmd_def)
  have log: "log_ok (pt_log p, d)" using ok(1) by (simp add: partition_ok_def log_ok_def)
  let ?new = "new_entry (pt_log p) (at i) (e_id e) (e_key e) (e_value e)"
  have new: "l_entries (pt_log p') = l_entries (pt_log p) @ [?new]" "l_base (pt_log p') = l_base (pt_log p)"
    using app log_append_unknown [OF log ok(3), of c "at i" "e_key e" "e_value e"] by auto
  have known: "known_ids (pt_log p') \<subseteq> insert (e_id e) (known_ids (pt_log p))"
    using app log_append_known [OF log, of c "at i" "e_id e" "e_key e" "e_value e"] by auto
  have e0: "e_offset e = log_head (pt_log p)" and rest: "dense (log_head (pt_log p')) es"
    using Cons.prems(5) new unfolding dense_def by (auto simp: s log_head_def ac_simps)
  have dist: "distinct (List.map e_id es)" and out: "e_id e \<notin> e_id ` set es" using Cons.prems(3) by auto
  have "e_id ` set es \<inter> known_ids (pt_log p) = {}" using Cons.prems(4) by (auto simp: s)
  from disjoint_grown [OF this out known] have "e_id ` set es \<inter> known_ids (pt_log p') = {}" .
  from Cons.IH [of "(p', d')" "i + 1"] this p' dist rest obtain new' where
    tl: "l_base (pt_log (fst (apply_tail c at (i + 1) es (p', d')))) = l_base (pt_log p')"
    "l_entries (pt_log (fst (apply_tail c at (i + 1) es (p', d')))) = l_entries (pt_log p') @ new'"
    "List.map content new' = List.map content es" "List.map e_time new' = List.map at [i + 1..<i + 1 + length es]"
    by auto
  have "apply_tail c at i (e # es) s = apply_tail c at (i + 1) es (p', d')"
    using st by (simp add: s cmd_def)
  moreover have "[i..<i + length (e # es)] = i # [i + 1..<i + 1 + length es]" by (simp add: upt_rec)
  moreover have "content ?new = content e" using e0 by (simp add: log_head_def)
  ultimately show ?case
    using tl new by (intro conjI exI [of _ "?new # new'"]) (simp_all add: s)
qed simp
section \<open>What a load leaves\<close>

lemma open_without_wal:
  assumes "part_open c io now dir window topk cap noidem batch d = Inr (p, d')" and "dir \<noteq> []"
    and "wal_file d = None \<or> wal_file d = Some []"
  shows "l_entries (pt_log p) = [] \<and> l_base (pt_log p) = (case load_snapshot c d of None \<Rightarrow> 0 | Some s \<Rightarrow> s_base s) \<and>
    known_ids (pt_log p) = {}"
proof -
  have "scan (case wal_file d of None \<Rightarrow> [] | Some b \<Rightarrow> b) = []"
    using assms(3) by auto
  then show ?thesis
    using assms(1,2)
    by (auto simp: part_open_def log_open_def set_no_idempotent_def Let_def new_dedup_def dedup_evict_def
        split: if_splits sum.splits prod.splits)
qed

abbreviation fetched_disk :: "codec \<Rightarrow> snapshot \<Rightarrow> disk \<Rightarrow> disk" where
  "fetched_disk c snap d \<equiv> d\<lparr>wal_file := None, snap_file := Some (enc_snap c snap), snap_tmp := None\<rparr>"

lemma load_done_copy:
  assumes "load_from_source c cfg env io epoch nd = LoadDone nd'" and "nc_dir cfg \<noteq> []"
    and "le_snap env = Some snap" and "le_save env = Saved"
  obtains p0 es where "part_open c (le_open env) (le_now env) (nc_dir cfg) (nc_window cfg) (nc_topk cfg) (nc_queue cfg)
      (nc_noidem cfg) (nc_batch cfg) (fetched_disk c snap (nd_disk nd)) = Inr p0"
    "le_tail env (s_base snap) = Some es"
    "nd_part nd' = fst (apply_tail c (le_clock env) 0 es p0)" "nd_disk nd' = snd (apply_tail c (le_clock env) 0 es p0)"
    "nd_stale nd' = nd_stale nd @ [detach (nd_part nd)]"
proof -
  have twice: "detach (detach p) = detach p" for p by (simp add: detach_def)
  let ?d = "fetched_disk c snap (nd_disk nd)"
  let ?open = "part_open c (le_open env) (le_now env) (nc_dir cfg) (nc_window cfg) (nc_topk cfg) (nc_queue cfg)
      (nc_noidem cfg) (nc_batch cfg) ?d"
  have d: "(save_snapshot c Saved snap (nd_disk nd))\<lparr>wal_file := None\<rparr> = ?d"
    by (simp add: save_snapshot_def Let_def)
  show thesis
  proof (cases "le_tail env (s_base snap)")
    case None
    with assms show thesis by (simp add: load_from_source_def)
  next
    case (Some es)
    show thesis
    proof (cases ?open)
      case (Inl err)
      with assms Some show thesis by (simp add: load_from_source_def d twice Let_def)
    next
      case (Inr p0)
      obtain p1 d1 where t: "apply_tail c (le_clock env) 0 es p0 = (p1, d1)" by fastforce
      from assms Some Inr t have "nd_part nd' = p1 \<and> nd_disk nd' = d1 \<and> nd_stale nd' = nd_stale nd @ [detach (nd_part nd)]"
        by (auto simp: load_from_source_def d twice Let_def case_prod_beta)
      then show thesis using Inr Some by (intro that [of p0 es]) (simp_all add: t)
    qed
  qed
qed

text \<open>
  A load that succeeds with the source's snapshot makes the target's log a copy of the
  source's: the same base, and the same offsets, identifiers, keys and values. Only the
  times are those of the load, so that the window of the aggregate starts anew for the
  copied entries.
\<close>

theorem load_copies_log:
  assumes "load_from_source c cfg env io epoch nd = LoadDone nd'" and "nc_dir cfg \<noteq> []"
    and "le_snap env = Some snap" and "le_save env = Saved" and "dec_snap c (enc_snap c snap) = Some snap"
    and "le_tail env (s_base snap) = Some es" and "dense (s_base snap) es" and "distinct (List.map e_id es)"
  shows "log_base_offset (pt_log (nd_part nd')) = s_base snap \<and>
    List.map content (l_entries (pt_log (nd_part nd'))) = List.map content es \<and>
    List.map e_time (l_entries (pt_log (nd_part nd'))) = List.map (le_clock env) [0..<length es]"
proof -
  obtain p0 where open_p: "part_open c (le_open env) (le_now env) (nc_dir cfg) (nc_window cfg) (nc_topk cfg) (nc_queue cfg)
      (nc_noidem cfg) (nc_batch cfg) (fetched_disk c snap (nd_disk nd)) = Inr p0"
    and part: "nd_part nd' = fst (apply_tail c (le_clock env) 0 es p0)"
    using load_done_copy [OF assms(1-4)] assms(6) by (metis option.inject)
  obtain p d where p0: "p0 = (p, d)" by fastforce
  have "load_snapshot c (fetched_disk c snap (nd_disk nd)) = Some snap" by (simp add: load_snapshot_def assms(5))
  with open_without_wal [OF open_p [unfolded p0] assms(2)] have
    empty: "l_entries (pt_log p) = []" "l_base (pt_log p) = s_base snap" "known_ids (pt_log p) = {}" by simp_all
  then have "log_head (pt_log p) = s_base snap" by (simp add: log_head_def)
  with apply_tail_log [of "(p, d)" es c "le_clock env" 0] part_open_ok [OF open_p [unfolded p0]] empty assms(7,8)
  show ?thesis by (auto simp: part p0 log_base_offset_def)
qed

section \<open>After the write-ahead file was removed\<close>

text \<open>Serving requests: no compaction, no load, no replaced partition.\<close>

fun serving :: "node_event \<Rightarrow> bool" where
  "serving (NAdmit kind io hdr body) = True"
| "serving (NSend n) = True"
| "serving (NServe now env) = True"
| "serving (NQuery now now') = True"
| "serving ev = False"

definition detached :: "disk \<Rightarrow> node \<Rightarrow> bool" where
  "detached d nd \<longleftrightarrow> nd_disk nd = d \<and> l_wal (pt_log (nd_part nd)) = ClosedWal"

lemma log_append_closed:
  "l_wal l = ClosedWal \<Longrightarrow> log_append c now i k v (l, d) = (r, l', d') \<Longrightarrow> d' = d \<and> l_wal l' = ClosedWal"
  by (auto simp: log_append_def Let_def wal_write_def split: prod.splits if_splits)

lemma append_all_closed:
  "l_wal l = ClosedWal \<Longrightarrow> append_all c now reqs (l, d) = (rs, l', d') \<Longrightarrow> d' = d \<and> l_wal l' = ClosedWal"
proof (induction reqs arbitrary: l d rs)
  case (Cons r reqs)
  obtain i k v where r: "r = (i, k, v)" by (cases r)
  obtain res l1 d1 where a: "log_append c now i k v (l, d) = (res, l1, d1)" by (rule prod_cases3)
  from log_append_closed [OF Cons.prems(1) a] have "d1 = d" "l_wal l1 = ClosedWal" by simp_all
  moreover obtain rs1 where "append_all c now reqs (l1, d1) = (rs1, l', d')"
    using Cons.prems(2) a by (auto simp: r split: prod.splits)
  ultimately show ?case using Cons.IH by blast
qed simp

lemma detached_step:
  assumes "node_ok nd" and "detached d nd" and "serving ev"
  shows "detached d (snd (node_step c srt psrt cfg ev nd)) \<and> nd_stale (snd (node_step c srt psrt cfg ev nd)) = nd_stale nd"
proof (cases ev)
  case (NAdmit kind io hdr body)
  show ?thesis
    by (rule admit_cases [of kind io hdr body nd]) (use assms(2) in \<open>auto simp: NAdmit detached_def\<close>)
next
  case (NSend n)
  with assms(2) show ?thesis
    by (auto simp: detached_def send_to_buffer_def send_to_partition_def set_stage_def part_enqueue_def Let_def
        case_prod_beta split: option.split req_stage.split)
next
  case (NServe now env)
  obtain out p d' where st: "part_step c id (PApply now) (nd_part nd, nd_disk nd) = (out, p, d')" by (rule prod_cases3)
  have "1 \<le> pt_batch (nd_part nd)" using assms(1) by (simp add: node_ok_def partition_ok_def)
  from apply_step [OF this st] append_all_closed assms(2) have "d' = d \<and> l_wal (pt_log p) = ClosedWal"
    unfolding detached_def by blast
  then show ?thesis by (simp add: NServe serve_def st deliver_state detached_def)
next
  case (NQuery now now')
  with assms(2) show ?thesis by (simp add: handle_aggregates_def case_prod_beta detached_def)
qed (use assms(3) in simp_all)

lemma serving_ok: "serving ev \<Longrightarrow> (\<forall>kind io hdr body. ev = NAdmit kind io hdr body \<longrightarrow> kind = ClientEvent \<or> kind = ReplicaEvent) \<Longrightarrow>
    node_event_ok psrt ev nd"
  by (cases ev) auto

lemma detached_run:
  "node_ok nd \<Longrightarrow> node_run_ok c srt psrt cfg evs nd \<Longrightarrow> detached d nd \<Longrightarrow> \<forall>ev\<in>set evs. serving ev \<Longrightarrow>
    detached d (node_run c srt psrt cfg evs nd) \<and> nd_stale (node_run c srt psrt cfg evs nd) = nd_stale nd"
proof (induction evs arbitrary: nd)
  case (Cons ev evs)
  let ?nd = "snd (node_step c srt psrt cfg ev nd)"
  have "node_ok ?nd" using Cons.prems by (intro node_step_ok) auto
  moreover have "detached d ?nd \<and> nd_stale ?nd = nd_stale nd" using Cons.prems by (intro detached_step) auto
  ultimately show ?case using Cons.IH [of ?nd] Cons.prems by (simp del: node_step.simps)
qed simp

text \<open>What a restart reads from the data directory.\<close>

abbreviation restarted_log :: "codec \<Rightarrow> gotime \<Rightarrow> node_config \<Rightarrow> node \<Rightarrow> log_error + (log \<times> disk)" where
  "restarted_log c t cfg nd \<equiv> log_open c OpenOk t (nc_dir cfg) (nd_disk nd)"

lemma restart_empty:
  assumes "nc_dir cfg \<noteq> []" and "wal_file (nd_disk nd) = None \<or> wal_file (nd_disk nd) = Some []"
    and "load_snapshot c (nd_disk nd) = Some snap"
  shows "\<exists>l d. restarted_log c t cfg nd = Inr (l, d) \<and> l_entries l = [] \<and> l_base l = s_base snap"
proof -
  have "scan (case wal_file (nd_disk nd) of None \<Rightarrow> [] | Some b \<Rightarrow> b) = []" using assms(2) by auto
  then show ?thesis using assms(1,3) by (auto simp: log_open_def Let_def)
qed

text \<open>
  A load that fails after the source's snapshot arrived has already removed the
  target's own write-ahead file and replaced its snapshot. The node goes on serving with
  what it has in memory and acknowledges writes, but none of them is on disk: after any
  requests, a restart finds no entry, at the source's base offset.
\<close>

theorem failed_load_loses_durability:
  assumes "started c psrt cfg nd0" and "is_sort_slice pt_hash psrt" and "node_run_ok c srt psrt cfg evs0 nd0"
    and "nd = node_run c srt psrt cfg evs0 nd0" and "nc_dir cfg \<noteq> []" and "l_wal (pt_log (nd_part nd)) = OpenWal"
    and "load_from_source c cfg env io epoch nd = LoadFailed nd1"
    and "le_snap env = Some snap" and "le_save env = Saved" and "dec_snap c (enc_snap c snap) = Some snap"
    and "node_run_ok c srt psrt cfg evs nd1" and "\<forall>ev\<in>set evs. serving ev"
  shows "l_entries (pt_log (nd_part nd1)) = l_entries (pt_log (nd_part nd)) \<and>
    (\<exists>l d. restarted_log c t cfg (node_run c srt psrt cfg evs nd1) = Inr (l, d) \<and> l_entries l = [] \<and> l_base l = s_base snap)"
proof -
  have ok: "node_ok nd" unfolding assms(4) using assms(1-3) by (rule run_node_ok)
  have nd1: "nd1 = nd\<lparr>nd_disk := fetched_disk c snap (nd_disk nd), nd_part := detach (nd_part nd)\<rparr>"
    using assms(5,7-9) by (auto simp: load_from_source_def save_snapshot_def Let_def split: option.splits sum.splits prod.splits)
  have "node_ok nd1"
    using ok unfolding nd1 by (intro node_ok_same [OF ok]) (auto simp: node_ok_def queues_def)
  moreover have "detached (fetched_disk c snap (nd_disk nd)) nd1"
    using assms(6) by (simp add: nd1 detached_def detach_def)
  ultimately have "detached (fetched_disk c snap (nd_disk nd)) (node_run c srt psrt cfg evs nd1)"
    using detached_run assms(11,12) by blast
  then have "wal_file (nd_disk (node_run c srt psrt cfg evs nd1)) = None"
    "load_snapshot c (nd_disk (node_run c srt psrt cfg evs nd1)) = Some snap"
    by (simp_all add: detached_def load_snapshot_def assms(10))
  then show ?thesis
    using restart_empty [OF assms(5)] assms(6) by (simp add: nd1 detach_def)
qed

section \<open>The replaced partition\<close>

lemma serving_stale: "serving ev \<Longrightarrow> nd_stale (snd (node_step c srt psrt cfg ev nd)) = nd_stale nd"
proof (cases ev)
  case (NAdmit kind io hdr body)
  show ?thesis by (rule admit_cases [of kind io hdr body nd]) (simp_all add: NAdmit)
next
  case (NServe now env)
  then show ?thesis by (simp add: serve_def case_prod_beta deliver_state)
qed (auto simp: case_prod_beta handle_aggregates_def send_to_buffer_def send_to_partition_def set_stage_def Let_def
    split: option.split req_stage.split)

lemma serving_stale_run: "\<forall>ev\<in>set evs. serving ev \<Longrightarrow> nd_stale (node_run c srt psrt cfg evs nd) = nd_stale nd"
  by (induction evs arbitrary: nd) (simp_all add: serving_stale del: node_step.simps)

lemma compact_detached:
  assumes "l_wal (pt_log p) = OpenWal" and "l_dir (pt_log p) \<noteq> []"
    and "compact_threshold \<le> length (l_entries (pt_log p))" and "length (l_entries (pt_log p)) < 2 ^ 64"
    and "part_step c srt (PCompact now CompactOk) (detach p, d) = (out, p', d')"
    and "snap = fst (agg_snapshot now (log_head (pt_log p)) (pt_agg p))"
  shows "wal_file d' = Some [] \<and> snap_file d' = Some (enc_snap c snap) \<and> s_base snap = log_head (pt_log p)"
proof -
  note snap_def = assms(6)
  let ?l = "(pt_log p)\<lparr>l_wal := ClosedWal\<rparr>"
  have base: "s_base snap = log_head (pt_log p)" by (simp add: snap_def agg_snapshot_def Let_def case_prod_beta)
  have det: "detach p = p\<lparr>pt_log := ?l\<rparr>" using assms(1) by (simp add: detach_def)
  have "s_base snap - l_base ?l = of_nat (length (l_entries ?l))" by (simp add: base log_head_def)
  then have "snd (snd (log_compact c CompactOk snap (?l, d))) =
      d\<lparr>snap_tmp := None, snap_file := Some (enc_snap c snap), wal_file := Some []\<rparr>"
    using assms(2) unat_of_nat_u64 [OF assms(4)] by (simp add: log_compact_def Let_def)
  moreover have "d' = snd (snd (log_compact c CompactOk snap (?l, d)))"
    using assms(3,5) by (simp add: det snap_def log_head_def case_prod_beta Let_def)
  ultimately show ?thesis using base by auto
qed

text \<open>
  C40: The goroutines of the partition that a load replaced are never stopped. When its log
  has grown past the threshold, its compactor overwrites the snapshot of the partition
  that took its place and truncates its write-ahead file: the node goes on serving, but a
  restart finds no entry of its log, at the head of the old one.
\<close>

theorem replaced_partition_erases_log:
  assumes "load_from_source c cfg env io epoch nd = LoadDone nd1" and "nc_dir cfg \<noteq> []"
    and "le_snap env = Some snap" and "le_save env = Saved"
    and "l_wal (pt_log (nd_part nd)) = OpenWal" and "l_dir (pt_log (nd_part nd)) \<noteq> []"
    and "compact_threshold \<le> length (l_entries (pt_log (nd_part nd)))"
    and "length (l_entries (pt_log (nd_part nd))) < 2 ^ 64"
    and "\<forall>ev\<in>set evs. serving ev" and "nd2 = node_run c srt psrt cfg evs nd1"
    and "nd3 = snd (node_step c srt psrt cfg (NCompactStale (length (nd_stale nd)) now CompactOk) nd2)"
    and "s = fst (agg_snapshot now (log_head (pt_log (nd_part nd))) (pt_agg (nd_part nd)))"
    and "dec_snap c (enc_snap c s) = Some s"
  shows "nd_part nd3 = nd_part nd2 \<and>
    (\<exists>l d. restarted_log c t cfg nd3 = Inr (l, d) \<and> l_entries l = [] \<and> l_base l = log_head (pt_log (nd_part nd)))"
proof -
  have "nd_stale nd1 = nd_stale nd @ [detach (nd_part nd)]" by (rule load_done_copy [OF assms(1-4)])
  then have stale: "nd_stale nd2 = nd_stale nd @ [detach (nd_part nd)]"
    using serving_stale_run [OF assms(9)] by (simp add: assms(10))
  obtain out p d where st: "part_step c srt (PCompact now CompactOk) (detach (nd_part nd), nd_disk nd2) = (out, p, d)"
    by (rule prod_cases3)
  then have nd3: "nd3 = nd2\<lparr>nd_stale := (nd_stale nd2)[length (nd_stale nd) := p], nd_disk := d\<rparr>"
    by (simp add: assms(11) stale del: part_step.simps)
  from compact_detached [OF assms(5-8) st assms(12)] show ?thesis
    using restart_empty [OF assms(2), of nd3 c s t] assms(13) by (simp add: nd3 load_snapshot_def)
qed

section \<open>Writes buffered too late\<close>

text \<open>
  A write can be acknowledged with \<open>202\<close> and never applied: when the loading goroutine
  drains the buffer between the handler's look at the state and its call of \<open>Buffer\<close>,
  the write goes into a buffer that nobody reads any more, and that the next load empties.
\<close>

theorem late_buffered_write_lost:
  assumes "pending_of n nd = Some pd" and "pd_stage pd = ToBuffer" and "pd_kind pd = ClientEvent"
    and "k < length (nd_loaders nd)" and "nd_loaders nd ! k = Draining src" and "\<not> loader_waits k nd"
    and "nd' = node_run c srt psrt cfg [NLoader k Go, NSend n, NLoader k Go] nd"
  shows "node_outs c srt psrt cfg [NLoader k Go, NSend n, NLoader k Go] nd = [(n, Reply BufferedReply)] \<and>
    nd_loaders nd' ! k = Replaying src (rs_buffer (nd_rs nd)) \<and> queues nd' = queues nd \<and>
    pending_of n nd' = None \<and> status (nd_rs nd') = Normal \<and>
    (\<forall>sid r. start_load sid (nd_rs nd') = Inr r \<longrightarrow> rs_buffer r = [])"
proof -
  define w where "w = \<lparr>bw_id = er_id (pd_req pd), bw_key = er_key (pd_req pd), bw_value = er_value (pd_req pd)\<rparr>"
  define nd1 where "nd1 = nd\<lparr>nd_rs := (nd_rs nd)\<lparr>rs_buffer := []\<rparr>, nd_loaders := (nd_loaders nd)[k := Finishing src (rs_buffer (nd_rs nd))]\<rparr>"
  define nd2 where "nd2 = drop_pending n (nd1\<lparr>nd_rs := buffer_write w (nd_rs nd1)\<rparr>)"
  have s1: "node_step c srt psrt cfg (NLoader k Go) nd = ([], nd1)"
    using assms(4-6) by (simp add: loader_step_def drain_buffer_def set_loader_def nd1_def)
  have "pending_of n nd1 = Some pd" "pd_num pd = n"
    using assms(1) pending_ofD [OF assms(1)] by (simp_all add: nd1_def pending_of_def)
  then have s2: "node_step c srt psrt cfg (NSend n) nd1 = ([(n, Reply BufferedReply)], nd2)"
    using assms(2,3) by (simp add: send_to_buffer_def Let_def nd2_def w_def)
  have fin: "nd_loaders nd2 ! k = Finishing src (rs_buffer (nd_rs nd))" "k < length (nd_loaders nd2)"
    using assms(4) by (simp_all add: nd2_def nd1_def)
  have "\<not> loader_waits k nd2" using assms(6) by (auto simp: loader_waits_def nd2_def nd1_def list_ex_iff)
  then have s3: "node_step c srt psrt cfg (NLoader k Go) nd2 =
      ([], set_loader k (Replaying src (rs_buffer (nd_rs nd))) (nd2\<lparr>nd_rs := finish_load (nd_rs nd2)\<rparr>))"
    using fin by (simp add: loader_step_def)
  have nd': "nd' = set_loader k (Replaying src (rs_buffer (nd_rs nd))) (nd2\<lparr>nd_rs := finish_load (nd_rs nd2)\<rparr>)"
    by (simp add: assms(7) s1 s2 s3 del: node_step.simps)
  have "pending_of n nd' = None"
    by (simp add: nd' set_loader_def nd2_def pending_of_def find_None_iff)
  moreover have "queues nd' = queues nd" by (simp add: nd' set_loader_def nd2_def nd1_def queues_def)
  ultimately show ?thesis
    using fin(2) by (simp add: s1 s2 s3 del: node_step.simps)
      (auto simp: nd' set_loader_def finish_load_def start_load_def)
qed

section \<open>Witnesses\<close>

definition snap_codec :: "snapshot \<Rightarrow> codec" where
  "snap_codec s = no_codec\<lparr>dec_snap := (\<lambda>_. Some s)\<rparr>"

definition cfg_d :: node_config where
  "cfg_d = cfg_a\<lparr>nc_dir := ''d''\<rparr>"

definition snap7 :: snapshot where
  "snap7 = \<lparr>s_base = 7, s_counts = [], s_timeline = []\<rparr>"

abbreviation entry7 :: entry where
  "entry7 \<equiv> \<lparr>e_offset = 7, e_id = ''a'', e_key = ''k'', e_value = ''v'', e_time = 0\<rparr>"

definition load_d :: "snapshot \<Rightarrow> entry list option \<Rightarrow> load_env" where
  "load_d s tail = \<lparr>le_snap = Some s, le_save = Saved, le_tail = (\<lambda>_. tail), le_open = OpenOk, le_now = 1, le_clock = (\<lambda>i. 2)\<rparr>"

lemma snap_codec_round [simp]: "dec_snap (snap_codec s) (enc_snap (snap_codec s) s) = Some s"
  by (simp add: snap_codec_def)

lemma load_d_done: "\<exists>nd1. load_from_source c cfg_d (load_d s (Some es)) Persists 0 nd = LoadDone nd1"
  by (simp add: load_from_source_def Let_def part_open_def log_open_def case_prod_beta cfg_d_def cfg_a_def load_d_def)

lemma load_copies_log_witness:
  "\<exists>nd'. load_from_source (snap_codec snap7) cfg_d (load_d snap7 (Some [entry7])) Persists 0 node_a = LoadDone nd' \<and>
     List.map content (l_entries (pt_log (nd_part nd'))) = [(7, ''a'', ''k'', ''v'')] \<and>
     List.map e_time (l_entries (pt_log (nd_part nd'))) = [2]"
proof -
  obtain nd' where ld: "load_from_source (snap_codec snap7) cfg_d (load_d snap7 (Some [entry7])) Persists 0 node_a = LoadDone nd'"
    using load_d_done by blast
  have "dense (s_base snap7) [entry7]" by (simp add: dense_def snap7_def)
  with load_copies_log [OF ld, of snap7 "[entry7]"] ld show ?thesis
    by (simp add: cfg_d_def load_d_def)
qed

lemma started_d: "\<exists>nd. started (snap_codec snap7) stable cfg_d nd \<and> l_wal (pt_log (nd_part nd)) = OpenWal"
proof -
  obtain p d where p: "part_open (snap_codec snap7) OpenOk 0 ''d'' 5 3 8 False 1 empty_disk = Inr (p, d)" "l_wal (pt_log p) = OpenWal"
    by (auto simp: part_open_def log_open_def Let_def empty_disk_def load_snapshot_def set_no_idempotent_def)
  let ?nd = "node_a\<lparr>nd_part := p, nd_disk := d\<rparr>"
  have "node_start (snap_codec snap7) stable cfg_d [''a'', ''b''] True True OpenOk 0 ''epoch'' Map.empty empty_disk = Inr ?nd"
    using p(1) by (simp add: node_start_def cfg_d_def cfg_a_def fencer_load_def node_a_def ring_ab_def)
  then have "started (snap_codec snap7) stable cfg_d ?nd" unfolding started_def by blast
  with p(2) show ?thesis by (intro exI [of _ ?nd]) simp
qed

lemma failed_load_loses_durability_witness:
  "\<exists>nd nd1 l d. load_from_source (snap_codec snap7) cfg_d (load_d snap7 None) Persists 0 nd = LoadFailed nd1 \<and>
     restarted_log (snap_codec snap7) 9 cfg_d
       (node_run (snap_codec snap7) (\<lambda>xs. xs) stable cfg_d (admit_a @ [NServe 3 (\<lambda>_. env_b (Status 204))]) nd1) = Inr (l, d) \<and>
     l_entries l = [] \<and> l_base l = 7"
proof -
  obtain nd where nd: "started (snap_codec snap7) stable cfg_d nd" "l_wal (pt_log (nd_part nd)) = OpenWal"
    using started_d by blast
  obtain nd1 where ld: "load_from_source (snap_codec snap7) cfg_d (load_d snap7 None) Persists 0 nd = LoadFailed nd1"
    by (auto simp: load_from_source_def load_d_def case_prod_beta)
  have runs: "node_run_ok (snap_codec snap7) (\<lambda>xs. xs) stable cfg_d [] nd"
    "nd = node_run (snap_codec snap7) (\<lambda>xs. xs) stable cfg_d [] nd" by simp_all
  have dir: "nc_dir cfg_d \<noteq> []" by (simp add: cfg_d_def)
  show ?thesis
    using failed_load_loses_durability [OF nd(1) stable_sorts runs dir nd(2) ld, of snap7
        "admit_a @ [NServe 3 (\<lambda>_. env_b (Status 204))]" 9] ld
    by (auto simp: load_d_def snap7_def simp del: node_step.simps)
qed

definition big_partition :: partition where
  "big_partition = (memory_partition 1)\<lparr>pt_log := log_new\<lparr>l_entries := replicate 10000 zero_entry, l_wal := OpenWal, l_dir := ''d''\<rparr>\<rparr>"

lemma replaced_partition_erases_log_witness:
  "\<exists>c nd1 l d. load_from_source c cfg_d (load_d snap7 (Some [])) Persists 0 (node_a\<lparr>nd_part := big_partition\<rparr>) = LoadDone nd1 \<and>
     restarted_log c 9 cfg_d (snd (node_step c (\<lambda>xs. xs) stable cfg_d (NCompactStale 0 5 CompactOk) nd1)) = Inr (l, d) \<and>
     l_entries l = [] \<and> l_base l = 10000"
proof -
  let ?nd = "node_a\<lparr>nd_part := big_partition\<rparr>"
  define s where "s = fst (agg_snapshot 5 (log_head (pt_log (nd_part ?nd))) (pt_agg (nd_part ?nd)))"
  obtain nd1 where ld: "load_from_source (snap_codec s) cfg_d (load_d snap7 (Some [])) Persists 0 ?nd = LoadDone nd1"
    using load_d_done by blast
  have big: "l_wal (pt_log (nd_part ?nd)) = OpenWal" "l_dir (pt_log (nd_part ?nd)) \<noteq> []"
    "compact_threshold \<le> length (l_entries (pt_log (nd_part ?nd)))" "length (l_entries (pt_log (nd_part ?nd))) < 2 ^ 64"
    "nd_stale ?nd = []" "log_head (pt_log (nd_part ?nd)) = 10000"
    by (simp_all add: big_partition_def compact_threshold_def node_a_def log_head_def log_new_def)
  have dir: "nc_dir cfg_d \<noteq> []" "le_snap (load_d snap7 (Some [])) = Some snap7" "le_save (load_d snap7 (Some [])) = Saved"
    by (simp_all add: cfg_d_def load_d_def)
  have "\<forall>ev\<in>set []. serving ev" by simp
  from replaced_partition_erases_log [OF ld dir big(1-4) this _ HOL.refl s_def snap_codec_round, of nd1 "\<lambda>xs. xs" stable 9]
  show ?thesis using ld unfolding big(5,6) by (auto simp del: node_step.simps)
qed

definition node_draining :: node where
  "node_draining = node_a\<lparr>nd_rs := \<lparr>status = Loading, session_id = ''s'', rs_buffer = []\<rparr>,
     nd_pending := [pending_a\<lparr>pd_stage := ToBuffer\<rparr>], nd_next := 1, nd_loaders := [Draining ''b'']\<rparr>"

lemma late_buffered_write_lost_witness:
  "node_outs no_codec (\<lambda>xs. xs) stable cfg_a [NLoader 0 Go, NSend 0, NLoader 0 Go] node_draining = [(0, Reply BufferedReply)] \<and>
   nd_loaders (node_run no_codec (\<lambda>xs. xs) stable cfg_a [NLoader 0 Go, NSend 0, NLoader 0 Go] node_draining) ! 0 = Replaying ''b'' []"
proof -
  have "pending_of 0 node_draining = Some (pending_a\<lparr>pd_stage := ToBuffer\<rparr>)"
    by (simp add: pending_of_def node_draining_def)
  from late_buffered_write_lost [OF this, of 0 "''b''" _ no_codec "\<lambda>xs. xs" stable cfg_a] show ?thesis
    by (simp add: node_draining_def loader_waits_def del: node_step.simps node_outs.simps)
qed

definition loading_events :: "node_event list" where
  "loading_events = [NLoad (Some \<lparr>lr_session = ''s'', lr_source = ''b'', lr_epoch = 0\<rparr>),
     NAdmit ClientEvent Persists [] (Some req_a), NSend 0,
     NLoader 0 (LoadStep \<lparr>le_snap = None, le_save = Saved, le_tail = (\<lambda>_. Some []), le_open = OpenOk, le_now = 0, le_clock = (\<lambda>_. 0)\<rparr> Persists)]"

definition node_drains :: node where
  "node_drains = node_a\<lparr>nd_stale := [memory_partition 1],
     nd_rs := \<lparr>status = Loading, session_id = ''s'', rs_buffer = [\<lparr>bw_id = ''a'', bw_key = ''k'', bw_value = ''v''\<rparr>]\<rparr>,
     nd_next := 1, nd_loaders := [Draining ''b'']\<rparr>"

lemma loading_run: "node_run no_codec srt stable cfg_a loading_events node_a = node_drains"
proof -
  let ?nd1 = "node_a\<lparr>nd_rs := \<lparr>status = Loading, session_id = ''s'', rs_buffer = []\<rparr>, nd_loaders := [Fetching ''b'' 0]\<rparr>"
  let ?nd2 = "?nd1\<lparr>nd_pending := [pending_a\<lparr>pd_stage := ToBuffer\<rparr>], nd_next := 1\<rparr>"
  let ?nd3 = "?nd1\<lparr>nd_next := 1, nd_rs := \<lparr>status = Loading, session_id = ''s'', rs_buffer = [\<lparr>bw_id = ''a'', bw_key = ''k'', bw_value = ''v''\<rparr>]\<rparr>\<rparr>"
  have 1: "snd (node_step no_codec srt stable cfg_a (NLoad (Some \<lparr>lr_session = ''s'', lr_source = ''b'', lr_epoch = 0\<rparr>)) node_a) = ?nd1"
    by (simp add: handle_load_def start_load_def node_a_def rs_init_def)
  have 2: "snd (node_step no_codec srt stable cfg_a (NAdmit ClientEvent Persists [] (Some req_a)) ?nd1) = ?nd2"
    by (simp add: admit_def check_epoch_def parse_epochs fencer_check_def Let_def check_shedding_def queue_depth_def
        queue_cap_def rs_check_def is_loading_def add_pending_def node_a_def memory_partition_def)
  have 3: "snd (node_step no_codec srt stable cfg_a (NSend 0) ?nd2) = ?nd3"
    by (simp add: pending_of_def send_to_buffer_def buffer_write_def Let_def drop_pending_def node_a_def)
  have "loader_waits 0 ?nd3 = False" by (simp add: loader_waits_def node_a_def)
  moreover have "detach (memory_partition 1) = memory_partition 1" by (simp add: detach_def memory_partition_def log_new_def)
  ultimately have 4: "snd (node_step no_codec srt stable cfg_a (NLoader 0 (LoadStep \<lparr>le_snap = None, le_save = Saved, le_tail = (\<lambda>_. Some []),
      le_open = OpenOk, le_now = 0, le_clock = (\<lambda>_. 0)\<rparr> Persists)) ?nd3) = node_drains"
    using memory_open
    by (simp add: loader_step_def load_from_source_def Let_def set_loader_def cfg_a_def node_a_def node_drains_def)
  show ?thesis unfolding loading_events_def fold_simps 1 2 3 4 ..
qed

end
