(* ===== verification/NodeReplays.thy ===== *)
theory NodeReplays
  imports NodeLoads
begin

text \<open>
  The writes that were buffered during a load: what the loading goroutine drains from the
  buffer it applies, one write after the other, while the node serves other requests. The
  invariant follows each drained write from the goroutine's list over the request it becomes
  and the channel of the partition into the log.
\<close>

section \<open>The log of the partition in service\<close>

definition has_write :: "string set \<Rightarrow> node \<Rightarrow> string \<Rightarrow> bool" where
  "has_write old nd i \<longleftrightarrow> i \<in> old \<or> i \<in> e_id ` set (l_entries (pt_log (nd_part nd)))"

lemma log_append_has:
  assumes "log_ok (l, d)" and "snd (log_append c now i k v (l, d)) = (l', d')"
    and "known_ids l \<subseteq> old \<union> e_id ` set (l_entries l)"
  shows "known_ids l' \<subseteq> old \<union> e_id ` set (l_entries l') \<and> set (l_entries l) \<subseteq> set (l_entries l') \<and>
    i \<in> old \<union> e_id ` set (l_entries l')"
proof (cases "\<not> l_noidem l \<and> i \<in> live (l_dedup l) now")
  case True
  then have i: "i \<in> known_ids l" by (auto simp: live_def)
  from True assms(1,2) have "l_entries l' = l_entries l" by (auto simp: log_ok_def log_append_cases)
  moreover have "known_ids l' \<subseteq> insert i (known_ids l)" using log_append_known [OF assms(1), of c now i k v] assms(2) by simp
  ultimately show ?thesis using i assms(3) by auto
next
  case False
  with assms(1,2) have "l_entries l' = l_entries l @ [new_entry l now i k v]"
    by (auto simp: log_ok_def log_append_cases)
  moreover have "known_ids l' \<subseteq> insert i (known_ids l)" using log_append_known [OF assms(1), of c now i k v] assms(2) by simp
  ultimately show ?thesis using assms(3) by auto
qed

lemma append_all_has:
  assumes "log_ok (l, d)" and "append_all c now reqs (l, d) = (rs, l', d')"
    and "known_ids l \<subseteq> old \<union> e_id ` set (l_entries l)"
  shows "known_ids l' \<subseteq> old \<union> e_id ` set (l_entries l') \<and> set (l_entries l) \<subseteq> set (l_entries l') \<and>
    (\<forall>(i, k, v) \<in> set reqs. i \<in> old \<union> e_id ` set (l_entries l'))"
  using assms
proof (induction reqs arbitrary: l d rs)
  case (Cons r reqs)
  obtain i k v where r: "r = (i, k, v)" by (cases r)
  obtain res l1 d1 where a: "log_append c now i k v (l, d) = (res, l1, d1)" by (rule prod_cases3)
  obtain rs1 where all: "append_all c now reqs (l1, d1) = (rs1, l', d')"
    using Cons.prems(2) a by (auto simp: r split: prod.splits)
  have ok1: "log_ok (l1, d1)" using log_append_ok [OF Cons.prems(1), of c now i k v] a by simp
  have h: "known_ids l1 \<subseteq> old \<union> e_id ` set (l_entries l1)" "set (l_entries l) \<subseteq> set (l_entries l1)"
    "i \<in> old \<union> e_id ` set (l_entries l1)"
    using log_append_has [OF Cons.prems(1), of c now i k v l1 d1 old] a Cons.prems(3) by auto
  from Cons.IH [OF ok1 all h(1)] h show ?case by (auto simp: r)
qed simp

text \<open>No compaction of the partition in service, and no load that replaces it.\<close>

fun keeps_log :: "node_event \<Rightarrow> bool" where
  "keeps_log (NCompact now io) = False"
| "keeps_log (NLoader k (LoadStep env io)) = False"
| "keeps_log ev = True"

lemma loader_go_part:
  assumes "loader_go c cfg k env ld nd = Inr nd'" and "\<And>le io. env \<noteq> LoadStep le io"
  shows "nd_part nd' = nd_part nd" and "nd_stale nd' = nd_stale nd"
    and "set (nd_pending nd) \<subseteq> set (nd_pending nd')"
  using assms
  by (induction c cfg k env ld nd rule: loader_go.induct)
    (auto simp: loader_apply_def drain_buffer_def catch_up_round_def set_loader_def add_pending_def
      split: if_splits option.splits)

lemma loader_step_part:
  assumes "loader_step c cfg k env nd = Inr nd'" and "keeps_log (NLoader k env)"
  shows "nd_part nd' = nd_part nd \<and> nd_stale nd' = nd_stale nd \<and> set (nd_pending nd) \<subseteq> set (nd_pending nd')"
proof -
  have "env \<noteq> LoadStep le io" for le io using assms(2) by auto
  with assms(1) loader_go_part [of c cfg k env "nd_loaders nd ! k" nd nd'] show ?thesis
    by (auto simp: loader_step_def split: if_splits)
qed

text \<open>Only a serving step touches the log and the channel of the partition in service.\<close>

lemma step_keeps_part:
  assumes "keeps_log ev" and "\<And>now env. ev \<noteq> NServe now env" and "nd' = snd (node_step c srt psrt cfg ev nd)"
  shows "pt_log (nd_part nd') = pt_log (nd_part nd) \<and> set (pt_apply (nd_part nd)) \<subseteq> set (pt_apply (nd_part nd'))"
proof (cases ev)
  case (NAdmit kind io hdr body)
  have "nd_part nd' = nd_part nd"
    by (rule admit_cases [of kind io hdr body nd]) (simp_all add: assms(3) NAdmit)
  then show ?thesis by simp
next
  case (NSend n)
  show ?thesis
    by (auto simp: assms(3) NSend send_to_buffer_def send_to_partition_def set_stage_def part_enqueue_def Let_def
        split: option.split req_stage.split)
next
  case (NServeStale k now env)
  then show ?thesis by (simp add: assms(3) serve_stale_def case_prod_beta deliver_state)
next
  case (NQuery now now')
  then show ?thesis by (simp add: assms(3) handle_aggregates_def case_prod_beta)
next
  case (NLoader k env)
  have "nd_part nd' = nd_part nd"
  proof (cases "loader_step c cfg k env nd")
    case (Inr nd1)
    with loader_step_part [OF this] assms(1) show ?thesis by (simp add: assms(3) NLoader)
  qed (simp add: assms(3) NLoader)
  then show ?thesis by simp
qed (use assms(1,2) in \<open>simp_all add: assms(3) handle_freeze_def handle_thaw_def handle_abort_def
      handle_load_def case_prod_beta split: option.split sum.split\<close>)

text \<open>What a step makes of the log in service, and of the commands in its channel.\<close>

lemma step_keeps_log:
  assumes "node_ok nd" and "keeps_log ev" and "known_ids (pt_log (nd_part nd)) \<subseteq> old \<union> e_id ` set (l_entries (pt_log (nd_part nd)))"
    and "nd' = snd (node_step c srt psrt cfg ev nd)"
  shows "known_ids (pt_log (nd_part nd')) \<subseteq> old \<union> e_id ` set (l_entries (pt_log (nd_part nd'))) \<and>
    set (l_entries (pt_log (nd_part nd))) \<subseteq> set (l_entries (pt_log (nd_part nd'))) \<and>
    (\<forall>cmd \<in> set (pt_apply (nd_part nd)). cmd \<in> set (pt_apply (nd_part nd')) \<or> has_write old nd' (ac_id cmd))"
proof (cases "\<exists>now env. ev = NServe now env")
  case False
  with step_keeps_part [OF assms(2) _ assms(4)] assms(3) show ?thesis by auto
next
  case True
  then obtain now env where ev: "ev = NServe now env" by blast
  obtain out p d where st: "part_step c id (PApply now) (nd_part nd, nd_disk nd) = (out, p, d)"
    by (rule prod_cases3)
  have ok: "1 \<le> pt_batch (nd_part nd)" "log_ok (pt_log (nd_part nd), nd_disk nd)"
    using assms(1) by (simp_all add: node_ok_def partition_ok_def log_ok_def)
  from apply_step [OF ok(1) st] obtain rs where
    app: "append_all c now (List.map request (served (nd_part nd))) (pt_log (nd_part nd), nd_disk nd) = (rs, pt_log p, d)"
    and rest: "pt_apply p = drop (nat (pt_batch (nd_part nd))) (pt_apply (nd_part nd))" by blast
  have part: "nd_part nd' = p" by (simp add: assms(4) ev serve_def st deliver_state)
  from append_all_has [OF ok(2) app assms(3)] have
    h: "known_ids (pt_log p) \<subseteq> old \<union> e_id ` set (l_entries (pt_log p))"
    "set (l_entries (pt_log (nd_part nd))) \<subseteq> set (l_entries (pt_log p))"
    "\<forall>cmd \<in> set (served (nd_part nd)). ac_id cmd \<in> old \<union> e_id ` set (l_entries (pt_log p))" by auto
  moreover have "cmd \<in> set (served (nd_part nd)) \<union> set (pt_apply p)" if "cmd \<in> set (pt_apply (nd_part nd))" for cmd
    using that unfolding rest set_append [symmetric] append_take_drop_id by simp
  ultimately show ?thesis unfolding part has_write_def by blast
qed

section \<open>The requests of the loading goroutine\<close>

lemma served_not_to_apply:
  assumes "node_ok nd" and "partition_ok p0" and "set (pt_apply p0) \<subseteq> set (queues nd)"
    and "pd \<in> set (nd_pending nd)" and "pd_stage pd = ToApply"
  shows "pd_num pd \<notin> set (reply_nums (fst (part_step c id (PApply now) (p0, d0))))"
proof
  assume num: "pd_num pd \<in> set (reply_nums (fst (part_step c id (PApply now) (p0, d0))))"
  obtain out p d where st: "part_step c id (PApply now) (p0, d0) = (out, p, d)" by (rule prod_cases3)
  have "1 \<le> pt_batch p0" using assms(2) by (simp add: partition_ok_def)
  from apply_step [OF this st] obtain rs where
    "out = List.map2 (\<lambda>cmd r. Applied (ac_reply cmd) r) (served p0) rs" "length rs = length (served p0)" by blast
  then have "reply_nums out = List.map ac_reply (served p0)" by (simp add: reply_nums_map2)
  with num st obtain cmd where "cmd \<in> set (queues nd)" "ac_reply cmd = pd_num pd"
    using assms(3) by (auto dest: in_set_takeD)
  moreover have "requests_ok nd" using assms(1) by (simp add: node_ok_def)
  ultimately have "pd_stage pd = Waiting"
    using queued_request [of nd cmd pd] pending_found [OF assms(1,4)] by simp
  with assms(5) show False by simp
qed

lemma sent_to_partition:
  assumes "node_ok nd" and "pending_of n nd = Some q" and "pd_stage q = ToApply" and "pd \<in> set (nd_pending nd)"
    and "nd' = send_to_partition q nd"
  shows "pd \<in> set (nd_pending nd') \<or> pd\<lparr>pd_stage := Waiting\<rparr> \<in> set (nd_pending nd') \<and>
    (\<exists>cmd \<in> set (pt_apply (nd_part nd')). ac_reply cmd = pd_num pd)"
proof (cases "pd_num pd = n")
  case True
  then have "pd = q" using pending_found [OF assms(1,4)] assms(2) by simp
  then have "pd\<lparr>pd_stage := Waiting\<rparr> \<in> set (nd_pending nd')" and "pd_num q = n"
    using assms(4) True by (auto simp: assms(5) send_to_partition_def set_stage_def Let_def)
  then show ?thesis
    using True by (simp add: assms(5) send_to_partition_def set_stage_def part_enqueue_def Let_def)
next
  case False
  moreover have "pd_num q = n" using pending_ofD [OF assms(2)] by simp
  ultimately show ?thesis
    using assms(4) by (auto simp: assms(5) send_to_partition_def set_stage_def Let_def)
qed

lemma to_apply_kept:
  assumes "node_ok nd" and "keeps_log ev" and "pd \<in> set (nd_pending nd)" and "pd_stage pd = ToApply"
    and "nd' = snd (node_step c srt psrt cfg ev nd)"
  shows "pd \<in> set (nd_pending nd') \<or> pd\<lparr>pd_stage := Waiting\<rparr> \<in> set (nd_pending nd') \<and>
    (\<exists>cmd \<in> set (pt_apply (nd_part nd')). ac_reply cmd = pd_num pd)"
proof (cases ev)
  case (NAdmit kind io hdr body)
  have "pd \<in> set (nd_pending nd')"
    by (rule admit_cases [of kind io hdr body nd]) (simp_all add: assms(3,5) NAdmit add_pending_def)
  then show ?thesis ..
next
  case (NSend n)
  show ?thesis
  proof (cases "pending_of n nd")
    case None
    with assms(3) show ?thesis by (simp add: assms(5) NSend)
  next
    case (Some q)
    show ?thesis
    proof (cases "pd_stage q")
      case ToBuffer
      with assms(4) pending_found [OF assms(1,3)] Some have "pd_num pd \<noteq> n" by auto
      moreover have "pd_num q = n" using pending_ofD [OF Some] by simp
      ultimately show ?thesis
        using assms(3) Some ToBuffer by (simp add: assms(5) NSend send_to_buffer_def case_prod_beta Let_def)
    next
      case ToApply
      with Some sent_to_partition [OF assms(1) Some ToApply assms(3) HOL.refl] show ?thesis
        by (simp add: assms(5) NSend)
    next
      case Waiting
      with assms(3) Some show ?thesis by (simp add: assms(5) NSend)
    qed
  qed
next
  case (NServe now env)
  have "partition_ok (nd_part nd)" "set (pt_apply (nd_part nd)) \<subseteq> set (queues nd)"
    using assms(1) by (simp_all add: node_ok_def queues_def)
  from served_not_to_apply [OF assms(1) this assms(3,4), of c now "nd_disk nd"] assms(3) show ?thesis
    by (simp add: assms(5) NServe serve_pending)
next
  case (NServeStale k now env)
  show ?thesis
  proof (cases "k < length (nd_stale nd)")
    case True
    then have "partition_ok (nd_stale nd ! k)" "set (pt_apply (nd_stale nd ! k)) \<subseteq> set (queues nd)"
      using assms(1) by (auto simp: node_ok_def queues_def)
    from served_not_to_apply [OF assms(1) this assms(3,4), of c now "nd_disk nd"] assms(3) True show ?thesis
      by (simp add: assms(5) NServeStale serve_pending)
  qed (use assms(3) in \<open>simp add: assms(5) NServeStale\<close>)
next
  case (NLoader k env)
  have "pd \<in> set (nd_pending nd')"
  proof (cases "loader_step c cfg k env nd")
    case (Inr nd1)
    with loader_step_part [OF this] assms(2,3) show ?thesis by (auto simp: assms(5) NLoader)
  qed (use assms(3) in \<open>simp add: assms(5) NLoader\<close>)
  then show ?thesis ..
qed (use assms(2,3) in \<open>simp_all add: assms(5) handle_freeze_def handle_thaw_def handle_abort_def
      handle_load_def handle_aggregates_def case_prod_beta split: option.split sum.split\<close>)

text \<open>A write of loader \<open>k\<close> that is on its way to the log of the partition in service.\<close>

definition in_service :: "nat \<Rightarrow> node \<Rightarrow> string \<Rightarrow> bool" where
  "in_service k nd i \<longleftrightarrow> (\<exists>pd \<in> set (nd_pending nd). pd_kind pd = LoaderEvent k \<and> er_id (pd_req pd) = i \<and>
     (pd_stage pd = ToApply \<or>
      pd_stage pd = Waiting \<and> (\<exists>cmd \<in> set (pt_apply (nd_part nd)). ac_reply cmd = pd_num pd)))"

lemma in_service_waits: "in_service k nd i \<Longrightarrow> loader_waits k nd"
  by (auto simp: in_service_def loader_waits_def list_ex_iff)

lemma in_service_step:
  assumes "node_ok nd" and "node_event_ok psrt ev nd" and "keeps_log ev"
    and "known_ids (pt_log (nd_part nd)) \<subseteq> old \<union> e_id ` set (l_entries (pt_log (nd_part nd)))"
    and "nd' = snd (node_step c srt psrt cfg ev nd)" and "in_service k nd i"
  shows "in_service k nd' i \<or> has_write old nd' i"
proof -
  obtain pd where pd: "pd \<in> set (nd_pending nd)" "pd_kind pd = LoaderEvent k" "er_id (pd_req pd) = i"
    and st: "pd_stage pd = ToApply \<or> pd_stage pd = Waiting \<and> (\<exists>cmd \<in> set (pt_apply (nd_part nd)). ac_reply cmd = pd_num pd)"
    using assms(6) by (auto simp: in_service_def)
  from st show ?thesis
  proof (elim disjE conjE bexE)
    assume st: "pd_stage pd = ToApply"
    from to_apply_kept [OF assms(1,3) pd(1) this assms(5)] have "in_service k nd' i"
    proof (elim disjE conjE)
      assume "pd \<in> set (nd_pending nd')"
      with pd(2,3) st show ?thesis unfolding in_service_def by (intro bexI [of _ pd]) simp_all
    next
      assume "pd\<lparr>pd_stage := Waiting\<rparr> \<in> set (nd_pending nd')"
        "\<exists>cmd \<in> set (pt_apply (nd_part nd')). ac_reply cmd = pd_num pd"
      with pd(2,3) show ?thesis
        unfolding in_service_def by (intro bexI [of _ "pd\<lparr>pd_stage := Waiting\<rparr>"]) simp_all
    qed
    then show ?thesis ..
  next
    fix cmd
    assume w: "pd_stage pd = Waiting" and cmd: "cmd \<in> set (pt_apply (nd_part nd))" "ac_reply cmd = pd_num pd"
    have "requests_ok nd" "cmd \<in> set (queues nd)" using assms(1) cmd(1) by (simp_all add: node_ok_def queues_def)
    from queued_request [OF this, of pd] pending_found [OF assms(1) pd(1)] cmd(2) pd(3)
    have id: "ac_id cmd = i" by simp
    from step_keeps_log [OF assms(1,3-5)] cmd(1) consider "has_write old nd' (ac_id cmd)" | "cmd \<in> set (pt_apply (nd_part nd'))"
      by blast
    then show ?thesis
    proof cases
      case 1
      then show ?thesis by (simp add: id)
    next
      case 2
      then have "cmd \<in> set (queues nd')" by (simp add: queues_def)
      moreover have "pd \<in> set (waiting nd)" using pd(1) w by (simp add: waiting_def)
      ultimately have "pd \<in> set (waiting nd')"
        using command_keeps_request [OF assms(1,2)] cmd(2) unfolding assms(5) by blast
      with 2 cmd(2) pd(2,3) w have "in_service k nd' i" by (auto simp: in_service_def waiting_def)
      then show ?thesis ..
    qed
  qed
qed

section \<open>The goroutine and its list\<close>

text \<open>What the goroutine has drained and not yet applied, while it ends the load and replays.\<close>

fun drained :: "loader \<Rightarrow> buffered_write list option" where
  "drained (Finishing src bws) = Some bws"
| "drained (Replaying src bws) = Some bws"
| "drained ld = None"

fun past_replay :: "loader \<Rightarrow> bool" where
  "past_replay (CatchingUp src deadline es) = True"
| "past_replay LoaderDone = True"
| "past_replay ld = False"

definition on_its_way :: "nat \<Rightarrow> string set \<Rightarrow> node \<Rightarrow> string \<Rightarrow> bool" where
  "on_its_way k old nd i \<longleftrightarrow> has_write old nd i \<or>
     (\<exists>bws. drained (nd_loaders nd ! k) = Some bws \<and> (i \<in> bw_id ` set bws \<or> in_service k nd i))"

definition replay_inv :: "nat \<Rightarrow> string set \<Rightarrow> string set \<Rightarrow> node \<Rightarrow> bool" where
  "replay_inv k old ids nd \<longleftrightarrow> node_ok nd \<and> k < length (nd_loaders nd) \<and>
     (past_replay (nd_loaders nd ! k) \<or> drained (nd_loaders nd ! k) \<noteq> None) \<and>
     known_ids (pt_log (nd_part nd)) \<subseteq> old \<union> e_id ` set (l_entries (pt_log (nd_part nd))) \<and>
     (\<forall>i \<in> ids. on_its_way k old nd i)"

text \<open>What a step of a loading goroutine does to loader \<open>k\<close> when it has drained the buffer.\<close>

lemma own_loader_step:
  assumes "loader_go c cfg k env (nd_loaders nd ! k) nd = Inr nd'" and "k < length (nd_loaders nd)"
    and "\<not> loader_waits k nd" and "\<And>le io. env \<noteq> LoadStep le io"
    and "past_replay (nd_loaders nd ! k) \<or> drained (nd_loaders nd ! k) \<noteq> None"
    and "on_its_way k old nd i"
  shows "length (nd_loaders nd') = length (nd_loaders nd) \<and>
    (past_replay (nd_loaders nd' ! k) \<or> drained (nd_loaders nd' ! k) \<noteq> None) \<and> on_its_way k old nd' i"
proof -
  have part: "nd_part nd' = nd_part nd" using loader_go_part(1) [OF assms(1,4)] .
  then have hw: "has_write old nd' i = has_write old nd i" by (simp add: has_write_def)
  have none: "\<not> in_service k nd i" using in_service_waits assms(3) by blast
  have past: ?thesis if "past_replay (nd_loaders nd ! k)"
  proof -
    have "has_write old nd i" using assms(6) that by (cases "nd_loaders nd ! k") (auto simp: on_its_way_def)
    moreover have "length (nd_loaders nd') = length (nd_loaders nd) \<and> past_replay (nd_loaders nd' ! k)"
    proof (cases "nd_loaders nd ! k")
      case (CatchingUp src deadline es)
      then show ?thesis
        using assms(1,2,4)
        by (cases env; cases es) (auto simp: set_loader_def loader_apply_def catch_up_round_def
            split: if_splits option.splits)
    next
      case LoaderDone
      then show ?thesis using assms(1,2,4) by (cases env) auto
    qed (use that in simp_all)
    ultimately show ?thesis by (simp add: on_its_way_def hw)
  qed
  show ?thesis
  proof (cases "nd_loaders nd ! k")
    case (Finishing src bws)
    then have way: "has_write old nd i \<or> i \<in> bw_id ` set bws" using assms(6) none by (simp add: on_its_way_def)
    have "nd' = nd \<or> nd' = set_loader k (Replaying src bws) (nd\<lparr>nd_rs := finish_load (nd_rs nd)\<rparr>)"
      using assms(1,4) Finishing by (cases env) simp_all
    with way Finishing assms(2) show ?thesis
      by (auto simp: on_its_way_def hw set_loader_def)
  next
    case (Replaying src bws)
    then have way: "has_write old nd i \<or> i \<in> bw_id ` set bws" using assms(6) none by (simp add: on_its_way_def)
    consider "nd' = nd" | deadline where "bws = []" "nd' = set_loader k (CatchingUp src deadline []) nd"
      | bw rest where "bws = bw # rest"
        "nd' = set_loader k (Replaying src rest) (loader_apply k (bw_id bw) (bw_key bw) (bw_value bw) nd)"
      using assms(1,4) Replaying by (cases env; cases bws) auto
    then show ?thesis
    proof cases
      case 1
      then show ?thesis using assms(5,6) by simp
    next
      case 2
      have "has_write old nd' i" using way 2(1) hw by simp
      moreover have "nd_loaders nd' = (nd_loaders nd)[k := CatchingUp src deadline []]"
        by (simp add: 2(2) set_loader_def)
      ultimately show ?thesis using assms(2) by (simp add: on_its_way_def)
    next
      case 3
      have "in_service k nd' (bw_id bw)"
        by (simp add: 3 in_service_def set_loader_def loader_apply_def add_pending_def)
      moreover have "nd_loaders nd' = (nd_loaders nd)[k := Replaying src rest]"
        by (simp add: 3(2) set_loader_def loader_apply_def)
      ultimately show ?thesis using way assms(2) 3(1) hw by (auto simp: on_its_way_def)
    qed
  qed (use assms(5) past in simp_all)
qed

lemma other_loader_step:
  assumes "loader_go c cfg j env ld nd = Inr nd'" and "j \<noteq> k" and "\<And>le io. env \<noteq> LoadStep le io"
  shows "nd_loaders nd' ! k = nd_loaders nd ! k \<and> length (nd_loaders nd') = length (nd_loaders nd)"
  using assms
  by (induction c cfg j env ld nd rule: loader_go.induct)
    (auto simp: loader_apply_def drain_buffer_def catch_up_round_def set_loader_def
      split: if_splits option.splits)

lemma loaders_kept:
  assumes "\<And>j env. ev \<noteq> NLoader j env" and "k < length (nd_loaders nd)"
    and "nd' = snd (node_step c srt psrt cfg ev nd)"
  shows "k < length (nd_loaders nd') \<and> nd_loaders nd' ! k = nd_loaders nd ! k"
proof (cases ev)
  case (NAdmit kind io hdr body)
  show ?thesis
    by (rule admit_cases [of kind io hdr body nd]) (simp_all add: assms(2,3) NAdmit)
next
  case (NLoad body)
  with assms(2) show ?thesis
    by (auto simp: assms(3) handle_load_def nth_append split: option.split sum.split)
qed (use assms(1,2) in \<open>simp_all add: assms(3) handle_freeze_def handle_thaw_def handle_abort_def
      handle_aggregates_def serve_def serve_stale_def deliver_state send_to_buffer_def send_to_partition_def
      set_stage_def Let_def case_prod_beta split: option.split sum.split req_stage.split\<close>)

lemma replay_inv_step:
  assumes "replay_inv k old ids nd" and "node_event_ok psrt ev nd" and "keeps_log ev"
    and "nd' = snd (node_step c srt psrt cfg ev nd)"
  shows "replay_inv k old ids nd'"
proof -
  have ok: "node_ok nd" and k: "k < length (nd_loaders nd)"
    and phase: "past_replay (nd_loaders nd ! k) \<or> drained (nd_loaders nd ! k) \<noteq> None"
    and known: "known_ids (pt_log (nd_part nd)) \<subseteq> old \<union> e_id ` set (l_entries (pt_log (nd_part nd)))"
    and way: "\<And>i. i \<in> ids \<Longrightarrow> on_its_way k old nd i"
    using assms(1) by (auto simp: replay_inv_def)
  have ok': "node_ok nd'" unfolding assms(4) using ok assms(2) by (rule node_step_ok)
  have log: "known_ids (pt_log (nd_part nd')) \<subseteq> old \<union> e_id ` set (l_entries (pt_log (nd_part nd')))"
    "has_write old nd i \<Longrightarrow> has_write old nd' i" for i
    using step_keeps_log [OF ok assms(3) known assms(4)] by (auto simp: has_write_def)
  have kept: "on_its_way k old nd' i" if "nd_loaders nd' ! k = nd_loaders nd ! k" "i \<in> ids" for i
    using way [OF that(2)] log(2) in_service_step [OF ok assms(2,3) known assms(4)] that(1)
    unfolding on_its_way_def by metis
  have own: "length (nd_loaders nd') = length (nd_loaders nd) \<and>
      (past_replay (nd_loaders nd' ! k) \<or> drained (nd_loaders nd' ! k) \<noteq> None) \<and> (\<forall>i \<in> ids. on_its_way k old nd' i)"
    if "loader_go c cfg k env (nd_loaders nd ! k) nd = Inr nd'" "\<not> loader_waits k nd" "ev = NLoader k env" for env
  proof -
    have env: "env \<noteq> LoadStep le io" for le io using assms(3) that(3) by auto
    from own_loader_step [OF that(1) k that(2) env phase] way
      own_loader_step [OF that(1) k that(2) env phase, of "UNIV"] show ?thesis
      by (metis (no_types, lifting) UNIV_I has_write_def on_its_way_def)
  qed
  show ?thesis
  proof (cases "\<exists>env. ev = NLoader k env \<and> \<not> loader_waits k nd \<and> loader_go c cfg k env (nd_loaders nd ! k) nd = Inr nd'")
    case True
    then obtain env where "ev = NLoader k env" "\<not> loader_waits k nd" "loader_go c cfg k env (nd_loaders nd ! k) nd = Inr nd'"
      by blast
    from own [OF this(3,2,1)] k ok' log(1) show ?thesis by (simp add: replay_inv_def)
  next
    case False
    have "k < length (nd_loaders nd') \<and> nd_loaders nd' ! k = nd_loaders nd ! k"
    proof (cases "\<exists>j env. ev = NLoader j env")
      case False
      with loaders_kept [OF _ k assms(4)] show ?thesis by blast
    next
      case True
      then obtain j env where ev: "ev = NLoader j env" by blast
      have env: "env \<noteq> LoadStep le io" for le io using assms(3) ev by auto
      show ?thesis
      proof (cases "loader_step c cfg j env nd")
        case (Inl err)
        with k show ?thesis by (simp add: assms(4) ev)
      next
        case (Inr nd1)
        then have nd1: "nd' = nd1" by (simp add: assms(4) ev)
        from Inr have "nd1 = nd \<or> (\<not> loader_waits j nd \<and> loader_go c cfg j env (nd_loaders nd ! j) nd = Inr nd1)"
          by (auto simp: loader_step_def split: if_splits)
        moreover have "j \<noteq> k" if "\<not> loader_waits j nd \<and> loader_go c cfg j env (nd_loaders nd ! j) nd = Inr nd1"
          using False ev that nd1 by blast
        ultimately show ?thesis using other_loader_step [of c cfg j env _ nd nd1 k] env k nd1 by metis
      qed
    qed
    then show ?thesis using kept ok' log(1) phase by (simp add: replay_inv_def)
  qed
qed

lemma replay_inv_run:
  "replay_inv k old ids nd \<Longrightarrow> node_run_ok c srt psrt cfg evs nd \<Longrightarrow> \<forall>ev\<in>set evs. keeps_log ev \<Longrightarrow>
    replay_inv k old ids (node_run c srt psrt cfg evs nd)"
proof (induction evs arbitrary: nd)
  case (Cons ev evs)
  have "replay_inv k old ids (snd (node_step c srt psrt cfg ev nd))"
    using Cons.prems by (intro replay_inv_step [OF Cons.prems(1) _ _ HOL.refl]) simp_all
  with Cons.IH [OF this] Cons.prems show ?case by (simp del: node_step.simps)
qed simp

section \<open>Buffered writes are applied\<close>

lemma drain_inv:
  assumes "node_ok nd" and "k < length (nd_loaders nd)" and "nd_loaders nd ! k = Draining src"
    and "\<not> loader_waits k nd" and "nd' = snd (node_step c srt psrt cfg (NLoader k Go) nd)"
  shows "replay_inv k (known_ids (pt_log (nd_part nd))) (bw_id ` set (rs_buffer (nd_rs nd))) nd'"
proof -
  have nd': "nd' = nd\<lparr>nd_rs := (nd_rs nd)\<lparr>rs_buffer := []\<rparr>,
      nd_loaders := (nd_loaders nd)[k := Finishing src (rs_buffer (nd_rs nd))]\<rparr>"
    using assms(2-4) by (simp add: assms(5) loader_step_def drain_buffer_def set_loader_def)
  have "node_ok nd'" unfolding assms(5) using assms(1) by (rule node_step_ok) simp
  then show ?thesis
    using assms(2) by (auto simp: replay_inv_def on_its_way_def nd')
qed

text \<open>
  C18: No write buffered in time is lost: from the moment the loading goroutine drains the
  buffer until it has come to the catch-up, each write of the buffer is applied, so that it is
  in the log of the partition then, unless the deduplication set of the partition knew the
  identifier before. In between the node may do anything else, such as serve writes, freeze,
  thaw or abort, except compact this log or replace the partition by another load.
\<close>

theorem buffered_writes_applied:
  assumes "started c psrt cfg nd0" and "is_sort_slice pt_hash psrt" and "node_run_ok c srt psrt cfg evs nd0"
    and "nd = node_run c srt psrt cfg evs nd0"
    and "k < length (nd_loaders nd)" and "nd_loaders nd ! k = Draining src" and "\<not> loader_waits k nd"
    and "node_run_ok c srt psrt cfg (NLoader k Go # later) nd" and "\<forall>ev\<in>set later. keeps_log ev"
    and "nd' = node_run c srt psrt cfg (NLoader k Go # later) nd" and "past_replay (nd_loaders nd' ! k)"
  shows "\<forall>bw\<in>set (rs_buffer (nd_rs nd)). has_write (known_ids (pt_log (nd_part nd))) nd' (bw_id bw)"
proof -
  have ok: "node_ok nd" unfolding assms(4) using assms(1-3) by (rule run_node_ok)
  let ?nd = "snd (node_step c srt psrt cfg (NLoader k Go) nd)"
  have "node_run_ok c srt psrt cfg later ?nd" using assms(8) by (simp del: node_step.simps)
  from replay_inv_run [OF drain_inv [OF ok assms(5-7) HOL.refl] this assms(9)] assms(10)
  have "replay_inv k (known_ids (pt_log (nd_part nd))) (bw_id ` set (rs_buffer (nd_rs nd))) nd'"
    by (simp del: node_step.simps)
  moreover have "drained (nd_loaders nd' ! k) = None" using assms(11) by (cases "nd_loaders nd' ! k") simp_all
  ultimately show ?thesis by (simp add: replay_inv_def on_its_way_def)
qed

section \<open>Witness\<close>

definition replay_events :: "node_event list" where
  "replay_events = [NLoader 0 Go, NLoader 0 Go, NFreeze (Some ''t''), NSend 1, NServe 4 (\<lambda>_. env_b NetError),
     NLoader 0 (Deadline 5 10)]"

abbreviation replayed_pending :: "req_stage \<Rightarrow> pending" where
  "replayed_pending stage \<equiv> \<lparr>pd_num = 1, pd_kind = LoaderEvent 0, pd_stage = stage, pd_req = req_a, pd_epoch = 0\<rparr>"

lemma replay_run:
  "nd_loaders (node_run no_codec srt stable cfg_a (NLoader 0 Go # replay_events) node_drains) = [CatchingUp ''b'' 45 []]"
proof -
  let ?st = "\<lambda>ev nd. snd (node_step no_codec srt stable cfg_a ev nd)"
  let ?bw = "\<lparr>bw_id = ''a'', bw_key = ''k'', bw_value = ''v''\<rparr>"
  let ?nd1 = "node_drains\<lparr>nd_rs := \<lparr>status = Loading, session_id = ''s'', rs_buffer = []\<rparr>, nd_loaders := [Finishing ''b'' [?bw]]\<rparr>"
  let ?nd2 = "node_drains\<lparr>nd_rs := rs_init, nd_loaders := [Replaying ''b'' [?bw]]\<rparr>"
  let ?nd3 = "node_drains\<lparr>nd_rs := rs_init, nd_pending := [replayed_pending ToApply], nd_next := 2,
    nd_loaders := [Replaying ''b'' []]\<rparr>"
  let ?nd4 = "?nd3\<lparr>nd_rs := \<lparr>status = Frozen, session_id = ''t'', rs_buffer = []\<rparr>\<rparr>"
  let ?nd5 = "?nd4\<lparr>nd_pending := [replayed_pending Waiting],
    nd_part := (memory_partition 1)\<lparr>pt_apply := [\<lparr>ac_id = ''a'', ac_key = ''k'', ac_value = ''v'', ac_reply = 1\<rparr>]\<rparr>\<rparr>"
  have 1: "?st (NLoader 0 Go) node_drains = ?nd1"
    by (simp add: node_drains_def node_a_def loader_step_def loader_waits_def drain_buffer_def set_loader_def)
  have 2: "?st (NLoader 0 Go) ?nd1 = ?nd2"
    by (simp add: node_drains_def node_a_def loader_step_def loader_waits_def finish_load_def set_loader_def rs_init_def)
  have 3: "?st (NLoader 0 Go) ?nd2 = ?nd3"
    by (simp add: node_drains_def node_a_def loader_step_def loader_waits_def loader_apply_def add_pending_def set_loader_def)
  have 4: "?st (NFreeze (Some ''t'')) ?nd3 = ?nd4"
    by (simp add: node_drains_def node_a_def handle_freeze_def freeze_def rs_init_def)
  have 5: "?st (NSend 1) ?nd4 = ?nd5"
    by (simp add: node_drains_def node_a_def pending_of_def send_to_partition_def set_stage_def part_enqueue_def
        memory_partition_def)
  let ?nd6 = "?st (NServe 4 (\<lambda>_. env_b NetError)) ?nd5"
  obtain out p d where st: "part_step no_codec id (PApply 4) (nd_part ?nd5, nd_disk ?nd5) = (out, p, d)" by (rule prod_cases3)
  have b: "1 \<le> pt_batch (nd_part ?nd5)" by (simp add: memory_partition_def)
  from apply_step [OF b st] have "reply_nums out = [1]"
    by (auto simp: memory_partition_def reply_nums_map2 length_Suc_conv)
  then have "nd_pending ?nd6 = [] \<and> nd_loaders ?nd6 = [Replaying ''b'' []]"
    using st by (simp add: serve_def deliver_state case_prod_beta)
  then have 6: "nd_loaders (?st (NLoader 0 (Deadline 5 10)) ?nd6) = [CatchingUp ''b'' 45 []]"
    by (simp add: loader_step_def loader_waits_def set_loader_def del: node_step.simps(3))
  show ?thesis unfolding replay_events_def fold_simps 1 2 3 4 5 by (rule 6)
qed

lemma buffered_writes_applied_witness:
  "has_write {} (node_run no_codec (\<lambda>xs. xs) stable cfg_a (NLoader 0 Go # replay_events) node_drains) ''a''"
proof -
  have run: "node_run_ok no_codec (\<lambda>xs. xs) stable cfg_a loading_events node_a" by (simp add: loading_events_def del: node_step.simps)
  have later: "node_run_ok no_codec (\<lambda>xs. xs) stable cfg_a (NLoader 0 Go # replay_events) node_drains"
    by (simp add: replay_events_def del: node_step.simps)
  have keeps: "\<forall>ev\<in>set replay_events. keeps_log ev" by (simp add: replay_events_def)
  have k: "0 < length (nd_loaders node_drains)" "nd_loaders node_drains ! 0 = Draining ''b''" "\<not> loader_waits 0 node_drains"
    by (simp_all add: node_drains_def node_a_def loader_waits_def)
  have past: "past_replay (nd_loaders (node_run no_codec (\<lambda>xs. xs) stable cfg_a (NLoader 0 Go # replay_events) node_drains) ! 0)"
    unfolding replay_run by simp
  have "known_ids (pt_log (nd_part node_drains)) = {}"
    by (simp add: node_drains_def node_a_def memory_partition_def log_new_def new_dedup_def)
  moreover have "\<lparr>bw_id = ''a'', bw_key = ''k'', bw_value = ''v''\<rparr> \<in> set (rs_buffer (nd_rs node_drains))"
    by (simp add: node_drains_def)
  ultimately show ?thesis
    using buffered_writes_applied [OF started_a stable_sorts run loading_run [symmetric] k later keeps HOL.refl past]
    by (metis buffered_write.select_convs(1))
qed

end
