(* ===== verification/NodeHandlers.thy ===== *)
theory NodeHandlers
  imports NodeAcks
begin

text \<open>
  The two write handlers of \<open>cmd/node/main.go\<close> as they read from top to bottom, when no
  other request comes in between, and the proof that the steps of \<open>Node\<close>, taken one after
  the other, are these handlers.
\<close>

section \<open>The handlers in one piece\<close>

text \<open>\<open>Apply\<close> on an idle partition: the command is sent, the loop serves it, the reply is read.\<close>

definition part_apply :: "codec \<Rightarrow> gotime \<Rightarrow> string \<Rightarrow> string \<Rightarrow> bytes \<Rightarrow> partition \<times> disk \<Rightarrow>
    apply_result \<times> partition \<times> disk" where
  "part_apply c now i key v s =
     (case s of (p, d) \<Rightarrow>
        let ((e, fresh), l, d') = log_append c now i key v (pt_log p, d)
        in ((e, fresh), p\<lparr>pt_log := l, pt_agg := (if fresh then agg_apply e (pt_agg p) else pt_agg p)\<rparr>, d'))"

definition buffered :: "event_request \<Rightarrow> buffered_write" where
  "buffered req = \<lparr>bw_id = er_id req, bw_key = er_key req, bw_value = er_value req\<rparr>"

definition handle_client_event :: "codec \<Rightarrow> node_config \<Rightarrow> persist_io \<Rightarrow> fan_env \<Rightarrow> gotime \<Rightarrow> string \<Rightarrow>
    event_request option \<Rightarrow> node \<Rightarrow> outcome \<times> node" where
  "handle_client_event c cfg io env now hdr body nd =
     (case check_epoch io hdr nd of
        (Some r, nd1) \<Rightarrow> (Reply r, nd1)
      | (None, nd1) \<Rightarrow>
          (case check_shedding nd1 of
             Some r \<Rightarrow> (Reply r, nd1)
           | None \<Rightarrow>
               (case body of
                  None \<Rightarrow> (Reply BadRequest, nd1)
                | Some req \<Rightarrow>
                    if er_id req = [] \<or> er_key req = [] then (Reply BadRequest, nd1)
                    else (case rs_check (nd_rs nd1) of
                        Some err \<Rightarrow> (Reply (NotNow err), nd1)
                      | None \<Rightarrow>
                          if is_loading (nd_rs nd1)
                          then (Reply BufferedReply, nd1\<lparr>nd_rs := buffer_write (buffered req) (nd_rs nd1)\<rparr>)
                          else
                            (let ((e, fresh), p, d) =
                                   part_apply c now (er_id req) (er_key req) (er_value req) (nd_part nd1, nd_disk nd1);
                                 nd2 = nd1\<lparr>nd_part := p, nd_disk := d\<rparr>
                             in if \<not> fresh then (Reply (DuplicateReply (e_offset e)), nd2)
                                else if nc_primary cfg
                                then (case fan_out_replicate cfg env (er_key req) nd2 of
                                    None \<Rightarrow> (NeverReplies, nd2)
                                  | Some (Inl err) \<Rightarrow> (Panicked err, nd2)
                                  | Some (Inr ok) \<Rightarrow>
                                      if \<not> ok then (Reply (QuorumMissed (nc_w cfg)), nd2)
                                      else (Reply (CreatedReply (e_offset e)), nd2))
                                else (Reply (CreatedReply (e_offset e)), nd2))))))"

definition handle_replicate :: "codec \<Rightarrow> persist_io \<Rightarrow> gotime \<Rightarrow> string \<Rightarrow> event_request option \<Rightarrow> node \<Rightarrow>
    outcome \<times> node" where
  "handle_replicate c io now hdr body nd =
     (case check_epoch io hdr nd of
        (Some r, nd1) \<Rightarrow> (Reply r, nd1)
      | (None, nd1) \<Rightarrow>
          (case check_shedding nd1 of
             Some r \<Rightarrow> (Reply r, nd1)
           | None \<Rightarrow>
               (case body of
                  None \<Rightarrow> (Reply BadRequest, nd1)
                | Some req \<Rightarrow>
                    if er_id req = [] \<or> er_key req = [] then (Reply BadRequest, nd1)
                    else (case rs_check (nd_rs nd1) of
                        Some err \<Rightarrow> (Reply (NotNow err), nd1)
                      | None \<Rightarrow>
                          if is_loading (nd_rs nd1)
                          then (Reply NoContentReply, nd1\<lparr>nd_rs := buffer_write (buffered req) (nd_rs nd1)\<rparr>)
                          else
                            (let (res, p, d) =
                                   part_apply c now (er_id req) (er_key req) (er_value req) (nd_part nd1, nd_disk nd1)
                             in (Reply NoContentReply, nd1\<lparr>nd_part := p, nd_disk := d\<rparr>))))))"

section \<open>An idle partition and an idle node\<close>

lemma apply_when_idle:
  assumes "pt_apply p = []" and "1 \<le> pt_batch p"
    and "part_apply c now (ac_id cmd) (ac_key cmd) (ac_value cmd) (p, d) = (res, p', d')"
  shows "part_step c srt (PApply now) (part_enqueue cmd p, d) = ([Applied (ac_reply cmd) res], p', d')"
proof -
  have p: "p\<lparr>pt_apply := []\<rparr> = p" using assms(1) by simp
  obtain e fresh l d1 where a:
    "log_append c now (ac_id cmd) (ac_key cmd) (ac_value cmd) (pt_log p, d) = ((e, fresh), l, d1)"
    by (metis prod.exhaust)
  show ?thesis
    using assms(1,3) a p
    by (cases "fresh") (auto simp: part_step.simps(2) part_enqueue_def apply_batch_def apply_one_def part_apply_def
        append_batch_append_all case_prod_beta Let_def)
qed

definition idle :: "node \<Rightarrow> bool" where
  "idle nd \<longleftrightarrow> nd_pending nd = [] \<and> pt_apply (nd_part nd) = [] \<and> 1 \<le> pt_batch (nd_part nd)"

abbreviation undisturbed :: "req_kind \<Rightarrow> persist_io \<Rightarrow> string \<Rightarrow> event_request option \<Rightarrow> gotime \<Rightarrow>
    (nat \<Rightarrow> fan_env) \<Rightarrow> node \<Rightarrow> node_event list" where
  "undisturbed kind io hdr body now env nd \<equiv> [NAdmit kind io hdr body, NSend (nd_next nd), NServe now env]"

lemma serve_idle: "pt_apply (nd_part nd) = [] \<Longrightarrow> serve c cfg env now nd = ([], nd)"
  by (simp add: serve_def part_step.simps(2))

lemma undisturbed_refused:
  assumes "admit kind io hdr body nd = ([Reply r], nd1)" and "idle nd1"
  shows "node_outs c srt psrt cfg (undisturbed kind io hdr body now env nd) nd = [(nd_next nd, Reply r)]"
    and "node_run c srt psrt cfg (undisturbed kind io hdr body now env nd) nd = nd1\<lparr>nd_next := nd_next nd1 + 1\<rparr>"
proof -
  have "pt_apply (nd_part (nd1\<lparr>nd_next := nd_next nd1 + 1\<rparr>)) = []" using assms(2) by (simp add: idle_def)
  note served = serve_idle [OF this]
  have pending: "pending_of n (nd1\<lparr>nd_next := m\<rparr>) = None" for n m
    using assms(2) by (simp add: idle_def pending_of_def)
  show "node_outs c srt psrt cfg (undisturbed kind io hdr body now env nd) nd = [(nd_next nd, Reply r)]"
    and "node_run c srt psrt cfg (undisturbed kind io hdr body now env nd) nd = nd1\<lparr>nd_next := nd_next nd1 + 1\<rparr>"
    using served by (simp_all add: assms(1) pending)
qed

lemma undisturbed_buffered:
  assumes "admit kind io hdr body nd = ([], add_pending kind ToBuffer req e nd1)" and "idle nd1"
    and "nd_next nd1 = nd_next nd"
  shows "node_outs c srt psrt cfg (undisturbed kind io hdr body now env nd) nd =
      [(nd_next nd, Reply (if kind = ReplicaEvent then NoContentReply else BufferedReply))]"
    and "node_run c srt psrt cfg (undisturbed kind io hdr body now env nd) nd =
      nd1\<lparr>nd_rs := buffer_write (buffered req) (nd_rs nd1), nd_next := nd_next nd1 + 1\<rparr>"
proof -
  define nd2 where "nd2 = nd1\<lparr>nd_rs := buffer_write (buffered req) (nd_rs nd1), nd_next := nd_next nd1 + 1\<rparr>"
  define pd where "pd = \<lparr>pd_num = nd_next nd, pd_kind = kind, pd_stage = ToBuffer, pd_req = req, pd_epoch = e\<rparr>"
  have "pt_apply (nd_part nd2) = []" using assms(2) by (simp add: idle_def nd2_def)
  note served = serve_idle [OF this]
  have pending: "pending_of (nd_next nd) (add_pending kind ToBuffer req e nd1) = Some pd"
    using assms(2,3) by (simp add: idle_def pending_of_def add_pending_def pd_def)
  have "send_to_buffer pd (add_pending kind ToBuffer req e nd1) =
      ([Reply (if kind = ReplicaEvent then NoContentReply else BufferedReply)], nd2)"
    using assms(2,3) by (simp add: send_to_buffer_def add_pending_def pd_def nd2_def idle_def drop_pending_def buffered_def)
  then obtain r where r: "r = (if kind = ReplicaEvent then NoContentReply else BufferedReply)"
    and "send_to_buffer pd (add_pending kind ToBuffer req e nd1) = ([Reply r], nd2)" by blast
  moreover have "pd_stage pd = ToBuffer" by (simp add: pd_def)
  ultimately
  show "node_outs c srt psrt cfg (undisturbed kind io hdr body now env nd) nd =
      [(nd_next nd, Reply (if kind = ReplicaEvent then NoContentReply else BufferedReply))]"
    and "node_run c srt psrt cfg (undisturbed kind io hdr body now env nd) nd =
      nd1\<lparr>nd_rs := buffer_write (buffered req) (nd_rs nd1), nd_next := nd_next nd1 + 1\<rparr>"
    using served pending unfolding r [symmetric] nd2_def [symmetric] by (simp_all add: assms(1))
qed

lemma undisturbed_applied:
  assumes "admit kind io hdr body nd = ([], add_pending kind ToApply req e nd1)" and "idle nd1"
    and "nd_next nd1 = nd_next nd"
    and "part_apply c now (er_id req) (er_key req) (er_value req) (nd_part nd1, nd_disk nd1) = (res, p, d)"
    and "reply_to cfg (env (nd_next nd))
      \<lparr>pd_num = nd_next nd, pd_kind = kind, pd_stage = Waiting, pd_req = req, pd_epoch = e\<rparr> res nd1 = [oc]"
  shows "node_outs c srt psrt cfg (undisturbed kind io hdr body now env nd) nd = [(nd_next nd, oc)]"
    and "node_run c srt psrt cfg (undisturbed kind io hdr body now env nd) nd =
      nd1\<lparr>nd_part := p, nd_disk := d, nd_next := nd_next nd1 + 1\<rparr>"
proof -
  let ?cmd = "\<lparr>ac_id = er_id req, ac_key = er_key req, ac_value = er_value req, ac_reply = nd_next nd\<rparr>"
  define pd where "pd = \<lparr>pd_num = nd_next nd, pd_kind = kind, pd_stage = ToApply, pd_req = req, pd_epoch = e\<rparr>"
  define nd2 where "nd2 = nd1\<lparr>nd_part := part_enqueue ?cmd (nd_part nd1), nd_pending := [pd\<lparr>pd_stage := Waiting\<rparr>],
      nd_next := nd_next nd1 + 1\<rparr>"
  have pending: "pending_of (nd_next nd) (add_pending kind ToApply req e nd1) = Some pd"
    using assms(2,3) by (simp add: idle_def pending_of_def add_pending_def pd_def)
  have sent: "send_to_partition pd (add_pending kind ToApply req e nd1) = nd2"
    using assms(2,3) by (simp add: send_to_partition_def add_pending_def pd_def nd2_def idle_def set_stage_def)
  have step: "part_step c id (PApply now) (nd_part nd2, nd_disk nd2) = ([Applied (nd_next nd) res], p, d)"
    using apply_when_idle [of "nd_part nd1" c now ?cmd "nd_disk nd1" res p d id] assms(2,4) by (simp add: nd2_def idle_def)
  have "reply_to cfg (env (nd_next nd)) (pd\<lparr>pd_stage := Waiting\<rparr>) res (nd2\<lparr>nd_part := p, nd_disk := d\<rparr>) = [oc]"
    using reply_to_cong [of "nd2\<lparr>nd_part := p, nd_disk := d\<rparr>" nd1] assms(5) by (simp add: nd2_def pd_def)
  then have "serve c cfg env now nd2 = ([(nd_next nd, oc)], nd1\<lparr>nd_part := p, nd_disk := d, nd_next := nd_next nd1 + 1\<rparr>)"
    using assms(2) by (simp add: serve_def step pending_of_def) (simp add: nd2_def pd_def drop_pending_def idle_def)
  with pending sent
  show "node_outs c srt psrt cfg (undisturbed kind io hdr body now env nd) nd = [(nd_next nd, oc)]"
    and "node_run c srt psrt cfg (undisturbed kind io hdr body now env nd) nd =
      nd1\<lparr>nd_part := p, nd_disk := d, nd_next := nd_next nd1 + 1\<rparr>"
    by (simp_all add: assms(1)) (simp_all add: pd_def)
qed

section \<open>The branches of the handlers\<close>

lemma handler_branches:
  obtains (refused) r nd1 where "\<And>kind. admit kind io hdr body nd = ([Reply r], nd1)"
      "\<And>c cfg env now. handle_client_event c cfg io env now hdr body nd = (Reply r, nd1)"
      "\<And>c now. handle_replicate c io now hdr body nd = (Reply r, nd1)" "nd1 = nd\<lparr>nd_fencer := nd_fencer nd1, nd_files := nd_files nd1\<rparr>"
  | (loading) req nd1 where "\<And>kind. admit kind io hdr body nd = ([], add_pending kind ToBuffer req (parse_epoch hdr) nd1)"
      "\<And>c cfg env now. handle_client_event c cfg io env now hdr body nd =
        (Reply BufferedReply, nd1\<lparr>nd_rs := buffer_write (buffered req) (nd_rs nd1)\<rparr>)"
      "\<And>c now. handle_replicate c io now hdr body nd =
        (Reply NoContentReply, nd1\<lparr>nd_rs := buffer_write (buffered req) (nd_rs nd1)\<rparr>)"
      "nd1 = nd\<lparr>nd_fencer := nd_fencer nd1, nd_files := nd_files nd1\<rparr>"
  | (serving) req nd1 where "\<And>kind. admit kind io hdr body nd = ([], add_pending kind ToApply req (parse_epoch hdr) nd1)"
      "\<And>c cfg env now res p d pd.
        part_apply c now (er_id req) (er_key req) (er_value req) (nd_part nd1, nd_disk nd1) = (res, p, d) \<Longrightarrow>
        pd_kind pd = ClientEvent \<Longrightarrow> pd_req pd = req \<Longrightarrow>
        \<exists>oc. reply_to cfg env pd res nd1 = [oc] \<and>
          handle_client_event c cfg io env now hdr body nd = (oc, nd1\<lparr>nd_part := p, nd_disk := d\<rparr>)"
      "\<And>c now res p d. part_apply c now (er_id req) (er_key req) (er_value req) (nd_part nd1, nd_disk nd1) = (res, p, d) \<Longrightarrow>
        handle_replicate c io now hdr body nd = (Reply NoContentReply, nd1\<lparr>nd_part := p, nd_disk := d\<rparr>)"
      "nd1 = nd\<lparr>nd_fencer := nd_fencer nd1, nd_files := nd_files nd1\<rparr>"
proof -
  note defs = admit_def handle_client_event_def handle_replicate_def
  obtain r nd1 where ce: "check_epoch io hdr nd = (r, nd1)" by fastforce
  note nd1 = check_epoch_fields [OF ce]
  consider r' where "r = Some r'" | r' where "r = None" "check_shedding nd1 = Some r'"
    | "r = None" "check_shedding nd1 = None" "body = None \<or> (\<exists>req. body = Some req \<and> (er_id req = [] \<or> er_key req = []))"
    | req err where "r = None" "check_shedding nd1 = None" "body = Some req" "er_id req \<noteq> []" "er_key req \<noteq> []"
      "rs_check (nd_rs nd1) = Some err"
    | req where "r = None" "check_shedding nd1 = None" "body = Some req" "er_id req \<noteq> []" "er_key req \<noteq> []"
      "rs_check (nd_rs nd1) = None" "is_loading (nd_rs nd1)"
    | req where "r = None" "check_shedding nd1 = None" "body = Some req" "er_id req \<noteq> []" "er_key req \<noteq> []"
      "rs_check (nd_rs nd1) = None" "\<not> is_loading (nd_rs nd1)"
    by (metis option.exhaust)
  then show thesis
  proof cases
    case 1
    then show thesis by (intro refused [OF _ _ _ nd1]) (simp_all add: defs ce)
  next
    case 2
    then show thesis by (intro refused [OF _ _ _ nd1]) (simp_all add: defs ce)
  next
    case 3
    then show thesis by (intro refused [OF _ _ _ nd1, of BadRequest]) (auto simp: defs ce)
  next
    case 4
    then show thesis by (intro refused [OF _ _ _ nd1]) (simp_all add: defs ce)
  next
    case 5
    then show thesis by (intro loading [OF _ _ _ nd1]) (simp_all add: defs ce)
  next
    case 6
    have client: "\<exists>oc. reply_to cfg env pd res nd1 = [oc] \<and>
        handle_client_event c cfg io env now hdr body nd = (oc, nd1\<lparr>nd_part := p, nd_disk := d\<rparr>)"
      if "part_apply c now (er_id req) (er_key req) (er_value req) (nd_part nd1, nd_disk nd1) = (res, p, d)"
        "pd_kind pd = ClientEvent" "pd_req pd = req" for c cfg env now res p d pd
    proof -
      have "fan_out_replicate cfg env key (nd1\<lparr>nd_part := p, nd_disk := d\<rparr>) = fan_out_replicate cfg env key nd1" for key
        by (rule fan_out_cong) simp_all
      with that 6 ce show ?thesis
        by (cases res) (auto simp: handle_client_event_def reply_to_def Let_def split: option.split sum.split bool.split)
    qed
    show thesis
      by (rule serving [OF _ client _ nd1]) (use 6 ce in \<open>auto simp: admit_def handle_replicate_def\<close>)
  qed
qed

lemma idle_fencer: "idle nd \<Longrightarrow> nd1 = nd\<lparr>nd_fencer := f, nd_files := fs\<rparr> \<Longrightarrow> idle nd1 \<and> nd_next nd1 = nd_next nd"
  by (simp add: idle_def)

section \<open>The steps are the handlers\<close>

text \<open>
  When no other request comes in between, the steps of a write (admission, the send to
  the buffer or the partition, the service by the loop, the reply) are the handler read from
  top to bottom: the same answer and the same state, for \<open>POST /events\<close> and for
  \<open>POST /replicate\<close>, on every branch.
\<close>

theorem steps_are_handlers:
  assumes "idle nd"
  shows "(node_outs c srt psrt cfg (undisturbed ClientEvent io hdr body now env nd) nd,
        node_run c srt psrt cfg (undisturbed ClientEvent io hdr body now env nd) nd) =
      (let (oc, nd') = handle_client_event c cfg io (env (nd_next nd)) now hdr body nd
       in ([(nd_next nd, oc)], nd'\<lparr>nd_next := nd_next nd' + 1\<rparr>)) \<and>
    (node_outs c srt psrt cfg (undisturbed ReplicaEvent io hdr body now env nd) nd,
        node_run c srt psrt cfg (undisturbed ReplicaEvent io hdr body now env nd) nd) =
      (let (oc, nd') = handle_replicate c io now hdr body nd
       in ([(nd_next nd, oc)], nd'\<lparr>nd_next := nd_next nd' + 1\<rparr>))"
proof (cases rule: handler_branches [of io hdr body nd])
  case (refused r nd1)
  have idle: "idle nd1" using idle_fencer [OF assms refused(4)] by blast
  show ?thesis
    unfolding undisturbed_refused [OF refused(1) idle] refused(2,3) by simp
next
  case (loading req nd1)
  have idle: "idle nd1" "nd_next nd1 = nd_next nd" using idle_fencer [OF assms loading(4)] by blast+
  show ?thesis
    unfolding undisturbed_buffered [OF loading(1) idle] loading(2,3) by simp
next
  case (serving req nd1)
  have idle: "idle nd1" "nd_next nd1 = nd_next nd" using idle_fencer [OF assms serving(4)] by blast+
  obtain res p d where a: "part_apply c now (er_id req) (er_key req) (er_value req) (nd_part nd1, nd_disk nd1) = (res, p, d)"
    by (rule prod_cases3)
  let ?pd = "\<lambda>kind. \<lparr>pd_num = nd_next nd, pd_kind = kind, pd_stage = Waiting, pd_req = req, pd_epoch = parse_epoch hdr\<rparr>"
  obtain oc where oc: "reply_to cfg (env (nd_next nd)) (?pd ClientEvent) res nd1 = [oc]"
    "handle_client_event c cfg io (env (nd_next nd)) now hdr body nd = (oc, nd1\<lparr>nd_part := p, nd_disk := d\<rparr>)"
    using serving(2) [OF a, of "?pd ClientEvent" cfg "env (nd_next nd)"] by auto
  have replica: "reply_to cfg (env (nd_next nd)) (?pd ReplicaEvent) res nd1 = [Reply NoContentReply]"
    by (simp add: reply_to_def case_prod_beta)
  show ?thesis
    unfolding undisturbed_applied [where env = env, OF serving(1) idle a oc(1)]
      undisturbed_applied [where env = env, OF serving(1) idle a replica]
      oc(2) serving(3) [OF a] by simp
qed

section \<open>Witness\<close>

lemma idle_a: "idle node_a"
  by (simp add: idle_def node_a_def memory_partition_def)

lemma steps_are_handlers_witness:
  "node_outs no_codec (\<lambda>xs. xs) stable cfg_a (undisturbed ClientEvent Persists '''' (Some req_a) 1 (\<lambda>_. env_b NetError) node_a) node_a =
      [(0, Reply (QuorumMissed 2))] \<and>
    node_outs no_codec (\<lambda>xs. xs) stable cfg_a (undisturbed ReplicaEvent Persists '''' (Some req_a) 1 (\<lambda>_. env_b NetError) node_a) node_a =
      [(0, Reply NoContentReply)]"
proof -
  have e: "check_epoch Persists '''' node_a = (None, node_a)"
    by (simp add: check_epoch_def parse_epoch_def parse_uint_def fencer_check_def Let_def node_a_def)
  have p: "check_shedding node_a = None" "rs_check (nd_rs node_a) = None" "\<not> is_loading (nd_rs node_a)"
    by (simp_all add: check_shedding_def queue_depth_def queue_cap_def rs_check_def is_loading_def rs_init_def node_a_def
        memory_partition_def)
  obtain en p' d' where a: "part_apply no_codec 1 ''a'' ''k'' ''v'' (nd_part node_a, nd_disk node_a) = ((en, True), p', d')"
    by (simp add: part_apply_def node_a_def memory_partition_def append_to_new)
  have f: "fan_out_replicate cfg_a (env_b NetError) ''k'' (node_a\<lparr>nd_part := p', nd_disk := d'\<rparr>) = Some (Inr False)"
    using fan_out_b [of "node_a\<lparr>nd_part := p', nd_disk := d'\<rparr>" NetError "''k''"]
    by (simp add: node_a_def post_replicate_def)
  have "nc_primary cfg_a" "nc_w cfg_a = 2" "nd_next node_a = 0" by (simp_all add: cfg_a_def node_a_def)
  then show ?thesis
    using steps_are_handlers [OF idle_a, of no_codec "\<lambda>xs. xs" stable cfg_a Persists "''''" "Some req_a" 1 "\<lambda>_. env_b NetError"]
    by (simp add: handle_client_event_def handle_replicate_def e p a f del: node_outs.simps)
qed

end
