(* ===== verification/Gateway.thy ===== *)
theory Gateway
  imports HashRing Breaker RateLimit Membership
begin

text \<open>
  \<open>cmd/gateway/main.go\<close>: the gateway limits the rate per key, routes a write to the replicas
  of its key, waits for a quorum and retries. Many goroutines share the gateway:
  \<open>post\<close> is split at its call of the HTTP client, \<open>send\<close> takes the order in which its posts
  start and end, and steps of other goroutines (\<open>gw_event\<close>) come in between wherever the
  handler holds no lock. The answers of nodes and of the control plane and the clock readings
  are arguments; JSON and rounding are in \<open>gw_env\<close>.
\<close>

section \<open>State\<close>

text \<open>
  What the handlers are given: the sorting function of the ring, the rounding of the
  limiter, the address resolution of the membership, the breaker flags, and the fields
  \<open>key\<close>, \<open>seen\<close> and \<open>epoch\<close> of a JSON body (\<open>None\<close> when it does not parse; an absent field is the zero
  value).
\<close>

record gw_env =
  ge_sort :: "point list \<Rightarrow> point list"
  ge_round :: "rat \<Rightarrow> rat"
  ge_resolve :: "string \<Rightarrow> string option"
  ge_threshold :: int
  ge_cooldown :: duration
  ge_key :: "bytes \<Rightarrow> string option"
  ge_seen :: "bytes \<Rightarrow> u64 option"
  ge_epoch :: "bytes \<Rightarrow> u64 option"

text \<open>
  \<open>gw_inflight\<close> is the number of other writes that hold a place of the semaphore, and
  \<open>gw_watching\<close> the event of which \<open>watchMembership\<close> has done the first half.
\<close>

record gateway =
  gw_ring :: ring
  gw_rf :: int
  gw_w :: int
  gw_limiter :: limiter
  gw_no_limit :: bool
  gw_primary_repl :: bool
  gw_breakers :: "(string, breaker) gomap"
  gw_epoch :: u64
  gw_overloaded :: "(string, bool) gomap"
  gw_inflight :: nat
  gw_max_inflight :: nat
  gw_swim :: "swim option"
  gw_cp :: string
  gw_failed_over :: "(string, gotime) gomap"
  gw_watching :: "event option"

text \<open>
  How a request to another process ends: it cannot be built from the address, the HTTP client returns an
  error, or there is a status and a body.
\<close>

datatype answer = NoRequest | NoAnswer | Answer nat bytes

text \<open>
  \<open>GET /epoch\<close>: the control plane's answer counts whatever its status, if its body decodes.
  \<open>POST /epoch/bump\<close> is answered and read in the same way.
\<close>

definition fetch_epoch :: "gw_env \<Rightarrow> answer \<Rightarrow> u64 option" where
  "fetch_epoch env ans = (case ans of Answer st body \<Rightarrow> ge_epoch env body | _ \<Rightarrow> None)"

definition is_overloaded :: "string \<Rightarrow> gateway \<Rightarrow> bool" where
  "is_overloaded addr gw = (map_of (gw_overloaded gw) addr = Some True)"

text \<open>The flags of \<open>main\<close>; it exits when they do not fit together.\<close>

record gw_config =
  gc_peers :: "string list"
  gc_rf :: int
  gc_w :: int
  gc_rate :: rat
  gc_burst :: int
  gc_threshold :: int
  gc_cooldown :: duration
  gc_controlplane :: string
  gc_max_inflight :: nat
  gc_no_limit :: bool
  gc_primary_repl :: bool

text \<open>\<open>fetched\<close> is the control plane's answer, \<open>mem\<close> the membership if one is started.\<close>

definition gw_start :: "gw_env \<Rightarrow> gw_config \<Rightarrow> answer \<Rightarrow> swim option \<Rightarrow> gateway option" where
  "gw_start env gc fetched mem =
     (if gc_peers gc = [] \<or> gc_w gc > gc_rf gc \<or> gc_rf gc > int (length (gc_peers gc)) then None
      else Some \<lparr>gw_ring = ring_new (ge_sort env) (gc_peers gc), gw_rf = gc_rf gc, gw_w = gc_w gc,
        gw_limiter = new_map (gc_rate gc) (gc_burst gc), gw_no_limit = gc_no_limit gc,
        gw_primary_repl = gc_primary_repl gc,
        gw_breakers = fold (\<lambda>n. AList.update n (breaker_new (gc_threshold gc) (gc_cooldown gc))) (gc_peers gc) [],
        gw_epoch = (if gc_controlplane gc \<noteq> [] then (case fetch_epoch env fetched of Some e \<Rightarrow> e | None \<Rightarrow> 0) else 0),
        gw_overloaded = [], gw_inflight = 0, gw_max_inflight = gc_max_inflight gc, gw_swim = mem,
        gw_cp = gc_controlplane gc, gw_failed_over = [], gw_watching = None\<rparr>)"

section \<open>Epochs\<close>

text \<open>
  \<open>if e > epoch.Load() { epoch.Store(e) }\<close>, in three places of the code. The load and the
  store are two steps: as one step they are \<open>learn_epoch\<close>; when another goroutine
  comes in between, the second is \<open>raw_store\<close>.
\<close>

definition raw_store :: "u64 \<Rightarrow> gateway \<Rightarrow> gateway" where
  "raw_store e gw = gw\<lparr>gw_epoch := e\<rparr>"

definition learn_epoch :: "u64 \<Rightarrow> gateway \<Rightarrow> gateway" where
  "learn_epoch e gw = (if e > gw_epoch gw then raw_store e gw else gw)"

definition poll_epoch :: "gw_env \<Rightarrow> answer \<Rightarrow> gateway \<Rightarrow> gateway" where
  "poll_epoch env ans gw = (case fetch_epoch env ans of None \<Rightarrow> gw | Some e \<Rightarrow> learn_epoch e gw)"

definition bump_epoch :: "gw_env \<Rightarrow> answer \<Rightarrow> gateway \<Rightarrow> u64 option \<times> gateway" where
  "bump_epoch env ans gw =
     (if gw_cp gw = [] then (None, gw)
      else (case fetch_epoch env ans of None \<Rightarrow> (None, gw) | Some e \<Rightarrow> (Some e, learn_epoch e gw)))"

section \<open>Health and membership\<close>

text \<open>One answer to a poll: \<open>None\<close> for an error, otherwise the field \<open>overloaded\<close> if it decodes.\<close>

definition poll_health :: "string \<Rightarrow> bool option option \<Rightarrow> gateway \<Rightarrow> gateway" where
  "poll_health addr answer gw =
     (case answer of
        None \<Rightarrow> gw\<lparr>gw_overloaded := AList.update addr False (gw_overloaded gw)\<rparr>
      | Some None \<Rightarrow> gw
      | Some (Some v) \<Rightarrow> gw\<lparr>gw_overloaded := AList.update addr v (gw_overloaded gw)\<rparr>)"

text \<open>
  The goroutine \<open>watchMembership\<close> handles an event in two steps: it changes the ring, under
  the lock of the ring, and then the breakers or the overload flags, under theirs. The first
  result of the second step is the dead node the control plane is told of.
\<close>

definition watch_membership :: "gw_env \<Rightarrow> event \<Rightarrow> gateway \<Rightarrow> gateway" where
  "watch_membership env ev gw =
     (let addr = ev_http ev
      in if addr = [] then gw
         else (case ev_type ev of
             EventJoin \<Rightarrow> gw\<lparr>gw_ring := ring_add (ge_sort env) addr (gw_ring gw), gw_watching := Some ev\<rparr>
           | EventDead \<Rightarrow> gw\<lparr>gw_ring := ring_remove addr (gw_ring gw), gw_watching := Some ev\<rparr>))"

definition watch_membership_end :: "gw_env \<Rightarrow> event \<Rightarrow> gateway \<Rightarrow> string option \<times> gateway" where
  "watch_membership_end env ev gw =
     (let addr = ev_http ev; gw1 = gw\<lparr>gw_watching := None\<rparr>
      in case ev_type ev of
           EventJoin \<Rightarrow>
             (None, if map_of (gw_breakers gw1) addr = None
                    then gw1\<lparr>gw_breakers := AList.update addr
                           (breaker_new (ge_threshold env) (ge_cooldown env)) (gw_breakers gw1)\<rparr>
                    else gw1)
         | EventDead \<Rightarrow>
             (if gw_cp gw1 \<noteq> [] then Some addr else None,
              gw1\<lparr>gw_overloaded := AList.delete addr (gw_overloaded gw1)\<rparr>))"

section \<open>One request to a node\<close>

text \<open>The status, the body (\<open>None\<close> is nil), and whether there was an error.\<close>

record post_result =
  ps_status :: nat
  ps_body :: "bytes option"
  ps_err :: bool

definition failed_post :: post_result where
  "failed_post = \<lparr>ps_status = 0, ps_body = None, ps_err = True\<rparr>"

definition set_breaker :: "string \<Rightarrow> (breaker \<Rightarrow> breaker) \<Rightarrow> gateway \<Rightarrow> gateway" where
  "set_breaker addr f gw =
     (case map_of (gw_breakers gw) addr of
        None \<Rightarrow> gw
      | Some b \<Rightarrow> gw\<lparr>gw_breakers := AList.update addr (f b) (gw_breakers gw)\<rparr>)"

text \<open>
  \<open>post\<close> up to the call of the client: the value of the header \<open>X-Epoch\<close>, or \<open>None\<close> when
  the breaker refuses the request.
\<close>

definition post_begin :: "gotime \<Rightarrow> string \<Rightarrow> gateway \<Rightarrow> string option \<times> gateway" where
  "post_begin now addr gw =
     (let ok = (case map_of (gw_breakers gw) addr of None \<Rightarrow> True | Some b \<Rightarrow> fst (breaker_allow now b));
          gw1 = set_breaker addr (\<lambda>b. snd (breaker_allow now b)) gw
      in (if ok then Some (format_uint (unat (gw_epoch gw1))) else None, gw1))"

definition post_end :: "gw_env \<Rightarrow> gotime \<Rightarrow> string \<Rightarrow> answer \<Rightarrow> gateway \<Rightarrow> post_result \<times> gateway" where
  "post_end env now addr ans gw =
     (case ans of
        NoRequest \<Rightarrow> (failed_post, gw)
      | NoAnswer \<Rightarrow> (failed_post, set_breaker addr (breaker_failure now) gw)
      | Answer st body \<Rightarrow>
          (let gw1 = set_breaker addr (if st \<ge> 500 then breaker_failure now else breaker_success) gw;
               gw2 = (if st = 409 then (case ge_seen env body of None \<Rightarrow> gw1 | Some e \<Rightarrow> learn_epoch e gw1) else gw1)
           in (\<lparr>ps_status = st, ps_body = Some body, ps_err = False\<rparr>, gw2)))"

section \<open>The steps of other goroutines\<close>

text \<open>
  The writers of the shared state: the pollers, the membership and its watcher, the
  limiter's sweeper, and the steps of other requests. \<open>RawStored\<close> is the store of a
  \<open>learn_epoch\<close> that was overtaken between its load and its store. The watcher takes its
  next event (\<open>Watched\<close>) when it is done with the one before (\<open>WatchEnded\<close>).
\<close>

datatype gw_event =
  EpochPolled answer | Bumped answer | RawStored u64
| HealthPolled string "bool option option" | Watched event | WatchEnded | SwimStep swim_event
| LookedUp string gotime | TokenTaken nat gotime | SweepVisited string gotime
| PostBegun gotime string | PostEnded gotime string answer
| FailedOver string gotime | TakeSlot | ReleaseSlot

definition slot_free :: "gateway \<Rightarrow> bool" where
  "slot_free gw = (gw_inflight gw < gw_max_inflight gw)"

fun gw_step :: "gw_env \<Rightarrow> gw_event \<Rightarrow> gateway \<Rightarrow> gateway" where
  "gw_step env (EpochPolled r) gw = poll_epoch env r gw"
| "gw_step env (Bumped r) gw = snd (bump_epoch env r gw)"
| "gw_step env (RawStored e) gw = raw_store e gw"
| "gw_step env (HealthPolled addr r) gw = poll_health addr r gw"
| "gw_step env (Watched ev) gw = (if gw_watching gw = None then watch_membership env ev gw else gw)"
| "gw_step env WatchEnded gw =
     (case gw_watching gw of None \<Rightarrow> gw | Some ev \<Rightarrow> snd (watch_membership_end env ev gw))"
| "gw_step env (SwimStep ev) gw = gw\<lparr>gw_swim := map_option (swim_step (ge_resolve env) ev) (gw_swim gw)\<rparr>"
| "gw_step env (LookedUp key now) gw =
     gw\<lparr>gw_limiter := snd (map_lookup (ge_round env) now key (gw_limiter gw))\<rparr>"
| "gw_step env (TokenTaken n now) gw =
     gw\<lparr>gw_limiter := snd (take_token (ge_round env) now n (gw_limiter gw))\<rparr>"
| "gw_step env (SweepVisited key now) gw =
     gw\<lparr>gw_limiter := sweep_visit (ge_round env) now key (gw_limiter gw)\<rparr>"
| "gw_step env (PostBegun now addr) gw = snd (post_begin now addr gw)"
| "gw_step env (PostEnded now addr ans) gw = snd (post_end env now addr ans gw)"
| "gw_step env (FailedOver addr now) gw =
     gw\<lparr>gw_failed_over := AList.update addr now (gw_failed_over gw)\<rparr>"
| "gw_step env TakeSlot gw = (if slot_free gw then gw\<lparr>gw_inflight := gw_inflight gw + 1\<rparr> else gw)"
| "gw_step env ReleaseSlot gw = gw\<lparr>gw_inflight := gw_inflight gw - 1\<rparr>"

section \<open>Sending a write to its replicas\<close>

definition is_ack :: "post_result \<Rightarrow> bool" where
  "is_ack r \<longleftrightarrow> \<not> ps_err r \<and> (ps_status r = 201 \<or> ps_status r = 200 \<or> ps_status r = 204 \<or> ps_status r = 202)"

text \<open>
  The goroutines of one send, numbered like the replicas: each starts once and reports
  once. The trace has the requests (replica, address, path, header) and the results in the
  order of the channel; only the first replica's result carries its body.
\<close>

datatype send_step = Begin nat gotime | End nat gotime answer | Other gw_event

datatype post_event = Request nat string string string | Result nat post_result

fun run_posts :: "gw_env \<Rightarrow> string list \<Rightarrow> nat list \<Rightarrow> (nat, string option) gomap \<Rightarrow> send_step list \<Rightarrow>
    gateway \<Rightarrow> post_event list \<times> gateway" where
  "run_posts env rs begun flying [] gw = ([], gw)"
| "run_posts env rs begun flying (Begin i now # steps) gw =
     (if i < length rs \<and> i \<notin> set begun
      then (let (hdr, gw1) = post_begin now (rs ! i) gw;
                (tr, gw2) = run_posts env rs (i # begun) (AList.update i hdr flying) steps gw1
            in ((case hdr of None \<Rightarrow> []
                 | Some h \<Rightarrow> [Request i (rs ! i) (if i = 0 then ''/events'' else ''/replicate'') h]) @ tr, gw2))
      else run_posts env rs begun flying steps gw)"
| "run_posts env rs begun flying (End i now ans # steps) gw =
     (case map_of flying i of
        None \<Rightarrow> run_posts env rs begun flying steps gw
      | Some hdr \<Rightarrow>
          (let (r, gw1) = (if hdr = None then (failed_post, gw) else post_end env now (rs ! i) ans gw);
               (tr, gw2) = run_posts env rs begun (AList.delete i flying) steps gw1
           in (Result i (if i = 0 then r else r\<lparr>ps_body := None\<rparr>) # tr, gw2)))"
| "run_posts env rs begun flying (Other e # steps) gw = run_posts env rs begun flying steps (gw_step env e gw)"

fun results :: "post_event list \<Rightarrow> (nat \<times> post_result) list" where
  "results [] = []"
| "results (Request i a p h # tr) = results tr"
| "results (Result i r # tr) = (i, r) # results tr"

text \<open>The loop over the channel; \<open>None\<close> while it waits for a result.\<close>

fun collect :: "int \<Rightarrow> nat \<Rightarrow> post_result \<Rightarrow> int \<Rightarrow> post_result list \<Rightarrow> (post_result \<times> int) option" where
  "collect w 0 primary acks res = Some (primary, acks)"
| "collect w (Suc n) primary acks [] = None"
| "collect w (Suc n) primary acks (r # res) =
     (let primary' = (if ps_body r \<noteq> None then r else primary);
          acks' = (if is_ack r then acks + 1 else acks)
      in if acks' \<ge> w \<and> ps_body primary' \<noteq> None then Some (primary', acks')
         else collect w n primary' acks' res)"

definition no_result :: post_result where
  "no_result = \<lparr>ps_status = 0, ps_body = None, ps_err = False\<rparr>"

text \<open>
  An index out of range panics: in the handler's goroutine the server closes the
  connection, in a goroutine of the handler the process dies.
\<close>

datatype send_outcome = Sent post_result int | HandlerPanics | ProcessDies | StillWaiting

definition send :: "gw_env \<Rightarrow> string list \<Rightarrow> send_step list \<Rightarrow> gateway \<Rightarrow> send_outcome \<times> post_event list \<times> gateway" where
  "send env replicas steps gw =
     (if length replicas = 1 \<or> gw_primary_repl gw
      then (if replicas = [] then (HandlerPanics, [], gw)
            else (let (tr, gw1) = run_posts env [replicas ! 0] [] [] steps gw
                  in (case results tr of
                        [] \<Rightarrow> (StillWaiting, tr, gw1)
                      | (i, r) # _ \<Rightarrow> (Sent r (if is_ack r then 1 else 0), tr, gw1))))
      else if replicas = [] then (ProcessDies, [], gw)
      else (let (tr, gw1) = run_posts env replicas [] [] steps gw
            in (case collect (gw_w gw) (length replicas) no_result 0 (List.map snd (results tr)) of
                  None \<Rightarrow> (StillWaiting, tr, gw1)
                | Some (primary, acks) \<Rightarrow> (Sent primary acks, tr, gw1))))"

section \<open>The handler of a write\<close>

definition attempt_timeout :: duration where
  "attempt_timeout = 1200000000"

fun first_free :: "gateway \<Rightarrow> nat \<Rightarrow> string list \<Rightarrow> nat option" where
  "first_free gw i [] = None"
| "first_free gw i (addr # rest) = (if \<not> is_overloaded addr gw then Some i else first_free gw (i + 1) rest)"

definition swap_overloaded :: "gateway \<Rightarrow> string list \<Rightarrow> string list" where
  "swap_overloaded gw rs =
     (if gw_primary_repl gw then rs
      else (case first_free gw 0 rs of
              None \<Rightarrow> rs
            | Some i \<Rightarrow> rs[0 := rs ! i, i := rs ! 0]))"

datatype gw_body = GatewayOverloaded | ReadError | KeyRequired | RateLimited string
  | QuorumNotReached int int | NoBody | NodeBody "bytes option"

text \<open>The status, the header \<open>Retry-After\<close> and the body; or what comes instead of an answer.\<close>

datatype gw_reply = GwReply nat bool gw_body | Closed | Died | Waiting

text \<open>
  What one call of the handler meets: the clock readings, the iteration order of the
  membership's map, the answer to \<open>POST /epoch/bump\<close>, the steps of the two attempts, and
  what other goroutines do while the handler is between them.
\<close>

record write_env =
  we_limit_at :: gotime
  we_in_limiter :: "gw_event list"
  we_take_at :: gotime
  we_before :: "gw_event list"
  we_first :: "send_step list"
  we_order :: "(string \<times> member) list \<Rightarrow> (string \<times> member) list"
  we_check_at :: gotime
  we_while_bump :: "gw_event list"
  we_bump :: answer
  we_store_at :: gotime
  we_second :: "send_step list"

definition need :: "gateway \<Rightarrow> int" where
  "need gw = (if gw_primary_repl gw then 1 else gw_w gw)"

definition wants_retry :: "gateway \<Rightarrow> post_result \<Rightarrow> int \<Rightarrow> bool" where
  "wants_retry gw r acks \<longleftrightarrow> acks < need gw \<and> ps_status r \<noteq> 429 \<and> (ps_status r = 409 \<or> ps_status r = 0)"

text \<open>
  Whether an epoch was bumped for the suspected primary, now or less than a timeout ago.
\<close>

definition bump_for :: "gw_env \<Rightarrow> write_env \<Rightarrow> string \<Rightarrow> gateway \<Rightarrow> bool \<times> gateway" where
  "bump_for env we dead gw =
     (if (case map_of (gw_failed_over gw) dead of
            None \<Rightarrow> False | Some v \<Rightarrow> time_sub (we_check_at we) v < attempt_timeout)
      then (True, gw)
      else (let gw1 = fold (gw_step env) (we_while_bump we) gw;
                (e, gw2) = bump_epoch env (we_bump we) gw1
            in if e \<noteq> None then (True, gw_step env (FailedOver dead (we_store_at we)) gw2) else (False, gw2)))"

text \<open>\<open>ring.Replicas\<close> can panic or loop only on a ring that is not well-formed.\<close>

datatype routing = Routed "string list" | RoutePanics | RouteLoops

definition route :: "string \<Rightarrow> gateway \<Rightarrow> routing" where
  "route key gw =
     (case ring_replicas (gw_ring gw) key (gw_rf gw) of
        None \<Rightarrow> RouteLoops | Some (Inl _) \<Rightarrow> RoutePanics | Some (Inr rs) \<Rightarrow> Routed rs)"

definition suspected :: "write_env \<Rightarrow> string list \<Rightarrow> gateway \<Rightarrow> bool" where
  "suspected we rs gw \<longleftrightarrow> gw_primary_repl gw \<and> rs \<noteq> [] \<and>
     (case gw_swim gw of None \<Rightarrow> False | Some m \<Rightarrow> is_suspect (we_order we) (rs ! 0) m)"

text \<open>Where the second attempt goes.\<close>

definition reroute :: "gw_env \<Rightarrow> write_env \<Rightarrow> string \<Rightarrow> string list \<Rightarrow> gateway \<Rightarrow> routing \<times> gateway" where
  "reroute env we key rs gw =
     (let (bumped, gw1) = (if suspected we rs gw then bump_for env we (rs ! 0) gw else (False, gw))
      in (if bumped
          then (case route key gw1 of
                  Routed rs' \<Rightarrow>
                    (case find (\<lambda>addr. addr \<noteq> rs ! 0) rs' of
                       Some addr \<Rightarrow> Routed [addr]
                     | None \<Rightarrow> route key gw1)
                | r \<Rightarrow> r)
          else route key gw1, gw1))"

text \<open>The answer to the client once the attempts are over.\<close>

definition respond :: "gateway \<Rightarrow> post_result \<Rightarrow> int \<Rightarrow> gw_reply" where
  "respond gw r acks =
     (if acks < need gw then GwReply 503 True (QuorumNotReached acks (need gw))
      else if ps_status r = 0 then GwReply 503 False NoBody
      else GwReply (ps_status r) False (NodeBody (ps_body r)))"

type_synonym attempts = "(string list \<times> post_event list) list"

text \<open>The second attempt is the last.\<close>

definition finish_attempt :: "gateway \<Rightarrow> send_outcome \<Rightarrow> gw_reply" where
  "finish_attempt gw out =
     (case out of
        Sent r acks \<Rightarrow> respond gw r acks
      | HandlerPanics \<Rightarrow> Closed
      | ProcessDies \<Rightarrow> Died
      | StillWaiting \<Rightarrow> Waiting)"

definition attempt_twice :: "gw_env \<Rightarrow> write_env \<Rightarrow> string \<Rightarrow> string list \<Rightarrow> gateway \<Rightarrow> gw_reply \<times> attempts \<times> gateway" where
  "attempt_twice env we key rs gw =
     (let (out, tr, gw1) = send env rs (we_first we) gw
      in (case out of
            Sent r acks \<Rightarrow>
              (if wants_retry gw1 r acks
               then (let (rt, gw2) = reroute env we key rs gw1
                     in (case rt of
                           Routed rs' \<Rightarrow>
                             (let (out', tr', gw3) = send env rs' (we_second we) gw2
                              in (finish_attempt gw3 out', [(rs, tr), (rs', tr')], gw3))
                         | RoutePanics \<Rightarrow> (Closed, [(rs, tr)], gw2)
                         | RouteLoops \<Rightarrow> (Waiting, [(rs, tr)], gw2)))
               else (respond gw1 r acks, [(rs, tr)], gw1))
          | _ \<Rightarrow> (finish_attempt gw1 out, [(rs, tr)], gw1)))"

text \<open>\<open>limiter.Allow\<close>, with what other goroutines do between its two steps.\<close>

definition ask_limiter :: "gw_env \<Rightarrow> write_env \<Rightarrow> string \<Rightarrow> gateway \<Rightarrow> bool \<times> gateway" where
  "ask_limiter env we key gw =
     (if gw_no_limit gw then (True, gw)
      else (let (n, lim) = map_lookup (ge_round env) (we_limit_at we) key (gw_limiter gw);
                gw1 = fold (gw_step env) (we_in_limiter we) (gw\<lparr>gw_limiter := lim\<rparr>);
                (ok, lim1) = take_token (ge_round env) (we_take_at we) n (gw_limiter gw1)
            in (ok, gw1\<lparr>gw_limiter := lim1\<rparr>)))"

definition routed_write :: "gw_env \<Rightarrow> write_env \<Rightarrow> string \<Rightarrow> gateway \<Rightarrow> gw_reply \<times> attempts \<times> gateway" where
  "routed_write env we key gw =
     (case route key gw of
        Routed rs \<Rightarrow> attempt_twice env we key (swap_overloaded gw rs) gw
      | RoutePanics \<Rightarrow> (Closed, [], gw)
      | RouteLoops \<Rightarrow> (Waiting, [], gw))"

text \<open>
  \<open>body\<close> is \<open>None\<close> when the request cannot be read. The attempts with their traces are
  the requests the handler made. The slot is given back unless the process died or the
  handler still waits.
\<close>

definition in_slot :: "gw_env \<Rightarrow> write_env \<Rightarrow> bytes option \<Rightarrow> gateway \<Rightarrow> gw_reply \<times> attempts \<times> gateway" where
  "in_slot env we body gw =
     (case body of
        None \<Rightarrow> (GwReply 400 False ReadError, [], gw)
      | Some bs \<Rightarrow>
          (case ge_key env bs of
             None \<Rightarrow> (GwReply 400 False KeyRequired, [], gw)
           | Some key \<Rightarrow>
               if key = [] then (GwReply 400 False KeyRequired, [], gw)
               else (let (ok, gw1) = ask_limiter env we key gw
                     in if \<not> ok then (GwReply 429 True (RateLimited key), [], gw1)
                        else routed_write env we key (fold (gw_step env) (we_before we) gw1))))"

definition handle_event :: "gw_env \<Rightarrow> write_env \<Rightarrow> bytes option \<Rightarrow> gateway \<Rightarrow> gw_reply \<times> attempts \<times> gateway" where
  "handle_event env we body gw =
     (if \<not> slot_free gw then (GwReply 503 True GatewayOverloaded, [], gw)
      else (let (r, atts, gw1) = in_slot env we body (gw_step env TakeSlot gw)
            in (r, atts, if r = Died \<or> r = Waiting then gw1 else gw_step env ReleaseSlot gw1)))"

section \<open>The other handlers\<close>

text \<open>
  \<open>answer addr\<close> is the field \<open>Counts\<close> that node \<open>addr\<close> returned, \<open>None\<close> after an
  error; \<open>ring_at addr k\<close> is the ring when \<open>Owner\<close> is asked for key \<open>k\<close> of that answer.
\<close>

fun merge_counts :: "(string \<Rightarrow> ring) \<Rightarrow> string \<Rightarrow> (string, u64) gomap \<Rightarrow> (string, u64) gomap \<Rightarrow> (string, u64) gomap" where
  "merge_counts ring_at addr [] merged = merged"
| "merge_counts ring_at addr ((k, v) # rest) merged =
     merge_counts ring_at addr rest
       (if ring_owner (ring_at k) k = addr then AList.update k (get0 merged k + v) merged else merged)"

fun merge_answers :: "(string \<Rightarrow> string \<Rightarrow> ring) \<Rightarrow> (string \<Rightarrow> (string, u64) gomap option) \<Rightarrow> string list \<Rightarrow>
    (string, u64) gomap \<Rightarrow> (string, u64) gomap" where
  "merge_answers ring_at answer [] merged = merged"
| "merge_answers ring_at answer (addr # addrs) merged =
     merge_answers ring_at answer addrs
       (case answer addr of None \<Rightarrow> merged | Some counts \<Rightarrow> merge_counts (ring_at addr) addr counts merged)"

definition gw_aggregates :: "(string \<Rightarrow> string \<Rightarrow> ring) \<Rightarrow> (string \<Rightarrow> (string, u64) gomap option) \<Rightarrow> gateway \<Rightarrow>
    (string, u64) gomap" where
  "gw_aggregates ring_at answer gw = merge_answers ring_at answer (ring_nodes (gw_ring gw)) []"

text \<open>The nodes, and for a key its owner and its replicas; \<open>None\<close> for a panic.\<close>

definition handle_ring :: "string \<Rightarrow> gateway \<Rightarrow> (string list \<times> (string \<times> string list) option) option" where
  "handle_ring key gw =
     (if key = [] then Some (ring_nodes (gw_ring gw), None)
      else (case route key gw of
              Routed rs \<Rightarrow> Some (ring_nodes (gw_ring gw), Some (ring_owner (gw_ring gw) key, rs))
            | _ \<Rightarrow> None))"

text \<open>One node's health: an error text, or the fields \<open>depth\<close> and \<open>overloaded\<close> it answered.\<close>

datatype 'j health_answer = HealthFailed string | HealthBody 'j 'j

record 'j node_health =
  nh_addr :: string
  nh_breaker :: string
  nh_answer :: "'j health_answer"

definition gw_health :: "(string \<Rightarrow> 'j health_answer) \<Rightarrow> gateway \<Rightarrow> 'j node_health list" where
  "gw_health answer gw =
     List.map (\<lambda>addr. \<lparr>nh_addr = addr,
         nh_breaker = (case map_of (gw_breakers gw) addr of None \<Rightarrow> [] | Some b \<Rightarrow> state_string b),
         nh_answer = answer addr\<rparr>)
       (ring_nodes (gw_ring gw))"

text \<open>The members and the state of each live HTTP address; \<open>None\<close> without a membership.\<close>

definition handle_swim :: "((string \<times> member) list \<Rightarrow> (string \<times> member) list) \<Rightarrow> gateway \<Rightarrow>
    (string list \<times> (string \<Rightarrow> string option)) option" where
  "handle_swim ord gw =
     (case gw_swim gw of
        None \<Rightarrow> None
      | Some m \<Rightarrow> Some (swim_members m, \<lambda>addr.
          if addr \<in> live_http_addrs m
          then Some (if is_suspect ord addr m then ''suspect'' else ''alive'') else None))"

section \<open>The gateway as a machine\<close>

definition gateway_ok :: "gateway \<Rightarrow> bool" where
  "gateway_ok gw \<longleftrightarrow> ring_ok (gw_ring gw) \<and> gw_inflight gw \<le> gw_max_inflight gw \<and>
     (\<forall>n \<in> set (nodes (gw_ring gw)). map_of (gw_breakers gw) n = None \<longrightarrow>
        (\<exists>ev. gw_watching gw = Some ev \<and> ev_type ev = EventJoin \<and> ev_http ev = n)) \<and>
     (\<forall>n b. map_of (gw_breakers gw) n = Some b \<longrightarrow> breaker_ok b)"

text \<open>A store is timely when no higher epoch was stored since its load.\<close>

fun gw_timely :: "gw_event \<Rightarrow> gateway \<Rightarrow> bool" where
  "gw_timely (RawStored e) gw = (gw_epoch gw \<le> e)"
| "gw_timely e gw = True"

lemma breaker_ok_steps [simp]:
  "breaker_ok (breaker_new thr cool)"
  "breaker_ok b \<Longrightarrow> breaker_ok (snd (breaker_allow now b))"
  "breaker_ok b \<Longrightarrow> breaker_ok (breaker_success b)"
  "breaker_ok b \<Longrightarrow> breaker_ok (breaker_failure now b)"
  using br_step_ok [of b "Try now"] br_step_ok [of b Succeed] br_step_ok [of b "Fail now"]
  by (simp_all add: breaker_ok_def breaker_new_def)

lemma set_breaker_fields [simp]:
  "gw_ring (set_breaker addr f gw) = gw_ring gw" "gw_epoch (set_breaker addr f gw) = gw_epoch gw"
  "gw_inflight (set_breaker addr f gw) = gw_inflight gw"
  "gw_max_inflight (set_breaker addr f gw) = gw_max_inflight gw"
  "gw_w (set_breaker addr f gw) = gw_w gw" "gw_rf (set_breaker addr f gw) = gw_rf gw"
  "gw_primary_repl (set_breaker addr f gw) = gw_primary_repl gw"
  "gw_cp (set_breaker addr f gw) = gw_cp gw" "gw_watching (set_breaker addr f gw) = gw_watching gw"
  by (simp_all add: set_breaker_def split: option.split)

lemma learn_epoch_fields [simp]:
  "gw_ring (learn_epoch e gw) = gw_ring gw" "gw_breakers (learn_epoch e gw) = gw_breakers gw"
  "gw_inflight (learn_epoch e gw) = gw_inflight gw"
  "gw_max_inflight (learn_epoch e gw) = gw_max_inflight gw"
  "gw_w (learn_epoch e gw) = gw_w gw" "gw_rf (learn_epoch e gw) = gw_rf gw"
  "gw_primary_repl (learn_epoch e gw) = gw_primary_repl gw"
  "gw_cp (learn_epoch e gw) = gw_cp gw" "gw_watching (learn_epoch e gw) = gw_watching gw"
  "gw_epoch (learn_epoch e gw) = max (gw_epoch gw) e"
  by (simp_all add: learn_epoch_def raw_store_def)

interpretation ge: max_register learn_epoch "\<lambda>e. e" gw_epoch
  by unfold_locales simp

lemma gateway_ok_set_breaker:
  "gateway_ok gw \<Longrightarrow> (\<And>b. breaker_ok b \<Longrightarrow> breaker_ok (f b)) \<Longrightarrow> gateway_ok (set_breaker addr f gw)"
  by (auto simp: gateway_ok_def set_breaker_def map_simps split: option.splits)

lemma gateway_ok_learn_epoch [simp]: "gateway_ok (learn_epoch e gw) = gateway_ok gw"
  by (simp add: gateway_ok_def)

lemma snd_post_begin [simp]:
  "snd (post_begin now addr gw) = set_breaker addr (\<lambda>b. snd (breaker_allow now b)) gw"
  by (simp add: post_begin_def Let_def)

lemma post_begin_ok: "gateway_ok gw \<Longrightarrow> gateway_ok (snd (post_begin now addr gw))"
  by (simp add: gateway_ok_set_breaker)

lemma post_end_ok: "gateway_ok gw \<Longrightarrow> gateway_ok (snd (post_end env now addr ans gw))"
  by (cases ans) (auto simp: post_end_def Let_def gateway_ok_set_breaker split: option.splits)

lemma nodes_ring_add: "set (nodes (ring_add srt n r)) = insert n (set (nodes r))"
  by (auto simp: ring_add_def)

lemma watch_membership_ok:
  assumes "gateway_ok gw" and "is_sort_slice pt_hash (ge_sort env)" and "gw_watching gw = None"
  shows "gateway_ok (watch_membership env ev gw)"
proof (cases "ev_type ev")
  case EventJoin
  with assms show ?thesis
    by (auto simp: watch_membership_def Let_def gateway_ok_def ring_add_ok nodes_ring_add)
next
  case EventDead
  have "set (nodes (ring_remove (ev_http ev) (gw_ring gw))) \<subseteq> set (nodes (gw_ring gw))"
    by (auto simp: ring_remove_def)
  moreover have "ring_ok (ring_remove (ev_http ev) (gw_ring gw))"
    using assms by (simp add: gateway_ok_def ring_remove_ok)
  ultimately show ?thesis
    using assms EventDead by (auto simp: watch_membership_def Let_def gateway_ok_def)
qed

lemma watch_membership_end_ok:
  assumes "gateway_ok gw" and "gw_watching gw = Some ev"
  shows "gateway_ok (snd (watch_membership_end env ev gw))"
  using assms by (auto simp: watch_membership_end_def Let_def gateway_ok_def map_simps split: event_type.split)

lemma gw_step_ok:
  assumes "gateway_ok gw" and "is_sort_slice pt_hash (ge_sort env)"
  shows "gateway_ok (gw_step env e gw)"
proof (cases e)
  case (Watched ev)
  with assms show ?thesis by (simp add: watch_membership_ok)
next
  case WatchEnded
  with assms show ?thesis by (simp add: watch_membership_end_ok split: option.split)
next
  case (PostBegun now addr)
  with assms show ?thesis by (simp add: gateway_ok_set_breaker)
next
  case ReleaseSlot
  with assms show ?thesis by (auto simp: gateway_ok_def)
next
  case (PostEnded now addr ans)
  with assms show ?thesis by (simp add: post_end_ok)
next
  case (EpochPolled r)
  with assms show ?thesis by (simp add: poll_epoch_def split: option.split)
next
  case (Bumped r)
  with assms show ?thesis by (simp add: bump_epoch_def split: option.split)
next
  case (HealthPolled addr r)
  with assms show ?thesis by (simp add: poll_health_def gateway_ok_def split: option.split)
qed (use assms in \<open>simp_all add: gateway_ok_def raw_store_def slot_free_def\<close>)

lemma gw_step_rises: "gw_timely e gw \<Longrightarrow> gw_epoch gw \<le> gw_epoch (gw_step env e gw)"
proof (cases e)
  case (PostEnded now addr ans)
  then show ?thesis by (cases ans) (auto simp: post_end_def Let_def split: option.splits)
next
  case (Watched ev)
  then show ?thesis by (auto simp: watch_membership_def Let_def split: event_type.splits)
next
  case WatchEnded
  then show ?thesis by (auto simp: watch_membership_end_def Let_def split: event_type.splits option.split)
qed (auto simp: poll_epoch_def bump_epoch_def raw_store_def poll_health_def split: option.splits)

interpretation gm: rising_machine "gw_step env"
    "\<lambda>e gw. is_sort_slice pt_hash (ge_sort env) \<and> gw_timely e gw" gateway_ok gw_epoch for env
  by unfold_locales (auto intro: gw_step_ok gw_step_rises)

text \<open>The flags never change.\<close>

definition flags :: "gateway \<Rightarrow> int \<times> int \<times> bool \<times> string \<times> nat" where
  "flags gw = (gw_w gw, gw_rf gw, gw_primary_repl gw, gw_cp gw, gw_max_inflight gw)"

lemma flags_set_breaker [simp]: "flags (set_breaker addr f gw) = flags gw"
  by (simp add: flags_def)

lemma flags_learn_epoch [simp]: "flags (learn_epoch e gw) = flags gw"
  by (simp add: flags_def)

lemma flags_gw_step [simp]: "flags (gw_step env e gw) = flags gw"
proof (cases e)
  case (PostEnded now addr ans)
  then show ?thesis by (cases ans) (auto simp: post_end_def Let_def split: option.splits)
next
  case (Watched ev)
  then show ?thesis by (auto simp: watch_membership_def Let_def flags_def split: event_type.splits)
next
  case WatchEnded
  then show ?thesis
    by (auto simp: watch_membership_end_def Let_def flags_def split: event_type.splits option.split)
qed (auto simp: poll_epoch_def bump_epoch_def raw_store_def poll_health_def flags_def split: option.splits)

lemma flags_eqD:
  "flags gw = flags gw' \<Longrightarrow> gw_primary_repl gw = gw_primary_repl gw'"
  "flags gw = flags gw' \<Longrightarrow> gw_w gw = gw_w gw'"
  "flags gw = flags gw' \<Longrightarrow> need gw = need gw'"
  by (simp_all add: flags_def need_def)

end
