(* ===== verification/GatewayWrites.thy ===== *)
theory GatewayWrites
  imports Gateway
begin

text \<open>
  What the handlers of the gateway keep, and what their answers mean: the invariant over
  background steps and writes, the quorum behind an accepted write, the writes that fail
  although a quorum stored them, and the writes that meet an empty ring.
\<close>

section \<open>What every step keeps, the handler keeps\<close>

text \<open>One goroutine's first and last step, as they appear in a trace.\<close>

lemma run_posts_Begin:
  "run_posts env rs begun flying (Begin i now # steps) gw =
     (if i < length rs \<and> i \<notin> set begun
      then apfst ((@) (case fst (post_begin now (rs ! i) gw) of None \<Rightarrow> []
                 | Some h \<Rightarrow> [Request i (rs ! i) (if i = 0 then ''/events'' else ''/replicate'') h]))
             (run_posts env rs (i # begun) (AList.update i (fst (post_begin now (rs ! i) gw)) flying) steps
               (snd (post_begin now (rs ! i) gw)))
      else run_posts env rs begun flying steps gw)"
  by (simp add: case_prod_beta apfst_def map_prod_def Let_def)

definition posted :: "gw_env \<Rightarrow> gotime \<Rightarrow> string \<Rightarrow> answer \<Rightarrow> string option \<Rightarrow> gateway \<Rightarrow> post_result \<times> gateway" where
  "posted env now addr ans hdr gw = (if hdr = None then (failed_post, gw) else post_end env now addr ans gw)"

definition for_channel :: "nat \<Rightarrow> post_result \<Rightarrow> post_result" where
  "for_channel i r = (if i = 0 then r else r\<lparr>ps_body := None\<rparr>)"

lemma run_posts_End:
  "run_posts env rs begun flying (End i now ans # steps) gw =
     (case map_of flying i of
        None \<Rightarrow> run_posts env rs begun flying steps gw
      | Some hdr \<Rightarrow> apfst ((#) (Result i (for_channel i (fst (posted env now (rs ! i) ans hdr gw)))))
          (run_posts env rs begun (AList.delete i flying) steps (snd (posted env now (rs ! i) ans hdr gw))))"
  by (simp add: case_prod_beta apfst_def map_prod_def Let_def posted_def for_channel_def split: option.split)

lemmas run_posts_steps = run_posts.simps(1,4) run_posts_Begin run_posts_End
declare run_posts.simps(2,3) [simp del]

locale kept =
  fixes env :: gw_env
    and P :: "gateway \<Rightarrow> bool"
  assumes step: "P gw \<Longrightarrow> P (gw_step env e gw)"
begin

lemma events: "P gw \<Longrightarrow> P (fold (gw_step env) es gw)"
  by (induction es arbitrary: gw) (auto intro: step)

lemma begin_step: "P gw \<Longrightarrow> P (snd (post_begin now addr gw))"
  using step [of gw "PostBegun now addr"] by simp

lemma end_step: "P gw \<Longrightarrow> P (snd (posted env now addr ans hdr gw))"
  using step [of gw "PostEnded now addr ans"] by (simp add: posted_def)

lemma posts: "P gw \<Longrightarrow> P (snd (run_posts env rs begun flying steps gw))"
proof (induction steps arbitrary: begun flying gw)
  case (Cons s steps)
  then show ?case
    by (cases s) (auto simp: run_posts_Begin run_posts_End simp del: snd_post_begin
        intro: step begin_step end_step split: option.split)
qed simp

lemma sends: "P gw \<Longrightarrow> P (snd (snd (send env rs steps gw)))"
  using posts [of gw rs "[]" "[]" steps] posts [of gw "[rs ! 0]" "[]" "[]" steps]
  by (auto simp: send_def case_prod_beta Let_def split: list.split option.split)

lemma bumps: "P gw \<Longrightarrow> P (snd (bump_for env we dead gw))"
  using step [OF events [of gw "we_while_bump we"], of "Bumped (we_bump we)"]
    step [of "snd (bump_epoch env (we_bump we) (fold (gw_step env) (we_while_bump we) gw))"
      "FailedOver dead (we_store_at we)"]
  by (simp add: bump_for_def case_prod_beta Let_def)

lemma reroutes: "P gw \<Longrightarrow> P (snd (reroute env we key rs gw))"
  by (simp add: reroute_def case_prod_beta Let_def bumps)

lemma attempts: "P gw \<Longrightarrow> P (snd (snd (attempt_twice env we key rs gw)))"
  using sends [of gw rs "we_first we"]
  by (auto simp: attempt_twice_def case_prod_beta Let_def intro!: sends reroutes
      split: send_outcome.split routing.split)

lemma limits:
  assumes "P gw"
  shows "P (snd (ask_limiter env we key gw))"
proof -
  let ?l = "map_lookup (ge_round env) (we_limit_at we) key (gw_limiter gw)"
  have "P (fold (gw_step env) (we_in_limiter we) (gw\<lparr>gw_limiter := snd ?l\<rparr>))"
    using events [OF step [OF assms, of "LookedUp key (we_limit_at we)"]] by simp
  from step [OF this, of "TokenTaken (fst ?l) (we_take_at we)"] assms show ?thesis
    by (simp add: ask_limiter_def case_prod_beta Let_def)
qed

lemma routed: "P gw \<Longrightarrow> P (snd (snd (routed_write env we key gw)))"
  by (simp add: routed_write_def attempts split: routing.split)

lemma slots: "P gw \<Longrightarrow> P (snd (snd (in_slot env we body gw)))"
  by (simp add: in_slot_def case_prod_beta Let_def routed events limits split: option.split)

lemma handled: "P gw \<Longrightarrow> P (snd (snd (handle_event env we body gw)))"
  using slots [OF step [of gw TakeSlot], of we body]
  by (auto simp: handle_event_def case_prod_beta Let_def simp del: gw_step.simps intro: step)

end

interpretation kf: kept env "\<lambda>gw. flags gw = fl" for env fl
  by unfold_locales simp

interpretation ki: kept env "\<lambda>gw. is_sort_slice pt_hash (ge_sort env) \<longrightarrow> gateway_ok gw" for env
  by unfold_locales (auto intro: gw_step_ok)

text \<open>A run of the gateway: background steps, and writes handled to their end.\<close>

datatype gw_action = Background gw_event | Write write_env "bytes option"

fun gw_act :: "gw_env \<Rightarrow> gw_action \<Rightarrow> gateway \<Rightarrow> gateway" where
  "gw_act env (Background e) gw = gw_step env e gw"
| "gw_act env (Write we body) gw = snd (snd (handle_event env we body gw))"

lemma gw_act_ok:
  "gateway_ok gw \<Longrightarrow> is_sort_slice pt_hash (ge_sort env) \<Longrightarrow> gateway_ok (gw_act env a gw)"
  using ki.step [of env gw] ki.handled [of env gw] by (cases a) (auto simp: gw_step_ok)

interpretation ga: machine "gw_act env" "\<lambda>_ _. is_sort_slice pt_hash (ge_sort env)" gateway_ok for env
  by unfold_locales (rule gw_act_ok)

lemma map_of_fold_update:
  "map_of (fold (\<lambda>n. AList.update n v) ns m) a = (if a \<in> set ns then Some v else map_of m a)"
  by (induction ns arbitrary: m) (auto simp: map_simps)

lemma gw_start_ok:
  assumes "is_sort_slice pt_hash (ge_sort env)" and "gw_start env gc fetched mem = Some gw"
  shows "gateway_ok gw"
proof -
  have "gw_ring gw = ring_new (ge_sort env) (gc_peers gc)" and "gw_inflight gw = 0"
    and "gw_breakers gw =
      fold (\<lambda>n. AList.update n (breaker_new (gc_threshold gc) (gc_cooldown gc))) (gc_peers gc) []"
    using assms by (auto simp: gw_start_def split: if_splits)
  moreover have "set (nodes (ring_new (ge_sort env) (gc_peers gc))) = set (gc_peers gc)"
    by (simp add: ring_new_def Let_def set_dedup_nodes)
  ultimately show ?thesis
    using assms(1) by (auto simp: gateway_ok_def ring_new_ok map_of_fold_update split: if_splits)
qed
section \<open>The results of a send\<close>

text \<open>The node of replica \<open>i\<close> answered with status \<open>st\<close> and body \<open>b\<close>.\<close>

definition answered :: "send_step list \<Rightarrow> nat \<Rightarrow> nat \<Rightarrow> bytes \<Rightarrow> bool" where
  "answered steps i st b \<longleftrightarrow> (\<exists>now. End i now (Answer st b) \<in> set steps)"

definition ack_status :: "nat \<Rightarrow> bool" where
  "ack_status st \<longleftrightarrow> st = 200 \<or> st = 201 \<or> st = 202 \<or> st = 204"

lemma is_ack_status: "is_ack r \<longleftrightarrow> \<not> ps_err r \<and> ack_status (ps_status r)"
  by (auto simp: is_ack_def ack_status_def)

text \<open>A result without an error is the answer of the replica.\<close>

definition result_ok :: "send_step list \<Rightarrow> nat \<Rightarrow> post_result \<Rightarrow> bool" where
  "result_ok steps i r \<longleftrightarrow>
     (if ps_err r then ps_status r = 0 \<and> ps_body r = None
      else \<exists>b. answered steps i (ps_status r) b \<and> ps_body r = (if i = 0 then Some b else None))"

lemma result_ok_Cons: "result_ok steps i r \<Longrightarrow> result_ok (s # steps) i r"
  by (auto simp: result_ok_def answered_def split: if_splits)

lemma result_ok_posted:
  "result_ok (End i now ans # steps) i (for_channel i (fst (posted env now addr ans hdr gw)))"
proof (cases "hdr = None")
  case False
  then show ?thesis
    by (cases ans) (auto simp: result_ok_def answered_def for_channel_def posted_def post_end_def
        failed_post_def Let_def)
qed (simp add: result_ok_def for_channel_def posted_def failed_post_def)

lemma results_append [simp]: "results (xs @ ys) = results xs @ results ys"
  by (induction xs rule: results.induct) auto

text \<open>
  Each goroutine reports at most once, what it reports is an answer to it, and its number is
  that of a replica.
\<close>

lemma run_posts_results:
  assumes "map_ok flying" and "set (keys flying) \<subseteq> set begun" and "\<forall>i \<in> set begun. i < length rs"
  shows "distinct (List.map fst (results (fst (run_posts env rs begun flying steps gw)))) \<and>
     (\<forall>i \<in> fst ` set (results (fst (run_posts env rs begun flying steps gw))).
        i < length rs \<and> (i \<in> set begun \<longrightarrow> i \<in> set (keys flying))) \<and>
     (\<forall>(i, r) \<in> set (results (fst (run_posts env rs begun flying steps gw))). result_ok steps i r)"
  using assms
proof (induction steps arbitrary: begun flying gw)
  case (Cons s steps)
  show ?case
  proof (cases s)
    case (Begin i now)
    show ?thesis
    proof (cases "i < length rs \<and> i \<notin> set begun")
      case True
      let ?hdr = "fst (post_begin now (rs ! i) gw)" and ?gw = "snd (post_begin now (rs ! i) gw)"
      have "map_ok (AList.update i ?hdr flying)" using Cons.prems by simp
      moreover have "set (keys (AList.update i ?hdr flying)) \<subseteq> set (i # begun)"
        using Cons.prems by (auto simp: dom_update)
      ultimately have IH: "distinct (List.map fst (results (fst (run_posts env rs (i # begun)
            (AList.update i ?hdr flying) steps ?gw))))"
        "\<forall>j \<in> fst ` set (results (fst (run_posts env rs (i # begun) (AList.update i ?hdr flying) steps ?gw))).
          j < length rs \<and> (j \<in> set (i # begun) \<longrightarrow> j \<in> set (keys (AList.update i ?hdr flying)))"
        "\<forall>(j, r) \<in> set (results (fst (run_posts env rs (i # begun) (AList.update i ?hdr flying) steps ?gw))).
          result_ok steps j r"
        using Cons.IH [of "AList.update i ?hdr flying" "i # begun" ?gw] Cons.prems(3) True
        by (simp_all del: snd_post_begin)
      have tr: "results (fst (run_posts env rs begun flying (s # steps) gw)) =
          results (fst (run_posts env rs (i # begun) (AList.update i ?hdr flying) steps ?gw))"
        using Begin True by (simp add: run_posts_Begin del: snd_post_begin split: option.split)
      show ?thesis
        unfolding tr using IH True Cons.prems(2)
        by (auto simp del: snd_post_begin simp: dom_update intro: result_ok_Cons)
    next
      case False
      with Begin show ?thesis
        using Cons.IH [OF Cons.prems, of gw] by (auto simp: run_posts_Begin intro: result_ok_Cons)
    qed
  next
    case (End i now ans)
    show ?thesis
    proof (cases "map_of flying i")
      case None
      with End show ?thesis
        using Cons.IH [OF Cons.prems, of gw] by (auto simp: run_posts_End intro: result_ok_Cons)
    next
      case (Some hdr)
      let ?gw = "snd (posted env now (rs ! i) ans hdr gw)"
      have "set (keys (AList.delete i flying)) \<subseteq> set begun"
        using Cons.prems(2) by (auto simp: delete_keys)
      then have IH: "distinct (List.map fst (results (fst (run_posts env rs begun (AList.delete i flying) steps ?gw))))"
        "\<forall>j \<in> fst ` set (results (fst (run_posts env rs begun (AList.delete i flying) steps ?gw))).
          j < length rs \<and> (j \<in> set begun \<longrightarrow> j \<in> set (keys (AList.delete i flying)))"
        "\<forall>(j, r) \<in> set (results (fst (run_posts env rs begun (AList.delete i flying) steps ?gw))).
          result_ok steps j r"
        using Cons.IH [of "AList.delete i flying" begun ?gw] Cons.prems by simp_all
      have i: "i \<in> set (keys flying)" using Some by (metis map_of_eq_None_iff option.distinct(1) set_map)
      have tr: "results (fst (run_posts env rs begun flying (s # steps) gw)) =
          (i, for_channel i (fst (posted env now (rs ! i) ans hdr gw))) #
          results (fst (run_posts env rs begun (AList.delete i flying) steps ?gw))"
        using End Some by (simp add: run_posts_End)
      have del: "j \<in> set (keys (AList.delete i flying)) \<longleftrightarrow> j \<in> set (keys flying) \<and> j \<noteq> i" for j
        by (auto simp: delete_keys)
      have "i \<notin> fst ` set (results (fst (run_posts env rs begun (AList.delete i flying) steps ?gw)))"
        using IH(2) i Cons.prems(2) del by blast
      then show ?thesis
        unfolding tr using IH i Cons.prems(2,3) End result_ok_posted [of i now ans steps env "rs ! i" hdr gw]
        by (auto simp: delete_keys intro: result_ok_Cons)
    qed
  next
    case (Other e)
    with Cons.IH [OF Cons.prems, of "gw_step env e gw"] show ?thesis by (auto intro: result_ok_Cons)
  qed
qed simp

lemma collect_result:
  "collect w n p a res = Some (pr, total_acks) \<Longrightarrow>
     total_acks \<le> a + int (length (filter is_ack res)) \<and> (pr = p \<or> pr \<in> set res \<and> ps_body pr \<noteq> None)"
proof (induction w n p a res rule: collect.induct)
  case (3 w n primary acks r res)
  then show ?case by (simp add: Let_def split: if_splits) force+
qed auto

text \<open>The nodes that acknowledged.\<close>

definition ackers :: "string list \<Rightarrow> send_step list \<Rightarrow> string set" where
  "ackers rs steps = {rs ! i | i st b. i < length rs \<and> answered steps i st b \<and> ack_status st}"

lemma card_ackers:
  assumes "distinct rs" and "distinct (List.map fst res)" and "\<forall>(i, r) \<in> set res. i < length rs \<and> result_ok steps i r"
  shows "length (filter is_ack (List.map snd res)) \<le> card (ackers rs steps)"
proof -
  let ?as = "filter (\<lambda>(i, r). is_ack r) res"
  have "length (filter is_ack (List.map snd res)) = length ?as"
    by (simp add: filter_map comp_def case_prod_beta')
  also have "\<dots> = card (fst ` set ?as)"
    using assms(2) distinct_card [of "List.map fst (filter (\<lambda>(i, r). is_ack r) res)"] by (simp add: distinct_map_filter)
  also have "\<dots> = card ((!) rs ` fst ` set ?as)"
    using assms(3) by (intro card_image [symmetric] inj_on_nth [OF assms(1)]) force
  also have "\<dots> \<le> card (ackers rs steps)"
  proof (rule card_mono)
    show "finite (ackers rs steps)"
      by (rule finite_subset [of _ "set rs"]) (auto simp: ackers_def)
    show "(!) rs ` fst ` set ?as \<subseteq> ackers rs steps"
      using assms(3) by (fastforce simp: ackers_def result_ok_def is_ack_status split: if_splits)
  qed
  finally show ?thesis .
qed

section \<open>Routing\<close>

lemma route_ok: "gateway_ok gw \<Longrightarrow> route key gw = Routed (take (nat (gw_rf gw)) (preference (gw_ring gw) key))"
  by (simp add: route_def gateway_ok_def replicas_preference)

lemma first_free_less: "first_free gw k rs = Some i \<Longrightarrow> k \<le> i \<and> i < k + length rs"
  by (induction gw k rs rule: first_free.induct) (auto split: if_splits)

lemma mset_swap_overloaded [simp]: "mset (swap_overloaded gw rs) = mset rs"
  using first_free_less [of gw 0 rs]
  by (auto simp: swap_overloaded_def intro!: mset_swap split: option.split)

lemma distinct_swap_overloaded [simp]: "distinct (swap_overloaded gw rs) = distinct rs"
  by (metis mset_eq_imp_distinct_iff mset_swap_overloaded)

section \<open>What an answer means\<close>

text \<open>The write was answered by the first replica and acknowledged by the quorum.\<close>

definition quorum_answer :: "gateway \<Rightarrow> string list \<Rightarrow> send_step list \<Rightarrow> nat \<Rightarrow> bytes option \<Rightarrow> bool" where
  "quorum_answer gw rs steps st b \<longleftrightarrow> distinct rs \<and> need gw \<le> int (card (ackers rs steps)) \<and>
     (\<exists>bs. b = Some bs \<and> answered steps 0 st bs)"

lemma send_results:
  assumes "send env rs steps gw = (Sent r acks, tr, gw')" and "distinct rs"
  shows "acks \<le> int (card (ackers rs steps)) \<and>
    (ps_status r \<noteq> 0 \<longrightarrow> (\<exists>bs. ps_body r = Some bs \<and> answered steps 0 (ps_status r) bs))"
proof (cases "length rs = 1 \<or> gw_primary_repl gw")
  case True
  let ?tr = "fst (run_posts env [rs ! 0] [] [] steps gw)"
  have ok: "distinct (List.map fst (results ?tr))" "\<forall>i \<in> fst ` set (results ?tr). i < length [rs ! 0]"
    "\<forall>(i, r) \<in> set (results ?tr). result_ok steps i r"
    using run_posts_results [of "[]" "[]" "[rs ! 0]" env steps gw] by auto
  from assms True obtain i rest where res: "rs \<noteq> []" "results ?tr = (i, r) # rest"
    "acks = (if is_ack r then 1 else 0)"
    by (auto simp: send_def case_prod_beta Let_def split: if_splits list.splits)
  with ok have r: "i = 0" "result_ok steps 0 r" by auto
  have "rs ! 0 \<in> ackers rs steps" if "is_ack r"
    using r(2) that res(1) by (force simp: ackers_def result_ok_def is_ack_status)
  moreover have "finite (ackers rs steps)"
    by (rule finite_subset [of _ "set rs"]) (auto simp: ackers_def)
  ultimately have "is_ack r \<Longrightarrow> 1 \<le> card (ackers rs steps)"
    by (metis One_nat_def Suc_leI card_gt_0_iff empty_iff)
  with res(3) r(2) show ?thesis by (auto simp: result_ok_def split: if_splits)
next
  case False
  let ?tr = "fst (run_posts env rs [] [] steps gw)"
  have ok: "distinct (List.map fst (results ?tr))" "\<forall>(i, r) \<in> set (results ?tr). i < length rs \<and> result_ok steps i r"
    using run_posts_results [of "[]" "[]" rs env steps gw] by auto
  from assms False have "collect (gw_w gw) (length rs) no_result 0 (List.map snd (results ?tr)) = Some (r, acks)"
    by (auto simp: send_def case_prod_beta Let_def split: if_splits option.splits)
  from collect_result [OF this] card_ackers [OF assms(2) ok]
  have le: "acks \<le> int (card (ackers rs steps))"
    and r: "r = no_result \<or> r \<in> snd ` set (results ?tr) \<and> ps_body r \<noteq> None"
    by auto
  from r have "ps_status r \<noteq> 0 \<longrightarrow> (\<exists>bs. ps_body r = Some bs \<and> answered steps 0 (ps_status r) bs)"
  proof
    assume "r = no_result" then show ?thesis by (simp add: no_result_def)
  next
    assume "r \<in> snd ` set (results ?tr) \<and> ps_body r \<noteq> None"
    then obtain i where "(i, r) \<in> set (results ?tr)" and body: "ps_body r \<noteq> None" by auto
    with ok(2) have "result_ok steps i r" by auto
    with body show ?thesis by (auto simp: result_ok_def split: if_splits)
  qed
  with le show ?thesis by blast
qed

lemma respond_node_body:
  assumes "respond gw r acks = GwReply st ra (NodeBody b)"
  shows "need gw \<le> acks \<and> ps_status r \<noteq> 0 \<and> st = ps_status r \<and> b = ps_body r"
  using assms by (auto simp: respond_def split: if_splits)

lemma answer_means_quorum:
  assumes "send env rs steps gw = (Sent r acks, tr, gw1)" and "distinct rs"
    and "respond gw1 r acks = GwReply st ra (NodeBody b)"
  shows "quorum_answer gw rs steps st b"
  using send_results [OF assms(1,2)] respond_node_body [OF assms(3)]
    kf.sends [of gw "flags gw" env rs steps] assms
  by (auto simp: quorum_answer_def dest: flags_eqD(3))

lemma send_keeps:
  assumes "send env rs steps gw = (out, tr, gw1)"
  shows "flags gw1 = flags gw"
    and "gateway_ok gw \<Longrightarrow> is_sort_slice pt_hash (ge_sort env) \<Longrightarrow> gateway_ok gw1"
  using kf.sends [of gw "flags gw" env rs steps] ki.sends [of env gw rs steps] assms by auto

lemma reroute_keeps:
  assumes "reroute env we key rs gw = (rt, gw1)"
  shows "flags gw1 = flags gw"
    and "gateway_ok gw \<Longrightarrow> is_sort_slice pt_hash (ge_sort env) \<Longrightarrow> gateway_ok gw1"
  using kf.reroutes [of gw "flags gw" env we key rs] ki.reroutes [of env gw we key rs] assms by auto

lemma reroute_distinct:
  assumes "reroute env we key rs gw = (Routed rs', gw1)" and "gateway_ok gw"
    and "is_sort_slice pt_hash (ge_sort env)"
  shows "distinct rs'"
proof -
  have "gateway_ok gw1" by (rule reroute_keeps(2) [OF assms])
  with assms(1) show ?thesis
    by (auto simp: reroute_def case_prod_beta Let_def route_ok distinct_take split: if_splits option.splits)
qed

text \<open>The replicas and the steps of the last attempt of a write.\<close>

definition last_steps :: "write_env \<Rightarrow> attempts \<Rightarrow> send_step list" where
  "last_steps we atts = (if length atts = 1 then we_first we else we_second we)"

lemma attempt_twice_quorum:
  assumes "attempt_twice env we key rs gw = (GwReply st ra (NodeBody b), atts, gw')"
    and "gateway_ok gw" and "is_sort_slice pt_hash (ge_sort env)" and "distinct rs"
  shows "atts \<noteq> [] \<and> quorum_answer gw (fst (last atts)) (last_steps we atts) st b"
proof -
  obtain out tr gw1 where s1: "send env rs (we_first we) gw = (out, tr, gw1)" by (rule prod_cases3)
  with assms(1) obtain r acks where out: "out = Sent r acks"
    by (auto simp: attempt_twice_def finish_attempt_def split: send_outcome.splits)
  show ?thesis
  proof (cases "wants_retry gw1 r acks")
    case False
    with assms(1) s1 out have "respond gw1 r acks = GwReply st ra (NodeBody b)" and "atts = [(rs, tr)]"
      by (auto simp: attempt_twice_def)
    with answer_means_quorum s1 out assms(4) show ?thesis by (simp add: last_steps_def)
  next
    case True
    obtain rt gw2 where rr: "reroute env we key rs gw1 = (rt, gw2)" by (metis prod.exhaust)
    with assms(1) s1 out True obtain rs' where rt: "rt = Routed rs'"
      by (auto simp: attempt_twice_def split: routing.splits)
    obtain out' tr' gw3 where s2: "send env rs' (we_second we) gw2 = (out', tr', gw3)" by (rule prod_cases3)
    with assms(1) s1 out True rr rt have fin: "finish_attempt gw3 out' = GwReply st ra (NodeBody b)"
      and atts: "atts = [(rs, tr), (rs', tr')]"
      by (auto simp: attempt_twice_def)
    from fin obtain r' acks' where out': "out' = Sent r' acks'" and
      "respond gw3 r' acks' = GwReply st ra (NodeBody b)"
      by (auto simp: finish_attempt_def split: send_outcome.splits)
    moreover have ok1: "gateway_ok gw1" by (rule send_keeps(2) [OF s1 assms(2,3)])
    moreover have "distinct rs'" by (rule reroute_distinct [OF rr [unfolded rt] ok1 assms(3)])
    ultimately have "quorum_answer gw2 rs' (we_second we) st b"
      using answer_means_quorum s2 out' by blast
    moreover have "need gw2 = need gw"
      using send_keeps(1) [OF s1] reroute_keeps(1) [OF rr] by (metis flags_eqD(3))
    ultimately show ?thesis by (simp add: atts last_steps_def quorum_answer_def)
  qed
qed

section \<open>Properties of the write path\<close>

text \<open>A gateway that was started and has run since.\<close>

definition gw_reachable :: "gw_env \<Rightarrow> gw_config \<Rightarrow> gw_action list \<Rightarrow> gateway \<Rightarrow> bool" where
  "gw_reachable env gc acts gw \<longleftrightarrow> is_sort_slice pt_hash (ge_sort env) \<and>
     (\<exists>fetched mem gw0. gw_start env gc fetched mem = Some gw0 \<and> gw = fold (gw_act env) acts gw0)"

lemma gw_run_ok:
  "gateway_ok gw \<Longrightarrow> is_sort_slice pt_hash (ge_sort env) \<Longrightarrow> gateway_ok (fold (gw_act env) acts gw)"
  by (induction acts arbitrary: gw) (auto intro: gw_act_ok)

lemma gw_reachable_ok: "gw_reachable env gc acts gw \<Longrightarrow> gateway_ok gw"
  by (auto simp: gw_reachable_def intro!: gw_run_ok intro: gw_start_ok)

text \<open>
  C30: Whatever ran before, every node of the ring has a circuit breaker, except the node of the
  join that the watcher is half done with: the ring has it already, its breaker comes next.
  Every breaker's failure count is within its threshold, the ring is well-formed, and no
  more writes hold a place of the semaphore than it has.
\<close>

theorem ring_nodes_have_breakers:
  assumes "gw_reachable env gc acts gw"
  shows "ring_ok (gw_ring gw) \<and> gw_inflight gw \<le> gw_max_inflight gw \<and>
    (\<forall>n \<in> set (ring_nodes (gw_ring gw)). (\<exists>b. map_of (gw_breakers gw) n = Some b \<and> breaker_ok b) \<or>
       (\<exists>ev. gw_watching gw = Some ev \<and> ev_type ev = EventJoin \<and> ev_http ev = n)) \<and>
    (\<forall>n b. map_of (gw_breakers gw) n = Some b \<longrightarrow> breaker_ok b)"
  using gw_reachable_ok [OF assms] by (fastforce simp: gateway_ok_def ring_nodes_def)

lemma routed_write_quorum:
  assumes "routed_write env we key gw = (GwReply st ra (NodeBody b), atts, gw')"
    and "gateway_ok gw" and "is_sort_slice pt_hash (ge_sort env)"
  shows "atts \<noteq> [] \<and> quorum_answer gw (fst (last atts)) (last_steps we atts) st b"
  using assms attempt_twice_quorum [OF _ assms(2,3)]
  by (simp add: routed_write_def route_ok)

lemma in_slot_routed:
  assumes "in_slot env we body gw = (GwReply st ra (NodeBody b), atts, gw')"
  obtains key where "routed_write env we key (fold (gw_step env) (we_before we)
      (snd (ask_limiter env we key gw))) = (GwReply st ra (NodeBody b), atts, gw')"
  using assms by (auto simp: in_slot_def case_prod_beta Let_def split: option.splits if_splits)

lemma handled_quorum:
  assumes "gateway_ok gw" and srt: "is_sort_slice pt_hash (ge_sort env)"
    and "handle_event env we body gw = (GwReply st ra (NodeBody b), atts, gw')"
  shows "atts \<noteq> [] \<and> quorum_answer gw (fst (last atts)) (last_steps we atts) st b"
proof -
  let ?gw0 = "gw_step env TakeSlot gw"
  from assms(3) have "fst (in_slot env we body ?gw0) = GwReply st ra (NodeBody b)"
    and "fst (snd (in_slot env we body ?gw0)) = atts"
    by (auto simp: handle_event_def case_prod_beta Let_def simp del: gw_step.simps split: if_splits)
  then obtain gw1 where "in_slot env we body ?gw0 = (GwReply st ra (NodeBody b), atts, gw1)"
    by (metis prod.collapse)
  then obtain key where w: "routed_write env we key (fold (gw_step env) (we_before we)
      (snd (ask_limiter env we key ?gw0))) = (GwReply st ra (NodeBody b), atts, gw1)"
    by (rule in_slot_routed)
  have "gateway_ok (fold (gw_step env) (we_before we) (snd (ask_limiter env we key ?gw0)))"
    using ki.events [OF ki.limits [OF ki.step]] assms(1) srt by blast
  moreover have "flags (fold (gw_step env) (we_before we) (snd (ask_limiter env we key ?gw0))) = flags gw"
    by (intro kf.events kf.limits kf.step refl)
  ultimately show ?thesis
    using routed_write_quorum [OF w _ srt] by (auto simp: quorum_answer_def dest: flags_eqD(3))
qed

text \<open>
  C2: When the client is given a node's answer, that answer is the one of the first replica of
  the last attempt, and at least \<open>w\<close> different replicas of that attempt acknowledged the
  write (one, when the primary replicates by itself).
\<close>

theorem accepted_by_quorum:
  assumes "gw_reachable env gc acts gw"
    and "handle_event env we body gw = (GwReply st ra (NodeBody b), atts, gw')"
  shows "atts \<noteq> [] \<and> quorum_answer gw (fst (last atts)) (last_steps we atts) st b"
  using handled_quorum [OF gw_reachable_ok [OF assms(1)] _ assms(2)] assms(1) by (simp add: gw_reachable_def)

text \<open>
  C37: Once the ring is empty, a write that gets past the limiter kills the gateway: the
  goroutine that posts to the primary indexes an empty slice (main.go:385). With
  primary replication the handler itself panics (main.go:376) and the client's
  connection is closed.
\<close>

theorem empty_ring_write_kills_gateway:
  assumes "slot_free gw" and "ge_key env bs = Some key" and "key \<noteq> []"
    and "ask_limiter env we key (gw_step env TakeSlot gw) = (True, gw1)"
    and "ring_nodes (gw_ring (fold (gw_step env) (we_before we) gw1)) = []"
  shows "fst (handle_event env we (Some bs) gw) = (if gw_primary_repl gw then Closed else Died)"
proof -
  let ?gw = "fold (gw_step env) (we_before we) gw1"
  have "flags (gw_step env TakeSlot gw) = flags gw" by (rule flags_gw_step)
  from kf.limits [OF this, of env we key] assms(4) have "flags gw1 = flags gw"
    by (simp del: gw_step.simps)
  then have "flags ?gw = flags gw" by (rule kf.events)
  then have prim: "gw_primary_repl ?gw = gw_primary_repl gw" by (rule flags_eqD(1))
  have "route key ?gw = Routed []"
    using assms(5) by (simp add: route_def ring_replicas_def ring_nodes_def)
  then have "fst (routed_write env we key ?gw) = (if gw_primary_repl gw then Closed else Died)"
    by (simp add: routed_write_def swap_overloaded_def attempt_twice_def send_def finish_attempt_def prim
        del: gw_step.simps)
  then show ?thesis
    using assms(1-4) by (simp add: handle_event_def in_slot_def case_prod_beta Let_def del: gw_step.simps)
qed

lemma collect_no_body:
  "\<forall>r \<in> set res. ps_body r = None \<Longrightarrow> ps_body p = None \<Longrightarrow> length res = n \<Longrightarrow>
     collect w n p a res = Some (p, a + int (length (filter is_ack res)))"
  by (induction w n p a res rule: collect.induct) (auto simp: Let_def)

text \<open>
  C36: Without primary replication and with a quorum smaller than the number of replicas, the
  acknowledgements of the other replicas are not enough: when the request to the first
  replica fails and all the others acknowledge, the client is told 503 with an empty body and
  no \<open>Retry-After\<close>, and the write is not sent again, although a quorum stored it.
\<close>

theorem quorum_without_first_replica_refused:
  assumes "gateway_ok gw" and "\<not> gw_primary_repl gw" and "1 < length rs"
    and "run_posts env rs [] [] (we_first we) gw = (tr, gw1)"
    and "length (results tr) = length rs"
    and "\<forall>(i, r) \<in> set (results tr). if i = 0 then ps_err r else is_ack r"
    and "gw_w gw < int (length rs)"
  shows "attempt_twice env we key rs gw = (GwReply 503 False NoBody, [(rs, tr)], gw1)"
proof -
  have ok: "distinct (List.map fst (results tr))"
    "\<forall>(i, r) \<in> set (results tr). i < length rs \<and> result_ok (we_first we) i r"
    using run_posts_results [of "[]" "[]" rs env "we_first we" gw] assms(4) by auto
  have "set (List.map fst (results tr)) = {..<length rs}"
  proof (rule card_subset_eq)
    show "card (set (List.map fst (results tr))) = card {..<length rs}"
      using distinct_card [OF ok(1)] assms(5) by simp
  qed (use ok(2) in auto)
  then have "0 \<in> set (List.map fst (results tr))" using assms(3) by (metis lessThan_iff less_trans zero_less_one)
  have none: "\<forall>r \<in> set (List.map snd (results tr)). ps_body r = None"
    using ok(2) assms(6) by (fastforce simp: result_ok_def split: if_splits)
  have "filter (\<lambda>x. \<not> is_ack (snd x)) (results tr) = filter (\<lambda>x. fst x = 0) (results tr)"
    using assms(6) by (intro filter_cong) (auto simp: is_ack_def split: if_splits)
  moreover have "length (filter (\<lambda>x. fst x = 0) (results tr)) = 1"
    using distinct_length_filter [OF ok(1), of "\<lambda>i. i = 0"] \<open>0 \<in> set (List.map fst (results tr))\<close>
    by (simp add: filter_map comp_def)
  ultimately have "length (filter is_ack (List.map snd (results tr))) = length rs - 1"
    using sum_length_filter_compl [of "\<lambda>x. is_ack (snd x)" "results tr"] assms(5)
    by (simp add: filter_map comp_def)
  moreover have "flags gw1 = flags gw"
    using kf.posts [of gw "flags gw" env rs "[]" "[]" "we_first we"] assms(4) by simp
  then have "gw_w gw1 = gw_w gw" and "gw_primary_repl gw1 = gw_primary_repl gw"
    by (simp_all add: flags_def)
  moreover have "rs \<noteq> []" using assms(3) by auto
  ultimately show ?thesis
    using assms(2,3,4,5,7)
    by (simp add: attempt_twice_def send_def collect_no_body none no_result_def wants_retry_def respond_def
        need_def)
qed

section \<open>Witnesses\<close>

definition epoch_g :: "bytes \<Rightarrow> u64 option" where
  "epoch_g body = (if body = ''7'' then Some 7 else if body = ''8'' then Some 8 else Some 9)"

abbreviation env_g :: gw_env where
  "env_g \<equiv> \<lparr>ge_sort = stable, ge_round = exact, ge_resolve = Some, ge_threshold = 5,
     ge_cooldown = 10 * second, ge_key = (\<lambda>_. Some ''k''), ge_seen = (\<lambda>_. None),
     ge_epoch = epoch_g\<rparr>"

abbreviation config_g :: "string list \<Rightarrow> int \<Rightarrow> int \<Rightarrow> bool \<Rightarrow> gw_config" where
  "config_g peers rf w prim \<equiv> \<lparr>gc_peers = peers, gc_rf = rf, gc_w = w, gc_rate = 5, gc_burst = 10,
     gc_threshold = 5, gc_cooldown = 10 * second, gc_controlplane = ''cp'', gc_max_inflight = 10,
     gc_no_limit = True, gc_primary_repl = prim\<rparr>"

abbreviation breakers_g :: "string list \<Rightarrow> (string, breaker) gomap" where
  "breakers_g peers \<equiv> List.map (\<lambda>n. (n, breaker_new 5 (10 * second))) peers"

definition gateway_g :: "string list \<Rightarrow> int \<Rightarrow> int \<Rightarrow> bool \<Rightarrow> swim option \<Rightarrow> gateway" where
  "gateway_g peers rf w prim mem = \<lparr>gw_ring = ring_new stable peers, gw_rf = rf, gw_w = w,
     gw_limiter = new_map 5 10, gw_no_limit = True, gw_primary_repl = prim,
     gw_breakers = breakers_g peers, gw_epoch = 7, gw_overloaded = [], gw_inflight = 0,
     gw_max_inflight = 10, gw_swim = mem, gw_cp = ''cp'', gw_failed_over = [], gw_watching = None\<rparr>"

lemma stable_sorts_points: "is_sort_slice pt_hash stable"
  by (rule is_sort_slice_sort_key)

lemma start_g:
  assumes "peers = [''a''] \<or> peers = [''a'', ''b'']" and "w \<le> rf" and "rf \<le> int (length peers)"
  shows "gw_start env_g (config_g peers rf w prim) (Answer 200 ''7'') mem = Some (gateway_g peers rf w prim mem)"
  using assms by (auto simp: gw_start_def fetch_epoch_def epoch_g_def gateway_g_def)

lemma reachable_g:
  assumes "peers = [''a''] \<or> peers = [''a'', ''b'']" and "w \<le> rf" and "rf \<le> int (length peers)"
  shows "gw_reachable env_g (config_g peers rf w prim) acts (fold (gw_act env_g) acts (gateway_g peers rf w prim mem))"
  unfolding gw_reachable_def using start_g [OF assms, of prim mem] stable_sorts_points
  by (intro conjI exI [of _ "Answer 200 ''7''"] exI [of _ mem] exI [of _ "gateway_g peers rf w prim mem"]) simp_all

lemma gateway_g_ok: "gateway_ok (gateway_g [''a'', ''b''] 2 w prim mem)"
  using gw_start_ok [OF _ start_g [of "[''a'', ''b'']" "min w 2" 2 prim mem]]
    stable_sorts_points
  by (simp add: gateway_ok_def gateway_g_def)

lemma two_elements:
  assumes "set xs = {a, b}" and "distinct xs" and "length xs = 2"
  shows "xs = [a, b] \<or> xs = [b, a]"
proof -
  from assms(3) obtain x y where "xs = [x, y]" by (auto simp: numeral_2_eq_2 length_Suc_conv)
  with assms(1,2) show ?thesis by (auto simp: doubleton_eq_iff)
qed

text \<open>Two nodes: the replicas of a key are both, in one of the two orders.\<close>

lemma route_g:
  assumes "gw_ring gw = ring_new stable [''a'', ''b'']" and "gw_rf gw = 2"
  shows "route key gw = Routed [''a'', ''b''] \<or> route key gw = Routed [''b'', ''a'']"
proof -
  let ?p = "preference (ring_new stable [''a'', ''b'']) key"
  have ok: "ring_ok (ring_new stable [''a'', ''b''])" by (rule ring_new_ok [OF stable_sorts_points])
  have n: "nodes (ring_new stable [''a'', ''b'']) = [''a'', ''b'']"
    by (simp add: ring_new_def Let_def sort_key_simps insort_key.simps)
  have p: "?p = [''a'', ''b''] \<or> ?p = [''b'', ''a'']"
    using set_preference [OF ok, of key] length_preference [OF ok, of key]
    by (intro two_elements) (simp_all add: n)
  have "route key gw = Routed (take 2 ?p)"
    unfolding route_def assms by (simp add: replicas_preference [OF ok])
  with p show ?thesis by auto
qed

abbreviation join_c :: event where
  "join_c \<equiv> \<lparr>ev_type = EventJoin, ev_addr = ''c:1'', ev_http = ''c''\<rparr>"

lemma ring_nodes_have_breakers_witness:
  "\<exists>b. map_of (gw_breakers (fold (gw_act env_g) [Background (Watched join_c), Background WatchEnded]
      (gateway_g [''a'', ''b''] 2 1 False None))) ''c'' = Some b \<and> breaker_ok b"
proof -
  let ?acts = "[Background (Watched join_c), Background WatchEnded]"
  let ?gw = "fold (gw_act env_g) ?acts (gateway_g [''a'', ''b''] 2 1 False None)"
  have "''c'' \<in> set (ring_nodes (gw_ring ?gw))" and "gw_watching ?gw = None"
    by (simp_all add: watch_membership_def watch_membership_end_def Let_def ring_nodes_def nodes_ring_add gateway_g_def)
  with ring_nodes_have_breakers [OF reachable_g [of "[''a'', ''b'']" 1 2 False ?acts None]]
  show ?thesis by simp
qed

abbreviation steps_g :: "send_step list" where
  "steps_g \<equiv> [Begin 0 1, Begin 1 1, End 1 2 (Answer 204 []), End 0 3 (Answer 201 ''ok'')]"

abbreviation write_g :: "send_step list \<Rightarrow> write_env" where
  "write_g steps \<equiv> \<lparr>we_limit_at = 0, we_in_limiter = [], we_take_at = 0, we_before = [], we_first = steps, we_order = (\<lambda>xs. xs), we_check_at = 0,
     we_while_bump = [], we_bump = Answer 200 ''9'', we_store_at = 0, we_second = [Begin 0 5, End 0 6 (Answer 201 ''ok'')]\<rparr>"

lemma handle_event_g:
  "\<exists>rs tr. handle_event env_g (write_g steps_g) (Some ''body'') (gateway_g [''a'', ''b''] 2 2 False None) =
     (GwReply 201 False (NodeBody (Some ''ok'')), [(rs, tr)], gateway_g [''a'', ''b''] 2 2 False None)"
proof -
  let ?g = "(gateway_g [''a'', ''b''] 2 2 False None)\<lparr>gw_inflight := 1\<rparr>"
  have "route ''k'' ?g = Routed [''a'', ''b''] \<or> route ''k'' ?g = Routed [''b'', ''a'']"
    by (rule route_g) (simp_all add: gateway_g_def)
  then show ?thesis
    by (elim disjE)
      (simp_all add: handle_event_def slot_free_def in_slot_def ask_limiter_def routed_write_def
        swap_overloaded_def is_overloaded_def attempt_twice_def send_def run_posts_Begin run_posts_End
        posted_def post_begin_def set_breaker_def post_end_def breaker_allow_def breaker_new_def
        breaker_success_def for_channel_def Let_def is_ack_def no_result_def wants_retry_def need_def
        respond_def gateway_g_def numeral_2_eq_2)
qed


lemma accepted_by_quorum_witness:
  "\<exists>rs. quorum_answer (gateway_g [''a'', ''b''] 2 2 False None) rs steps_g 201 (Some ''ok'')"
proof -
  obtain rs tr where h: "handle_event env_g (write_g steps_g) (Some ''body'') (gateway_g [''a'', ''b''] 2 2 False None) =
     (GwReply 201 False (NodeBody (Some ''ok'')), [(rs, tr)], gateway_g [''a'', ''b''] 2 2 False None)"
    using handle_event_g by blast
  have "gw_reachable env_g (config_g [''a'', ''b''] 2 2 False) [] (gateway_g [''a'', ''b''] 2 2 False None)"
    using reachable_g [of "[''a'', ''b'']" 2 2 False "[]" None] by simp
  from accepted_by_quorum [OF this h] show ?thesis by (auto simp: last_steps_def)
qed

lemma empty_ring_write_kills_gateway_witness:
  "fst (handle_event env_g (write_g steps_g) (Some ''body'') (fold (gw_act env_g)
      [Background (Watched \<lparr>ev_type = EventDead, ev_addr = ''a:1'', ev_http = ''a''\<rparr>)]
      (gateway_g [''a''] 1 1 False None))) = Died"
proof -
  let ?acts = "[Background (Watched \<lparr>ev_type = EventDead, ev_addr = ''a:1'', ev_http = ''a''\<rparr>)]"
  let ?gw = "fold (gw_act env_g) ?acts (gateway_g [''a''] 1 1 False None)"
  let ?gw1 = "?gw\<lparr>gw_inflight := 1\<rparr>"
  have "ring_nodes (gw_ring (fold (gw_step env_g) (we_before (write_g steps_g)) ?gw1)) = []"
    by (simp add: watch_membership_def Let_def ring_nodes_def ring_remove_def gateway_g_def ring_new_def)
  moreover have "slot_free ?gw" and "\<not> gw_primary_repl ?gw"
    and "ask_limiter env_g (write_g steps_g) ''k'' (gw_step env_g TakeSlot ?gw) = (True, ?gw1)"
    by (simp_all add: watch_membership_def Let_def gateway_g_def slot_free_def ask_limiter_def)
  ultimately show ?thesis
    using empty_ring_write_kills_gateway [of ?gw env_g "''body''" "''k''" "write_g steps_g"]
    by simp
qed

abbreviation lost_g :: "send_step list" where
  "lost_g \<equiv> [Begin 0 1, Begin 1 1, End 0 2 NoAnswer, End 1 3 (Answer 204 [])]"

lemma quorum_without_first_replica_refused_witness:
  "fst (attempt_twice env_g (write_g lost_g) ''k'' [''a'', ''b''] (gateway_g [''a'', ''b''] 2 1 False None)) =
     GwReply 503 False NoBody"
proof -
  let ?g = "gateway_g [''a'', ''b''] 2 1 False None"
  obtain tr gw1 where tr: "run_posts env_g [''a'', ''b''] [] [] lost_g ?g = (tr, gw1)"
    by (rule prod.exhaust)
  have "results (fst (run_posts env_g [''a'', ''b''] [] [] lost_g ?g)) =
      [(0, failed_post), (1, \<lparr>ps_status = 204, ps_body = None, ps_err = False\<rparr>)]"
    by (simp add: run_posts_Begin run_posts_End posted_def post_begin_def set_breaker_def post_end_def
        breaker_allow_def breaker_new_def breaker_failure_def breaker_success_def for_channel_def
        Let_def gateway_g_def)
  then have res: "results tr = [(0, failed_post), (1, \<lparr>ps_status = 204, ps_body = None, ps_err = False\<rparr>)]"
    by (simp only: tr fst_conv)
  have "attempt_twice env_g (write_g lost_g) ''k'' [''a'', ''b''] ?g = (GwReply 503 False NoBody, [([''a'', ''b''], tr)], gw1)"
  proof (rule quorum_without_first_replica_refused [OF gateway_g_ok])
    show "run_posts env_g [''a'', ''b''] [] [] (we_first (write_g lost_g)) ?g = (tr, gw1)"
      using tr by simp
  qed (simp_all add: res failed_post_def is_ack_def gateway_g_def)
  then show ?thesis by simp
qed

end
