(* ===== verification/GatewayFailover.thy ===== *)
theory GatewayFailover
  imports GatewayWrites
begin

text \<open>
  The epochs a gateway stamps its requests with, the failover of a suspected primary, and
  the aggregates merged from all nodes.
\<close>

section \<open>The epoch of a request\<close>

text \<open>No store of an older epoch falls into these steps.\<close>

definition no_raw :: "gw_event list \<Rightarrow> bool" where
  "no_raw es \<longleftrightarrow> (\<forall>e. RawStored e \<notin> set es)"

definition no_raw_steps :: "send_step list \<Rightarrow> bool" where
  "no_raw_steps steps \<longleftrightarrow> (\<forall>e. Other (RawStored e) \<notin> set steps)"

lemma no_raw_timely: "\<forall>v. e \<noteq> RawStored v \<Longrightarrow> gw_timely e gw"
  by (cases e) auto

lemma events_rise: "no_raw es \<Longrightarrow> gw_epoch gw \<le> gw_epoch (fold (gw_step env) es gw)"
proof (induction es arbitrary: gw)
  case (Cons e es)
  then have "gw_epoch gw \<le> gw_epoch (gw_step env e gw)"
    by (intro gw_step_rises no_raw_timely) (auto simp: no_raw_def)
  also have "\<dots> \<le> gw_epoch (fold (gw_step env) es (gw_step env e gw))"
    using Cons by (auto simp: no_raw_def)
  finally show ?case by simp
qed simp

lemma posted_rises: "gw_epoch gw \<le> gw_epoch (snd (posted env now addr ans hdr gw))"
  using gw_step_rises [of "PostEnded now addr ans" gw env] by (simp add: posted_def)

text \<open>A request of a send: to a replica, on the path of its position, with a current epoch.\<close>

definition request_ok :: "string list \<Rightarrow> u64 \<Rightarrow> post_event \<Rightarrow> bool" where
  "request_ok rs e ev = (case ev of
       Result i r \<Rightarrow> True
     | Request i a p h \<Rightarrow> i < length rs \<and> a = rs ! i \<and> p = (if i = 0 then ''/events'' else ''/replicate'') \<and>
         (\<exists>e' \<ge> e. h = format_uint (unat e')))"

lemma request_ok_mono: "request_ok rs e ev \<Longrightarrow> e0 \<le> e \<Longrightarrow> request_ok rs e0 ev"
  by (auto simp: request_ok_def intro: order_trans split: post_event.splits)

lemma request_ok_begin:
  "i < length rs \<Longrightarrow> ev \<in> set (case fst (post_begin now (rs ! i) gw) of None \<Rightarrow> []
       | Some h \<Rightarrow> [Request i (rs ! i) (if i = 0 then ''/events'' else ''/replicate'') h]) \<Longrightarrow>
     request_ok rs (gw_epoch gw) ev"
  by (auto simp: post_begin_def Let_def request_ok_def split: if_splits)

lemma run_posts_requests:
  "no_raw_steps steps \<Longrightarrow> ev \<in> set (fst (run_posts env rs begun flying steps gw)) \<Longrightarrow>
     request_ok rs (gw_epoch gw) ev"
proof (induction steps arbitrary: begun flying gw)
  case (Cons s steps)
  have raw: "no_raw_steps steps" using Cons.prems(1) by (simp add: no_raw_steps_def)
  note IH = Cons.IH [OF raw]
  show ?case
  proof (cases s)
    case (Begin i now)
    show ?thesis
    proof (cases "i < length rs \<and> i \<notin> set begun")
      case True
      let ?gw = "snd (post_begin now (rs ! i) gw)"
      from Cons.prems(2) Begin True consider
          "ev \<in> set (case fst (post_begin now (rs ! i) gw) of None \<Rightarrow> []
             | Some h \<Rightarrow> [Request i (rs ! i) (if i = 0 then ''/events'' else ''/replicate'') h])"
        | "ev \<in> set (fst (run_posts env rs (i # begun)
             (AList.update i (fst (post_begin now (rs ! i) gw)) flying) steps ?gw))"
        by (auto simp: run_posts_Begin simp del: snd_post_begin)
      then show ?thesis
      proof cases
        case 1
        with True show ?thesis by (intro request_ok_begin) simp_all
      next
        case 2
        from IH [OF this] show ?thesis by simp
      qed
    next
      case False
      with Begin Cons.prems(2) IH [of begun flying gw] show ?thesis by (simp add: run_posts_Begin)
    qed
  next
    case (End i now ans)
    show ?thesis
    proof (cases "map_of flying i")
      case None
      with End show ?thesis using Cons.prems(2) IH [of begun flying gw] by (simp add: run_posts_End)
    next
      case (Some hdr)
      let ?gw = "snd (posted env now (rs ! i) ans hdr gw)"
      from End Some Cons.prems(2) consider "\<exists>r. ev = Result i r"
        | "ev \<in> set (fst (run_posts env rs begun (AList.delete i flying) steps ?gw))"
        by (auto simp: run_posts_End)
      then show ?thesis
      proof cases
        case 1
        then show ?thesis by (auto simp: request_ok_def)
      next
        case 2
        from IH [OF this] posted_rises show ?thesis by (rule request_ok_mono)
      qed
    qed
  next
    case (Other e)
    then have "gw_epoch gw \<le> gw_epoch (gw_step env e gw)"
      using Cons.prems(1) by (intro gw_step_rises no_raw_timely) (auto simp: no_raw_steps_def)
    moreover have "request_ok rs (gw_epoch (gw_step env e gw)) ev"
      using Cons.prems(2) Other IH [of begun flying "gw_step env e gw"] by simp
    ultimately show ?thesis by (blast intro: request_ok_mono)
  qed
qed simp

lemma second_requests:
  assumes "no_raw_steps steps" and "send env rs steps gw = (out, tr, gw')" and "ev \<in> set tr"
  shows "request_ok rs (gw_epoch gw) ev"
proof -
  from assms(2,3) consider "ev \<in> set (fst (run_posts env rs [] [] steps gw))"
    | "rs \<noteq> []" "ev \<in> set (fst (run_posts env [rs ! 0] [] [] steps gw))"
    by (auto simp: send_def case_prod_beta Let_def split: if_splits list.splits option.splits)
  then show ?thesis
  proof cases
    case 1
    then show ?thesis by (rule run_posts_requests [OF assms(1)])
  next
    case 2
    from run_posts_requests [OF assms(1) 2(2)] 2(1) show ?thesis
      by (auto simp: request_ok_def split: post_event.splits)
  qed
qed

section \<open>Properties\<close>

text \<open>
  Along any background steps in which no store is overtaken by a newer one, the epoch of the
  gateway only rises and stays at least as high as every epoch it was told by the control
  plane.
\<close>

theorem gateway_epoch_rises:
  assumes "no_raw es" and "no_raw fs" and "fetch_epoch env ans = Some e"
  shows "gw_epoch gw \<le> gw_epoch (fold (gw_step env) es gw) \<and>
    e \<le> gw_epoch (fold (gw_step env) (es @ EpochPolled ans # fs) gw)"
proof
  show "gw_epoch gw \<le> gw_epoch (fold (gw_step env) es gw)" by (rule events_rise [OF assms(1)])
  have "e \<le> gw_epoch (gw_step env (EpochPolled ans) (fold (gw_step env) es gw))"
    using assms(3) by (simp add: poll_epoch_def)
  also have "\<dots> \<le> gw_epoch (fold (gw_step env) fs (gw_step env (EpochPolled ans) (fold (gw_step env) es gw)))"
    by (rule events_rise [OF assms(2)])
  finally show "e \<le> gw_epoch (fold (gw_step env) (es @ EpochPolled ans # fs) gw)"
    by (simp del: gw_step.simps)
qed

text \<open>The check and the store are two steps: an older epoch can replace a newer one.\<close>

lemma overtaken_store_lowers_epoch:
  assumes "gw_epoch gw < e1" and "e1 < e2" and "fetch_epoch env ans = Some e2"
  shows "gw_epoch (fold (gw_step env) [EpochPolled ans, RawStored e1] gw) <
    gw_epoch (fold (gw_step env) [EpochPolled ans] gw)"
  using assms by (auto simp: poll_epoch_def raw_store_def max_def)

section \<open>Failover of a suspected primary\<close>

lemma first_other:
  "(if set rs \<subseteq> {x} then rs else [hd (filter (\<lambda>a. a \<noteq> x) rs)]) =
     (case find (\<lambda>a. a \<noteq> x) rs of Some a \<Rightarrow> [a] | None \<Rightarrow> rs)"
proof (cases "find (\<lambda>a. a \<noteq> x) rs")
  case (Some a)
  then have "a \<in> set rs" "a \<noteq> x" by (auto simp: find_Some_iff)
  moreover have "hd (filter (\<lambda>a. a \<noteq> x) rs) = a" using Some by (induction rs) (auto split: if_splits)
  ultimately show ?thesis using Some by auto
next
  case None
  then have "set rs \<subseteq> {x}" by (auto simp: find_None_iff)
  with None show ?thesis by simp
qed

lemma bump_for_fresh:
  assumes "map_of (gw_failed_over gw) dead = None \<or>
      (\<exists>v. map_of (gw_failed_over gw) dead = Some v \<and> \<not> time_sub (we_check_at we) v < attempt_timeout)"
    and "gw_cp gw \<noteq> []" and "fetch_epoch env (we_bump we) = Some e"
  shows "fst (bump_for env we dead gw)"
    and "e \<le> gw_epoch (snd (bump_for env we dead gw))"
proof -
  have "gw_cp (fold (gw_step env) (we_while_bump we) gw) \<noteq> []"
    using kf.events [of gw "flags gw" env "we_while_bump we"] assms(2) by (simp add: flags_def)
  then have b: "bump_for env we dead gw = (True, gw_step env (FailedOver dead (we_store_at we))
      (learn_epoch e (fold (gw_step env) (we_while_bump we) gw)))"
    using assms(1,3) by (auto simp: bump_for_def bump_epoch_def Let_def)
  show "fst (bump_for env we dead gw)" by (simp add: b)
  show "e \<le> gw_epoch (snd (bump_for env we dead gw))" by (simp add: b)
qed

text \<open>
  C15: With primary replication, when the first attempt reached nobody, the primary is suspected
  (by a suspicion it may still refute), no epoch was bumped for it in the last 1.2 seconds and
  the control plane bumps the epoch, the second attempt goes to the first replica of the key
  other than the suspected one, and to the suspected one only when the key has no other; every
  request of it carries an epoch at least as high as the one the control plane returned,
  as long as no goroutine stores an older epoch during the attempt.
\<close>

theorem failover_fences_suspected_primary:
  assumes "gateway_ok gw" and "is_sort_slice pt_hash (ge_sort env)"
    and "send env rs (we_first we) gw = (Sent r acks, tr, gw1)" and "wants_retry gw1 r acks"
    and "suspected we rs gw1"
    and "case map_of (gw_failed_over gw1) (rs ! 0) of
       None \<Rightarrow> True | Some v \<Rightarrow> \<not> time_sub (we_check_at we) v < attempt_timeout"
    and "gw_cp gw \<noteq> []" and "fetch_epoch env (we_bump we) = Some e" and "no_raw_steps (we_second we)"
    and "attempt_twice env we key rs gw = (reply, atts, gw')"
  shows "\<exists>gw2 rs0 rs' tr'. bump_for env we (rs ! 0) gw1 = (True, gw2) \<and> route key gw2 = Routed rs0 \<and>
    atts = [(rs, tr), (rs', tr')] \<and>
    rs' = (if set rs0 \<subseteq> {rs ! 0} then rs0 else [hd (filter (\<lambda>a. a \<noteq> rs ! 0) rs0)]) \<and>
    (\<forall>ev \<in> set tr'. request_ok rs' e ev)"
proof -
  have cp: "gw_cp gw1 \<noteq> []" using send_keeps(1) [OF assms(3)] assms(7) by (simp add: flags_def)
  obtain gw2 where gw2: "bump_for env we (rs ! 0) gw1 = (True, gw2)" and e: "e \<le> gw_epoch gw2"
    using bump_for_fresh [OF _ cp assms(8), of "rs ! 0"] assms(6)
    by (cases "bump_for env we (rs ! 0) gw1") (auto split: option.splits)
  have "gateway_ok gw2"
    using ki.bumps [of env gw1 we "rs ! 0"] send_keeps(2) [OF assms(3,1,2)] assms(2) gw2 by simp
  from route_ok [OF this] obtain rs0 where rs0: "route key gw2 = Routed rs0" by blast
  define rs' where "rs' = (if set rs0 \<subseteq> {rs ! 0} then rs0 else [hd (filter (\<lambda>a. a \<noteq> rs ! 0) rs0)])"
  have "rs' = (case find (\<lambda>a. a \<noteq> rs ! 0) rs0 of Some a \<Rightarrow> [a] | None \<Rightarrow> rs0)"
    unfolding rs'_def by (rule first_other)
  then have rr: "reroute env we key rs gw1 = (Routed rs', gw2)"
    using gw2 rs0 assms(5) by (simp add: reroute_def split: option.split)
  obtain out' tr' gw3 where s2: "send env rs' (we_second we) gw2 = (out', tr', gw3)" by (rule prod_cases3)
  have "\<forall>ev \<in> set tr'. request_ok rs' e ev"
    using second_requests [OF assms(9) s2] e by (blast intro: request_ok_mono)
  moreover have "atts = [(rs, tr), (rs', tr')]"
    using assms(3,4,10) rr s2 by (simp add: attempt_twice_def)
  ultimately show ?thesis using gw2 rs0 rs'_def by blast
qed

section \<open>A gateway behind the nodes' epoch\<close>

lemma send_run_posts:
  assumes "send env rs steps gw = (Sent r acks, tr, gw1)" and "ps_status r \<noteq> 0"
  shows "\<exists>rs'. run_posts env rs' [] [] steps gw = (tr, gw1) \<and> r \<in> snd ` set (results tr)"
proof (cases "length rs = 1 \<or> gw_primary_repl gw")
  case True
  with assms(1) show ?thesis
    by (intro exI [of _ "[rs ! 0]"])
      (auto simp: send_def case_prod_beta Let_def split: if_splits list.splits)
next
  case False
  obtain tr1 gw2 where rp: "run_posts env rs [] [] steps gw = (tr1, gw2)" by fastforce
  from assms(1) False rp have "tr1 = tr" "gw2 = gw1"
    and "collect (gw_w gw) (length rs) no_result 0 (List.map snd (results tr)) = Some (r, acks)"
    by (auto simp: send_def split: if_splits option.splits)
  moreover from collect_result [OF this(3)] assms(2) have "r \<in> snd ` set (results tr)"
    by (auto simp: no_result_def)
  ultimately show ?thesis using rp by blast
qed

lemma posted_learns:
  assumes "ps_status (fst (posted env now addr ans hdr gw)) = 409"
    and "ps_body (for_channel i (fst (posted env now addr ans hdr gw))) = Some b" and "ge_seen env b = Some e"
  shows "e \<le> gw_epoch (snd (posted env now addr ans hdr gw))"
proof (cases "hdr = None")
  case True
  with assms(1) show ?thesis by (simp add: posted_def failed_post_def)
next
  case False
  with assms show ?thesis
    by (cases ans) (auto simp: posted_def post_end_def failed_post_def for_channel_def Let_def split: if_splits)
qed

lemma run_posts_rises: "no_raw_steps steps \<Longrightarrow> gw_epoch gw \<le> gw_epoch (snd (run_posts env rs begun flying steps gw))"
proof (induction steps arbitrary: begun flying gw)
  case (Cons s steps)
  have raw: "no_raw_steps steps" using Cons.prems by (simp add: no_raw_steps_def)
  note IH = Cons.IH [OF raw]
  show ?case
  proof (cases s)
    case (Begin i now)
    then show ?thesis
      using IH [of gw begun flying] IH [of "snd (post_begin now (rs ! i) gw)" "i # begun"]
      by (auto simp: run_posts_Begin)
  next
    case (End i now ans)
    then show ?thesis
      using IH [of gw begun flying] order_trans [OF posted_rises IH]
      by (auto simp: run_posts_End split: option.split)
  next
    case (Other e)
    have "gw_epoch gw \<le> gw_epoch (gw_step env e gw)"
      using Cons.prems Other by (intro gw_step_rises no_raw_timely) (auto simp: no_raw_steps_def)
    from order_trans [OF this IH] Other show ?thesis by simp
  qed
qed simp

lemma run_posts_learns:
  "no_raw_steps steps \<Longrightarrow> (i, r) \<in> set (results (fst (run_posts env rs begun flying steps gw))) \<Longrightarrow>
    ps_status r = 409 \<Longrightarrow> ps_body r = Some b \<Longrightarrow> ge_seen env b = Some e \<Longrightarrow>
    e \<le> gw_epoch (snd (run_posts env rs begun flying steps gw))"
proof (induction steps arbitrary: begun flying gw)
  case (Cons s steps)
  have raw: "no_raw_steps steps" using Cons.prems(1) by (simp add: no_raw_steps_def)
  note IH = Cons.IH [OF raw _ Cons.prems(3-5)]
  show ?case
  proof (cases s)
    case (Begin j now)
    then show ?thesis
      using Cons.prems(2) IH [of begun flying gw] IH [of "j # begun" _ "snd (post_begin now (rs ! j) gw)"]
      by (auto simp: run_posts_Begin split: option.splits if_splits)
  next
    case (End j now ans)
    show ?thesis
    proof (cases "map_of flying j")
      case None
      with End Cons.prems(2) IH [of begun flying gw] show ?thesis by (simp add: run_posts_End)
    next
      case (Some hdr)
      let ?p = "posted env now (rs ! j) ans hdr gw"
      from End Some Cons.prems(2) consider "r = for_channel j (fst ?p)"
        | "(i, r) \<in> set (results (fst (run_posts env rs begun (AList.delete j flying) steps (snd ?p))))"
        by (auto simp: run_posts_End)
      then show ?thesis
      proof cases
        case 1
        then have "ps_status (fst ?p) = 409" using Cons.prems(3) by (simp add: for_channel_def split: if_splits)
        from posted_learns [OF this, of j b e] 1 Cons.prems(4,5) have "e \<le> gw_epoch (snd ?p)" by simp
        also have "\<dots> \<le> gw_epoch (snd (run_posts env rs begun (AList.delete j flying) steps (snd ?p)))"
          by (rule run_posts_rises [OF raw])
        finally show ?thesis using End Some by (simp add: run_posts_End)
      next
        case 2
        from IH [OF 2] End Some show ?thesis by (simp add: run_posts_End)
      qed
    qed
  next
    case (Other ev)
    with Cons.prems(2) IH [of begun flying "gw_step env ev gw"] show ?thesis by simp
  qed
qed simp

lemma bump_for_rises:
  assumes "no_raw (we_while_bump we)"
  shows "gw_epoch gw \<le> gw_epoch (snd (bump_for env we dead gw))"
proof -
  have "gw_epoch gw \<le> gw_epoch (fold (gw_step env) (we_while_bump we) gw)" by (rule events_rise [OF assms])
  then show ?thesis
    by (auto simp: bump_for_def bump_epoch_def Let_def case_prod_beta le_max_iff_disj split: option.split)
qed

lemma reroute_rises:
  assumes "gateway_ok gw" and "is_sort_slice pt_hash (ge_sort env)" and "no_raw (we_while_bump we)"
  shows "\<exists>rs' gw2. reroute env we key rs gw = (Routed rs', gw2) \<and> gw_epoch gw \<le> gw_epoch gw2"
proof -
  define b where "b = (if suspected we rs gw then bump_for env we (rs ! 0) gw else (False, gw))"
  have ok: "gateway_ok (snd b)"
    using assms(1,2) ki.bumps [of env gw we "rs ! 0"] by (simp add: b_def)
  have "gw_epoch gw \<le> gw_epoch (snd b)" using bump_for_rises [OF assms(3)] by (simp add: b_def)
  moreover obtain rs0 where "route key (snd b) = Routed rs0" using route_ok [OF ok] by blast
  ultimately show ?thesis
    unfolding reroute_def b_def [symmetric] by (auto simp: case_prod_beta split: option.split)
qed

lemma retried_requests:
  assumes "gateway_ok gw" and "is_sort_slice pt_hash (ge_sort env)"
    and "send env rs (we_first we) gw = (Sent r acks, tr, gw1)" and "acks < need gw"
    and "ps_status r = 409" and "ps_body r = Some b" and "ge_seen env b = Some e"
    and "no_raw_steps (we_first we)" and "no_raw (we_while_bump we)" and "no_raw_steps (we_second we)"
    and "attempt_twice env we key rs gw = (reply, atts, gw')"
  shows "\<exists>rs' tr'. atts = [(rs, tr), (rs', tr')] \<and> (\<forall>ev \<in> set tr'. request_ok rs' e ev)"
proof -
  from send_run_posts [OF assms(3)] assms(5) obtain rs0 i where
    run: "run_posts env rs0 [] [] (we_first we) gw = (tr, gw1)" and res: "(i, r) \<in> set (results tr)" by auto
  have e: "e \<le> gw_epoch gw1"
    using run_posts_learns [OF assms(8), of i r env rs0 "[]" "[]" gw b e] run res assms(5-7) by simp
  have "need gw1 = need gw" using send_keeps(1) [OF assms(3)] by (rule flags_eqD(3))
  then have retry: "wants_retry gw1 r acks" using assms(4,5) by (simp add: wants_retry_def)
  obtain rs' gw2 where rr: "reroute env we key rs gw1 = (Routed rs', gw2)" and "gw_epoch gw1 \<le> gw_epoch gw2"
    using reroute_rises [OF send_keeps(2) [OF assms(3,1,2)] assms(2,9)] by blast
  with e have e2: "e \<le> gw_epoch gw2" by simp
  obtain out' tr' gw3 where s2: "send env rs' (we_second we) gw2 = (out', tr', gw3)" by (rule prod_cases3)
  have "request_ok rs' e ev" if "ev \<in> set tr'" for ev
    using second_requests [OF assms(10) s2 that] e2 by (rule request_ok_mono)
  moreover have "atts = [(rs, tr), (rs', tr')]"
    using assms(3,11) retry rr s2 by (simp add: attempt_twice_def)
  ultimately show ?thesis by blast
qed

section \<open>Merged aggregates\<close>

lemma merge_counts_get:
  "map_ok cs \<Longrightarrow> get0 (merge_counts (\<lambda>_. r) addr cs merged) k =
     get0 merged k + (if ring_owner r k = addr then get0 cs k else 0)"
proof (induction cs arbitrary: merged)
  case (Cons c cs)
  obtain k' v where c: "c = (k', v)" by (cases c)
  from Cons.prems have "map_ok cs" and "k' \<notin> fst ` set cs" by (simp_all add: c map_ok_def)
  then have "get0 cs k' = 0" by (simp add: get0_def map_of_eq_None_iff [THEN iffD2])
  moreover have "get0 (c # cs) k = (if k = k' then v else get0 cs k)" by (simp add: c get0_def)
  ultimately show ?case using Cons.IH [OF \<open>map_ok cs\<close>] by (auto simp: c add_ac)
qed simp

lemma merge_answers_get:
  assumes "distinct addrs" and "\<And>addr cs. answer addr = Some cs \<Longrightarrow> map_ok cs"
  shows "get0 (merge_answers (\<lambda>_ _. r) answer addrs merged) k = get0 merged k +
     (if ring_owner r k \<in> set addrs
      then (case answer (ring_owner r k) of None \<Rightarrow> 0 | Some cs \<Rightarrow> get0 cs k) else 0)"
  using assms(1)
proof (induction addrs arbitrary: merged)
  case (Cons addr addrs)
  then show ?case
    using assms(2) [of addr] by (auto simp: merge_counts_get split: option.split)
qed simp

text \<open>
  C31: While the ring stands still, the merged count of a key is the count its owner reports:
  the copies on other replicas are not added, and the count is missing when the owner does
  not answer.
\<close>

theorem merged_count_is_owners:
  assumes "gateway_ok gw" and "ring_nodes (gw_ring gw) \<noteq> []"
    and "\<And>addr cs. answer addr = Some cs \<Longrightarrow> map_ok cs"
  shows "get0 (gw_aggregates (\<lambda>_ _. gw_ring gw) answer gw) k =
    (case answer (ring_owner (gw_ring gw) k) of None \<Rightarrow> 0 | Some cs \<Rightarrow> get0 cs k)"
proof -
  have ok: "ring_ok (gw_ring gw)" using assms(1) by (simp add: gateway_ok_def)
  have ne: "nodes (gw_ring gw) \<noteq> []" using assms(2) by (simp add: ring_nodes_def)
  then have "preference (gw_ring gw) k \<noteq> []" using length_preference [OF ok, of k] by auto
  with owner_preference [OF ok ne, of k] set_preference [OF ok, of k]
  have "ring_owner (gw_ring gw) k \<in> set (nodes (gw_ring gw))" by (metis hd_in_set)
  moreover have "distinct (nodes (gw_ring gw))" using ok by (simp add: ring_ok_def)
  ultimately show ?thesis
    by (simp add: gw_aggregates_def ring_nodes_def merge_answers_get assms(3))
qed


section \<open>Witnesses\<close>

lemma gateway_epoch_rises_witness:
  "8 \<le> gw_epoch (fold (gw_step env_g) ([EpochPolled (Answer 200 ''9'')] @ EpochPolled (Answer 200 ''8'') # [])
     (gateway_g [''a'', ''b''] 2 1 False None))"
  using gateway_epoch_rises [of "[EpochPolled (Answer 200 ''9'')]" "[]" env_g "Answer 200 ''8''" 8
      "gateway_g [''a'', ''b''] 2 1 False None"]
  by (simp add: no_raw_def fetch_epoch_def epoch_g_def)

lemma merged_count_is_owners_witness:
  "get0 (gw_aggregates (\<lambda>_ _. gw_ring (gateway_g [''a'', ''b''] 2 1 False None)) (\<lambda>addr. Some [(''k'', 3)])
     (gateway_g [''a'', ''b''] 2 1 False None)) ''k'' = 3"
  using merged_count_is_owners [OF gateway_g_ok, of 1 False None "\<lambda>addr. Some [(''k'', 3)]" "''k''"]
  by (simp add: gateway_g_def ring_nodes_def ring_new_def Let_def sort_key_simps insort_key.simps map_ok_def get0_def)


abbreviation suspecting_g :: swim where
  "suspecting_g \<equiv> swim_u \<lparr>mb_addr = ''a'', mb_http = ''a'', mb_state = Suspect, mb_suspect_at = 0, mb_inc = 0\<rparr>"

abbreviation silent_g :: "send_step list" where
  "silent_g \<equiv> [Begin 0 1, End 0 2 NoAnswer]"

lemma failover_fences_suspected_primary_witness:
  "\<exists>tr tr'. fst (snd (attempt_twice env_g (write_g silent_g) ''k'' [''a'', ''b'']
       (gateway_g [''a'', ''b''] 2 1 True (Some suspecting_g)))) = [([''a'', ''b''], tr), ([''b''], tr')] \<and>
     (\<forall>ev \<in> set tr'. request_ok [''b''] 9 ev)"
proof -
  let ?g = "gateway_g [''a'', ''b''] 2 1 True (Some suspecting_g)"
  obtain out tr gw1 where s: "send env_g [''a'', ''b''] silent_g ?g = (out, tr, gw1)" by (rule prod_cases3)
  obtain reply atts gw' where t: "attempt_twice env_g (write_g silent_g) ''k'' [''a'', ''b''] ?g = (reply, atts, gw')"
    by (rule prod_cases3)
  have out: "fst (send env_g [''a'', ''b''] silent_g ?g) = Sent failed_post 0"
    and gw: "gw_swim (snd (snd (send env_g [''a'', ''b''] silent_g ?g))) = Some suspecting_g"
    "gw_primary_repl (snd (snd (send env_g [''a'', ''b''] silent_g ?g)))"
    "gw_failed_over (snd (snd (send env_g [''a'', ''b''] silent_g ?g))) = []"
    "gw_ring (snd (snd (send env_g [''a'', ''b''] silent_g ?g))) = gw_ring ?g"
    "gw_rf (snd (snd (send env_g [''a'', ''b''] silent_g ?g))) = 2"
    "gw_cp (snd (snd (send env_g [''a'', ''b''] silent_g ?g))) \<noteq> []"
    by (simp_all add: send_def run_posts_Begin run_posts_End posted_def post_begin_def set_breaker_def
        post_end_def breaker_allow_def breaker_new_def breaker_failure_def for_channel_def Let_def
        gateway_g_def failed_post_def is_ack_def)
  then have out: "out = Sent failed_post 0" and gw: "gw_swim gw1 = Some suspecting_g" "gw_primary_repl gw1"
    "gw_failed_over gw1 = []" "gw_ring gw1 = gw_ring ?g" "gw_rf gw1 = 2" "gw_cp gw1 \<noteq> []"
    by (simp_all only: s fst_conv snd_conv not_False_eq_True)
  have "\<exists>gw2 rs0 rs' tr'. bump_for env_g (write_g silent_g) ([''a'', ''b''] ! 0) gw1 = (True, gw2) \<and>
      route ''k'' gw2 = Routed rs0 \<and> atts = [([''a'', ''b''], tr), (rs', tr')] \<and>
      rs' = (if set rs0 \<subseteq> {[''a'', ''b''] ! 0} then rs0 else [hd (filter (\<lambda>a. a \<noteq> [''a'', ''b''] ! 0) rs0)]) \<and>
      (\<forall>ev \<in> set tr'. request_ok rs' 9 ev)"
  proof (rule failover_fences_suspected_primary [OF gateway_g_ok _ _ _ _ _ _ _ _ t])
    show "send env_g [''a'', ''b''] (we_first (write_g silent_g)) ?g = (Sent failed_post 0, tr, gw1)"
      using s out by simp
    show "suspected (write_g silent_g) [''a'', ''b''] gw1"
      by (simp add: suspected_def gw is_suspect_def http_state_def swim_u_def new_member_def)
  qed (simp_all add: stable_sorts_points wants_retry_def need_def gw failed_post_def gateway_g_def no_raw_steps_def
      fetch_epoch_def epoch_g_def)
  moreover have "[''a'', ''b''] ! 0 = ''a''" by simp
  ultimately obtain gw2 rs0 rs' tr' where b: "bump_for env_g (write_g silent_g) ''a'' gw1 = (True, gw2)"
    and rt: "route ''k'' gw2 = Routed rs0" and atts: "atts = [([''a'', ''b''], tr), (rs', tr')]"
    and rs': "rs' = (if set rs0 \<subseteq> {''a''} then rs0 else [hd (filter (\<lambda>a. a \<noteq> ''a'') rs0)])"
    and req: "\<forall>ev \<in> set tr'. request_ok rs' 9 ev" by metis
  have "gw_ring gw2 = gw_ring ?g \<and> gw_rf gw2 = 2"
    using b gw by (auto simp: bump_for_def bump_epoch_def fetch_epoch_def epoch_g_def)
  then have "route ''k'' gw2 = route ''k'' ?g" by (simp add: route_def gateway_g_def)
  moreover have "route ''k'' ?g = Routed [''a'', ''b''] \<or> route ''k'' ?g = Routed [''b'', ''a'']"
    using route_g [of ?g "''k''"] by (auto simp: gateway_g_def)
  ultimately have "rs0 = [''a'', ''b''] \<or> rs0 = [''b'', ''a'']" using rt by auto
  then have "rs' = [''b'']" using rs' by auto
  with t atts req show ?thesis by auto
qed

end
