(* ===== verification/Resharding.thy ===== *)
theory Resharding
  imports ControlPlane NodeLoads
begin

text \<open>
  A reshard from end to end: the control plane's handler, the node that gives the partition
  away and the node that loads it. The answers one of them gets are computed by the
  handlers of the other: the snapshot and the tail a load meets are what
  \<open>handle_snapshot\<close> and \<open>handle_log\<close> of the source return, and the statuses the control
  plane meets are those of the nodes' handlers.
\<close>

section \<open>What a load fetches\<close>

text \<open>
  The answers of a source, which is in the state \<open>src\<close> when it serves \<open>GET /snapshot\<close> and in the
  state \<open>src'\<close> when it serves \<open>GET /log\<close>.
\<close>

definition fetches :: "codec \<Rightarrow> node_config \<Rightarrow> node \<Rightarrow> node \<Rightarrow> load_env \<Rightarrow> bool" where
  "fetches c cfg src src' env \<longleftrightarrow>
     le_snap env = handle_snapshot c cfg src \<and>
     le_tail env = (\<lambda>offset. handle_log (format_uint (unat offset)) src')"

lemma handle_log_format: "handle_log (format_uint (unat offset)) nd = Some (log_since offset (pt_log (nd_part nd)))"
  by (simp add: handle_log_def parse_format_uint)

lemma log_since_base:
  assumes "length (l_entries l) < 2 ^ 64"
  shows "log_since (l_base l) l = l_entries l"
  using unat_of_nat_u64 [OF assms] by (auto simp: log_since_def unat_eq_0 [symmetric])

lemma load_done_fencer:
  assumes "load_from_source c cfg env io epoch nd = LoadDone nd'"
  shows "epoch \<le> f_seen (nd_fencer nd')"
proof -
  have "epoch \<le> f_seen f'" if "(if epoch > 0 then snd (fencer_check io epoch (f, fs)) else (f, fs)) = (f', fs')"
    for f fs f' fs'
    using that fencer_check_seen [of io epoch f fs] by (cases "epoch > 0") (auto simp: word_gt_0)
  then show ?thesis
    using assms by (fastforce simp: load_from_source_def Let_def split: option.splits sum.splits prod.splits if_splits)
qed

section \<open>A frozen source between compactions\<close>

text \<open>The events that change neither a frozen log nor the files: all but compactions.\<close>

fun quiet :: "node_event \<Rightarrow> bool" where
  "quiet (NCompact now io) = False"
| "quiet (NCompactStale k now io) = False"
| "quiet ev = keeps_frozen ev"

lemma quiet_keeps_frozen: "quiet ev \<Longrightarrow> keeps_frozen ev"
  by (cases ev) simp_all

lemma quiet_step:
  assumes "frozen_at head nd" and "quiet ev"
  shows "pt_log (nd_part (snd (node_step c srt psrt cfg ev nd))) = pt_log (nd_part nd) \<and>
    nd_disk (snd (node_step c srt psrt cfg ev nd)) = nd_disk nd"
proof -
  note fz = assms(1) [unfolded frozen_at_def]
  have idle: "pt_apply (nd_part nd) = []" "concat (List.map pt_apply (nd_stale nd)) = []"
    using fz by (simp_all add: queues_def)
  show ?thesis
  proof (cases ev)
    case (NAdmit kind io hdr body)
    show ?thesis
      by (rule admit_cases [of kind io hdr body nd]) (use fz in \<open>auto simp: NAdmit\<close>)
  next
    case (NServeStale k now env)
    show ?thesis
    proof (cases "k < length (nd_stale nd)")
      case True
      have "pt_apply (nd_stale nd ! k) = []" using concat_nil_nth [OF idle(2) True] .
      with True show ?thesis by (simp add: NServeStale serve_stale_def idle_apply)
    qed (simp add: NServeStale)
  qed (use assms(2) fz idle in \<open>auto simp: pending_of_def serve_def idle_apply handle_aggregates_def handle_freeze_def
      handle_load_def case_prod_beta Let_def split: option.split sum.split\<close>)
qed

lemma quiet_run:
  assumes "frozen_at head nd" and "\<forall>ev\<in>set evs. quiet ev"
  shows "frozen_at head (node_run c srt psrt cfg evs nd) \<and>
    pt_log (nd_part (node_run c srt psrt cfg evs nd)) = pt_log (nd_part nd) \<and>
    nd_disk (node_run c srt psrt cfg evs nd) = nd_disk nd"
  using assms
proof (induction evs arbitrary: nd)
  case Nil
  then show ?case by simp
next
  case (Cons ev evs)
  have ev: "quiet ev" "keeps_frozen ev" using Cons.prems(2) quiet_keeps_frozen by simp_all
  let ?nd = "snd (node_step c srt psrt cfg ev nd)"
  have "frozen_at head ?nd" using frozen_step [OF Cons.prems(1) ev(2)] by blast
  moreover note quiet_step [OF Cons.prems(1) ev(1), of c srt psrt cfg]
  ultimately show ?case using Cons.IH [of ?nd] Cons.prems(2) by (simp del: node_step.simps)
qed

text \<open>A node that answers a freeze with a success and serves no request is frozen.\<close>

lemma freeze_freezes:
  assumes "node_ok nd" and "nd_pending nd = []" and "node_post (Status (fst (handle_freeze body nd)))"
  shows "frozen_at (log_head (pt_log (nd_part nd))) (snd (handle_freeze body nd)) \<and>
    nd_part (snd (handle_freeze body nd)) = nd_part nd \<and> nd_disk (snd (handle_freeze body nd)) = nd_disk nd"
proof -
  have "queues nd = []" using assms(1,2) by (simp add: node_ok_def requests_ok_def waiting_def)
  then show ?thesis
    using assms(2,3) by (auto simp: handle_freeze_def freeze_def frozen_at_def queues_def node_post_def
        split: option.splits if_splits sum.splits)
qed

section \<open>The synchronous reshard\<close>

text \<open>
  C6: A synchronous reshard moves the whole log, if the load on the target is completed: the
  target's log is then at the thaw a copy of the source's, base, offsets, identifiers, keys
  and values, although clients went on sending writes to the source; and the target's fence
  is at the epoch the reshard drew, one above the partition's epoch before it. The source has
  no write in service at the freeze, compacts nothing meanwhile, has a snapshot at the base
  of its log, and repeats no identifier in its log; the target has a data directory, saves the
  snapshot and reads it back. Compactions meanwhile and loads that fail are the subject of
  \<open>compaction_between_fetches_loses_entries\<close> and \<open>failed_load_reported_as_success\<close>.
\<close>

theorem synchronous_reshard_copies_log:
  assumes "handle_reshard jc renv session (Some r) st = (Inr dn, calls, st')" and "rq_live r = Some False"
    and "re_freeze renv = Status (fst (handle_freeze (Some session) src))"
    and "started c psrt cfg nd0" and "is_sort_slice pt_hash psrt" and "node_run_ok c srt psrt cfg evs nd0"
    and "src = node_run c srt psrt cfg evs nd0" and "nd_pending src = []"
    and "length (l_entries (pt_log (nd_part src))) < 2 ^ 64"
    and "distinct (List.map e_id (l_entries (pt_log (nd_part src))))"
    and "handle_snapshot c cfg src = Some snap" and "s_base snap = log_base_offset (pt_log (nd_part src))"
    and "src1 = node_run c srt psrt cfg evs1 (snd (handle_freeze (Some session) src))"
    and "src2 = node_run c srt psrt cfg evs2 src1" and "src3 = node_run c srt psrt cfg evs3 src2"
    and "\<forall>ev\<in>set (evs1 @ evs2 @ evs3). quiet ev"
    and "fetches c cfg src1 src2 env" and "load_from_source c cfg' env io (rd_epoch dn) tgt = LoadDone tgt'"
    and "nc_dir cfg' \<noteq> []" and "le_save env = Saved" and "dec_snap c (enc_snap c snap) = Some snap"
  shows "log_base_offset (pt_log (nd_part tgt')) = log_base_offset (pt_log (nd_part src3)) \<and>
    List.map content (l_entries (pt_log (nd_part tgt'))) = List.map content (l_entries (pt_log (nd_part src3))) \<and>
    rd_epoch dn = store_current (default_part (rq_partition r)) (fst st) + 1 \<and>
    rd_epoch dn \<le> f_seen (nd_fencer tgt')"
proof -
  let ?src0 = "snd (handle_freeze (Some session) src)" and ?head = "log_head (pt_log (nd_part src))"
  have ok: "node_ok src" unfolding assms(7) using assms(4-6) by (rule run_node_ok)
  have cp: "node_post (re_freeze renv)" "rd_epoch dn = store_current (default_part (rq_partition r)) (fst st) + 1"
    using assms(1,2) by (cases st; auto simp: handle_reshard_def store_bump_eq Let_def case_prod_beta store_current_def
        split: if_splits)+
  from freeze_freezes [OF ok assms(8) cp(1) [unfolded assms(3)]]
  have fz: "frozen_at ?head ?src0" "nd_part ?src0 = nd_part src" "nd_disk ?src0 = nd_disk src" by simp_all
  have one: "frozen_at ?head src1" "pt_log (nd_part src1) = pt_log (nd_part src)" "nd_disk src1 = nd_disk src"
    using quiet_run [OF fz(1), of evs1 c srt psrt cfg] assms(16) fz(2,3) unfolding assms(13) by simp_all
  have two: "frozen_at ?head src2" "pt_log (nd_part src2) = pt_log (nd_part src)"
    using quiet_run [OF one(1), of evs2 c srt psrt cfg] assms(16) one(2) unfolding assms(14) by simp_all
  have three: "pt_log (nd_part src3) = pt_log (nd_part src)"
    using quiet_run [OF two(1), of evs3 c srt psrt cfg] assms(16) two(2) unfolding assms(15) by simp_all
  let ?es = "l_entries (pt_log (nd_part src))"
  have snap: "le_snap env = Some snap"
    using assms(11,17) one(3) by (simp add: fetches_def handle_snapshot_def split: if_splits)
  have base: "s_base snap = l_base (pt_log (nd_part src))" using assms(12) by (simp add: log_base_offset_def)
  have tail: "le_tail env (s_base snap) = Some ?es"
    using assms(17) log_since_base [OF assms(9)] by (simp add: fetches_def handle_log_format two(2) base)
  have dense: "dense (s_base snap) ?es"
    using ok by (simp add: node_ok_def partition_ok_def log_ok_def base)
  from load_copies_log [OF assms(18,19) snap assms(20,21) tail dense assms(10)] load_done_fencer [OF assms(18)] cp(2)
  show ?thesis by (simp add: three base log_base_offset_def)
qed

section \<open>A compaction between the two requests\<close>

text \<open>
  C38: A load fetches the snapshot and the log in two requests. When the source compacts
  between them, the target's log is empty and starts at the old base: every entry the
  compaction moved into the new snapshot is missing, and the source's answer to the
  catch-up from the target's head brings none of them either.
\<close>

theorem compaction_between_fetches_loses_entries:
  assumes "fetches c cfg src src' env"
    and "src' = snd (node_step c srt psrt cfg (NCompact now CompactOk) src)"
    and "compact_threshold \<le> length (l_entries (pt_log (nd_part src)))"
    and "length (l_entries (pt_log (nd_part src))) < 2 ^ 64" and "l_dir (pt_log (nd_part src)) \<noteq> []"
    and "handle_snapshot c cfg src = Some snap"
    and "load_from_source c cfg' env io epoch tgt = LoadDone tgt'" and "nc_dir cfg' \<noteq> []"
    and "le_save env = Saved" and "dec_snap c (enc_snap c snap) = Some snap"
  shows "l_entries (pt_log (nd_part tgt')) = [] \<and> log_head (pt_log (nd_part tgt')) = s_base snap \<and>
    handle_log (format_uint (unat (log_head (pt_log (nd_part tgt'))))) src' = Some [] \<and>
    log_head (pt_log (nd_part src')) = log_head (pt_log (nd_part src))"
proof -
  obtain out p d where st: "part_step c srt (PCompact now CompactOk) (nd_part src, nd_disk src) = (out, p, d)"
    by (rule prod_cases3)
  have src': "src' = src\<lparr>nd_part := p, nd_disk := d\<rparr>" using assms(2) st by (simp del: part_step.simps)
  define s where "s = fst (agg_snapshot now (log_head (pt_log (nd_part src))) (pt_agg (nd_part src)))"
  have "s_base s = log_head (pt_log (nd_part src))" by (simp add: s_def agg_snapshot_def Let_def case_prod_beta)
  then have keep: "s_base s - l_base (pt_log (nd_part src)) = of_nat (length (l_entries (pt_log (nd_part src))))"
    by (simp add: log_head_def)
  have "l_entries (pt_log p) = []"
    using st assms(3,5) keep unat_of_nat_u64 [OF assms(4)]
    by (auto simp: s_def [symmetric] case_prod_beta Let_def log_compact_def split: if_splits)
  then have tail: "handle_log (format_uint (unat offset)) src' = Some []" for offset :: u64
    by (simp add: handle_log_format src' log_since_def Let_def)
  have head: "log_head (pt_log p) = log_head (pt_log (nd_part src))" using compact_head [OF st] by blast
  have snap: "le_snap env = Some snap" and es: "le_tail env (s_base snap) = Some []"
    using assms(1,6) tail by (simp_all add: fetches_def)
  from load_copies_log [OF assms(7,8) snap assms(9,10) es] tail head
  show ?thesis by (simp add: log_base_offset_def log_head_def src')
qed

section \<open>A load that fails\<close>

text \<open>
  C39: The control plane takes the health status \<open>normal\<close> of the target for the end of the
  load. A load that failed leaves the same status, so the reshard is reported as a success
  although the target still holds the log it had before.
\<close>

theorem failed_load_reported_as_success:
  assumes "k < length (nd_loaders tgt)" and "nd_loaders tgt ! k = Fetching src epoch" and "\<not> loader_waits k tgt"
    and "load_from_source c cfg env io epoch tgt = LoadFailed tgt1"
    and "loader_step c cfg k (LoadStep env io) tgt = Inr tgt'"
    and "Some (h_reshard (handle_health tgt')) \<in> set (re_polls renv)"
    and "rq_source r \<noteq> []" and "rq_target r \<noteq> []" and "node_post (re_freeze renv)" and "node_post (re_load renv)"
  shows "(\<exists>dn calls st'. handle_reshard jc renv session (Some r) st = (Inr dn, calls, st')) \<and>
    l_entries (pt_log (nd_part tgt')) = l_entries (pt_log (nd_part tgt)) \<and>
    log_base_offset (pt_log (nd_part tgt')) = log_base_offset (pt_log (nd_part tgt))"
proof -
  have tgt': "tgt' = set_loader k LoaderDone (tgt1\<lparr>nd_rs := finish_load (nd_rs tgt1)\<rparr>)"
    using assms(1-5) by (simp add: loader_step_def)
  then have "h_reshard (handle_health tgt') = ''normal''"
    by (simp add: handle_health_def status_string_def finish_load_def set_loader_def)
  then have "\<not> poll_loop (re_polls renv)" using assms(6) by (auto simp: poll_loop_def list_ex_iff)
  then have accepted: "\<exists>dn calls st'. handle_reshard jc renv session (Some r) st = (Inr dn, calls, st')"
    using assms(7-10) by (simp add: handle_reshard_def Let_def case_prod_beta)
  from assms(4) show ?thesis
  proof (cases rule: load_from_source_cases)
    case (failed d p)
    then have "l_entries (pt_log (nd_part tgt1)) = l_entries (pt_log (nd_part tgt)) \<and>
        l_base (pt_log (nd_part tgt1)) = l_base (pt_log (nd_part tgt))"
      by (auto simp: detach_def)
    then show ?thesis using accepted by (simp add: tgt' set_loader_def log_base_offset_def)
  qed simp_all
qed

section \<open>Witnesses\<close>

definition fetched :: "codec \<Rightarrow> node \<Rightarrow> node \<Rightarrow> load_env" where
  "fetched c src src' = \<lparr>le_snap = handle_snapshot c cfg_d src, le_save = Saved,
     le_tail = (\<lambda>offset. handle_log (format_uint (unat offset)) src'), le_open = OpenOk, le_now = 1, le_clock = (\<lambda>i. 2)\<rparr>"

lemma fetched_done: "\<exists>tgt'. load_from_source c cfg_d (fetched c src src') Persists e tgt = LoadDone tgt'"
proof -
  have "\<exists>p. part_open c OpenOk 1 ''d'' 5 3 8 False 1 d = Inr p" for d
    by (simp add: part_open_def log_open_def Let_def case_prod_beta)
  then obtain opened where "part_open c OpenOk 1 ''d'' 5 3 8 False 1 d = Inr (opened d)" for d by metis
  then show ?thesis
    by (cases "handle_snapshot c cfg_d src")
      (simp_all add: load_from_source_def Let_def case_prod_beta fetched_def handle_log_format, simp_all add: cfg_d_def cfg_a_def Let_def case_prod_beta)
qed

lemma fetched_fetches: "fetches c cfg_d src src' (fetched c src src')" and fetched_saved: "le_save (fetched c src src') = Saved"
  by (simp_all add: fetches_def fetched_def)

abbreviation codec7 :: codec where
  "codec7 \<equiv> one_codec entry7 snap7"

abbreviation disk7 :: disk where
  "disk7 \<equiv> empty_disk\<lparr>snap_file := Some ''{}'', wal_file := Some (wal_image codec7 [entry7])\<rparr>"

lemma source7:
  obtains src where "started codec7 stable cfg_d src" "l_entries (pt_log (nd_part src)) = [entry7]"
    "l_base (pt_log (nd_part src)) = 7" "nd_disk src = disk7" "nd_pending src = []" "nd_rs src = rs_init"
proof -
  have "storable codec7 entry7" by (simp add: storable_def codec_ok_def one_codec_def max_scan_token_def)
  then have "scan (wal_image codec7 [entry7]) = [enc codec7 entry7]"
    using scan_wal_image [of "[entry7]" codec7 "[]"] by simp
  moreover have "load_snapshot codec7 disk7 = Some snap7" by (simp add: load_snapshot_def one_codec_def)
  ultimately obtain p where p: "part_open codec7 OpenOk 0 ''d'' 5 3 8 False 1 disk7 = Inr (p, disk7)"
    "l_entries (pt_log p) = [entry7]" "l_base (pt_log p) = 7"
    by (simp add: part_open_def log_open_def Let_def set_no_idempotent_def one_codec_def snap7_def)
  let ?src = "node_a\<lparr>nd_part := p, nd_disk := disk7\<rparr>"
  have "node_start codec7 stable cfg_d [''a'', ''b''] True True OpenOk 0 ''epoch'' Map.empty disk7 = Inr ?src"
    using p(1) by (simp add: node_start_def cfg_d_def cfg_a_def fencer_load_def node_a_def ring_ab_def)
  then have "started codec7 stable cfg_d ?src" unfolding started_def by blast
  with p show thesis by (intro that [of ?src]) (simp_all add: node_a_def)
qed

lemma synchronous_reshard_copies_log_witness:
  "\<exists>src1 tgt'. load_from_source codec7 cfg_d (fetched codec7 src1 src1) Persists 1 node_a = LoadDone tgt' \<and>
     List.map content (l_entries (pt_log (nd_part tgt'))) = [(7, ''a'', ''k'', ''v'')] \<and> 1 \<le> f_seen (nd_fencer tgt')"
proof -
  obtain src where src: "started codec7 stable cfg_d src" "l_entries (pt_log (nd_part src)) = [entry7]"
    "l_base (pt_log (nd_part src)) = 7" "nd_disk src = disk7" "nd_pending src = []" "nd_rs src = rs_init"
    by (rule source7)
  let ?env = "\<lparr>re_freeze = Status 200, re_load = Status 200, re_polls = [Some ''normal''], re_io = StorePersists\<rparr>"
  let ?r = "\<lparr>rq_source = ''a'', rq_target = ''b'', rq_partition = [], rq_live = Some False\<rparr>"
  let ?src0 = "snd (handle_freeze (Some ''s'') src)" and ?evs = "[NAdmit ClientEvent Persists '''' (Some req_a)]"
  define src1 where "src1 = node_run codec7 (\<lambda>xs. xs) stable cfg_d ?evs ?src0"
  obtain dn calls st' where h: "handle_reshard no_epoch_codec ?env ''s'' (Some ?r) store0 = (Inr dn, calls, st')"
    "rd_epoch dn = 1"
    by (simp add: handle_reshard_def node_post_def poll_loop_def Let_def case_prod_beta store_bump_def store_current_def)
  have fr: "fst (handle_freeze (Some ''s'') src) = 200"
    by (simp add: handle_freeze_def freeze_def src(6) rs_init_def)
  obtain tgt' where ld: "load_from_source codec7 cfg_d (fetched codec7 src1 src1) Persists 1 node_a = LoadDone tgt'"
    using fetched_done by blast
  have snap: "handle_snapshot codec7 cfg_d src = Some snap7" "dec_snap codec7 (enc_snap codec7 snap7) = Some snap7"
    "s_base snap7 = log_base_offset (pt_log (nd_part src))"
    by (simp_all add: handle_snapshot_def cfg_d_def src(3,4) load_snapshot_def one_codec_def log_base_offset_def snap7_def)
  have frozen: "frozen_at (log_head (pt_log (nd_part src))) ?src0" "nd_part ?src0 = nd_part src"
    using freeze_freezes [OF started_ok [OF src(1) stable_sorts] src(5), of "Some ''s''"] fr by (simp_all add: node_post_def)
  have log: "pt_log (nd_part src1) = pt_log (nd_part src)"
    using quiet_run [OF frozen(1), of ?evs codec7 "\<lambda>xs. xs" stable cfg_d] frozen(2) unfolding src1_def by (simp del: node_step.simps)
  have quiet: "\<forall>ev\<in>set (?evs @ [] @ []). quiet ev" by simp
  have copied: "List.map content (l_entries (pt_log (nd_part tgt'))) = List.map content (l_entries (pt_log (nd_part src1))) \<and>
      1 \<le> f_seen (nd_fencer tgt')"
    using synchronous_reshard_copies_log [OF h(1) _ _ src(1) stable_sorts _ _ src(5) _ _ snap(1,3) src1_def _ _ quiet
        fetched_fetches ld [folded h(2)] _ fetched_saved snap(2), of "[]" src1] fr
    by (simp add: src(2) cfg_d_def h(2))
  then have "List.map content (l_entries (pt_log (nd_part tgt'))) = [(7, ''a'', ''k'', ''v'')] \<and> 1 \<le> f_seen (nd_fencer tgt')"
    by (simp add: log src(2))
  with ld show ?thesis by (intro exI [of _ src1] exI [of _ tgt'] conjI) simp_all
qed

lemma compaction_between_fetches_loses_entries_witness:
  "\<exists>src src' tgt'. load_from_source (snap_codec snap7) cfg_d (fetched (snap_codec snap7) src src') Persists 0 node_a = LoadDone tgt' \<and>
     length (l_entries (pt_log (nd_part src))) = 10000 \<and> l_entries (pt_log (nd_part tgt')) = []"
proof -
  let ?c = "snap_codec snap7" and ?src = "node_a\<lparr>nd_part := big_partition, nd_disk := empty_disk\<lparr>snap_file := Some []\<rparr>\<rparr>"
  define src' where "src' = snd (node_step ?c (\<lambda>xs. xs) stable cfg_d (NCompact 5 CompactOk) ?src)"
  obtain tgt' where ld: "load_from_source ?c cfg_d (fetched ?c ?src src') Persists 0 node_a = LoadDone tgt'"
    using fetched_done by blast
  have big: "length (l_entries (pt_log (nd_part ?src))) = 10000" "l_dir (pt_log (nd_part ?src)) \<noteq> []"
    by (simp_all add: big_partition_def)
  have snap: "handle_snapshot ?c cfg_d ?src = Some snap7"
    by (simp add: handle_snapshot_def load_snapshot_def snap_codec_def cfg_d_def)
  have "compact_threshold \<le> length (l_entries (pt_log (nd_part ?src)))" "length (l_entries (pt_log (nd_part ?src))) < 2 ^ 64"
    "nc_dir cfg_d \<noteq> []" by (simp_all only: big compact_threshold_def) (simp_all add: cfg_d_def)
  from compaction_between_fetches_loses_entries [OF fetched_fetches src'_def this(1,2) big(2) snap ld this(3) fetched_saved
      snap_codec_round] ld big(1)
  show ?thesis by blast
qed

lemma failed_load_reported_as_success_witness:
  "\<exists>dn calls st'. handle_reshard no_epoch_codec
     \<lparr>re_freeze = Status 200, re_load = Status 200, re_polls = [None, Some ''normal''], re_io = StorePersists\<rparr> ''s''
     (Some \<lparr>rq_source = ''b'', rq_target = ''a'', rq_partition = [], rq_live = None\<rparr>) store0 = (Inr dn, calls, st')"
proof -
  let ?tgt = "node_a\<lparr>nd_loaders := [Fetching ''b'' 1]\<rparr>" and ?env = "load_d snap7 None"
  let ?renv = "\<lparr>re_freeze = Status 200, re_load = Status 200, re_polls = [None, Some ''normal''], re_io = StorePersists\<rparr>"
  obtain tgt1 where ld: "load_from_source no_codec cfg_a ?env Persists 1 ?tgt = LoadFailed tgt1"
    by (simp add: load_from_source_def load_d_def Let_def case_prod_beta)
  have idle: "0 < length (nd_loaders ?tgt)" "nd_loaders ?tgt ! 0 = Fetching ''b'' 1" "\<not> loader_waits 0 ?tgt"
    by (simp_all add: loader_waits_def node_a_def)
  obtain tgt' where st: "loader_step no_codec cfg_a 0 (LoadStep ?env Persists) ?tgt = Inr tgt'"
    "h_reshard (handle_health tgt') = ''normal''"
    using ld idle by (simp add: loader_step_def handle_health_def status_string_def finish_load_def set_loader_def)
  have "Some (h_reshard (handle_health tgt')) \<in> set (re_polls ?renv)" "node_post (re_freeze ?renv)" "node_post (re_load ?renv)"
    by (simp_all add: st(2) node_post_def)
  from failed_load_reported_as_success [OF idle ld st(1) this(1) _ _ this(2,3),
      of "\<lparr>rq_source = ''b'', rq_target = ''a'', rq_partition = [], rq_live = None\<rparr>"]
  show ?thesis by auto
qed

end
