(* ===== verification/Cluster.thy ===== *)
theory Cluster
  imports NodeLoads GatewayFailover
begin

text \<open>
  Gateway and nodes together: what an answer of a node says about the node's state, and
  what a gateway's answer to its client says about the nodes of the cluster when the answers
  it collected are those of nodes that run the node's code.
\<close>

section \<open>What a node holds\<close>

text \<open>The identifier is in the log or in the deduplication set of the log.\<close>

definition logged :: "log \<Rightarrow> string \<Rightarrow> bool" where
  "logged l i \<longleftrightarrow> i \<in> e_id ` set (l_entries l) \<or> i \<in> known_ids l"

text \<open>The node has the write in a partition, or in the buffer of a load that will drain it.\<close>

fun yet_to_drain :: "loader \<Rightarrow> bool" where
  "yet_to_drain (Fetching src epoch) = True"
| "yet_to_drain (Draining src) = True"
| "yet_to_drain ld = False"

definition holds :: "node \<Rightarrow> string \<Rightarrow> bool" where
  "holds nd i \<longleftrightarrow> (\<exists>p\<in>set (nd_part nd # nd_stale nd). logged (pt_log p) i) \<or>
     i \<in> bw_id ` set (rs_buffer (nd_rs nd)) \<and> (\<exists>ld\<in>set (nd_loaders nd). yet_to_drain ld)"

lemma append_all_logged:
  assumes "log_ok (l, d)" and "append_all c now reqs (l, d) = (rs, l', d')" and "(i, k, v) \<in> set reqs"
  shows "i \<in> e_id ` set (l_entries l') \<union> live (l_dedup l') now"
  using assms
proof (induction reqs arbitrary: l d rs)
  case (Cons r reqs)
  obtain i1 k1 v1 where r: "r = (i1, k1, v1)" by (cases r)
  obtain res l1 d1 where a: "log_append c now i1 k1 v1 (l, d) = (res, l1, d1)"
    by (rule prod_cases3)
  obtain rs1 where all: "append_all c now reqs (l1, d1) = (rs1, l', d')"
    using Cons.prems(2) a by (auto simp: r split: prod.splits)
  have ok1: "log_ok (l1, d1)" using log_append_ok [OF Cons.prems(1), of c now i1 k1 v1] a by simp
  show ?case
  proof (cases "(i, k, v) \<in> set reqs")
    case True
    with Cons.IH [OF ok1 all] show ?thesis by blast
  next
    case False
    with Cons.prems(3) r have i: "i = i1" by simp
    have good: "dedup_good (l_dedup l)" using Cons.prems(1) by (simp add: log_ok_def)
    then have "live (l_dedup l) now \<subseteq> live (l_dedup l1) now"
      using log_append_live [of "(l, d)" now now c i1 k1 v1] a by simp
    then have "i \<in> e_id ` set (l_entries l1) \<union> live (l_dedup l1) now"
      using a i by (auto simp: log_append_cases [OF good] split: if_splits)
    moreover have "set (l_entries l1) \<subseteq> set (l_entries l')" using append_all_entries [OF all] by auto
    moreover have "live (l_dedup l1) now \<subseteq> live (l_dedup l') now"
      using append_all_live [OF ok1, of now now c reqs] all by simp
    ultimately show ?thesis by blast
  qed
qed simp

lemma applied_logged:
  assumes "partition_ok p" and "part_step c id (PApply now) (p, d) = (out, p', d')" and "Applied n res \<in> set out"
  shows "\<exists>cmd \<in> set (pt_apply p). ac_reply cmd = n \<and> logged (pt_log p') (ac_id cmd)"
proof -
  have "1 \<le> pt_batch p" and log: "log_ok (pt_log p, d)" using assms(1) by (auto simp: partition_ok_def log_ok_def)
  from apply_step [OF this(1) assms(2)] obtain rs where
    app: "append_all c now (List.map request (served p)) (pt_log p, d) = (rs, pt_log p', d')"
    and out: "out = List.map2 (\<lambda>cmd r. Applied (ac_reply cmd) r) (served p) rs" by blast
  from assms(3) out obtain cmd where cmd: "cmd \<in> set (served p)" "ac_reply cmd = n"
    by (auto dest: set_zip_leftD)
  then have "(ac_id cmd, ac_key cmd, ac_value cmd) \<in> set (List.map request (served p))" by force
  from append_all_logged [OF log app this] have "logged (pt_log p') (ac_id cmd)"
    by (auto simp: logged_def live_def)
  with cmd show ?thesis by (auto dest: in_set_takeD)
qed

lemma serving_holds:
  assumes "requests_ok nd" and "partition_ok p" and "set (pt_apply p) \<subseteq> set (queues nd)"
    and "part_step c id (PApply now) (p, nd_disk nd) = (out, p', d')"
    and "(n, oc) \<in> set (fst (deliver cfg env out nd'))" and "nd_pending nd' = nd_pending nd"
  shows "\<exists>pd. pending_of n nd = Some pd \<and> logged (pt_log p') (er_id (pd_req pd))"
proof -
  from deliver_outs [OF assms(5)] obtain res pd where res: "Applied n res \<in> set out" and pd: "pending_of n nd = Some pd"
    using assms(6) by (auto simp: pending_of_def)
  from applied_logged [OF assms(2,4) res] obtain cmd where
    cmd: "cmd \<in> set (pt_apply p)" "ac_reply cmd = n" "logged (pt_log p') (ac_id cmd)" by blast
  with queued_request [OF assms(1), of cmd pd] assms(3) pd have "er_id (pd_req pd) = ac_id cmd" by auto
  with pd cmd(3) show ?thesis by auto
qed

text \<open>
  A reply that counts as an acknowledgement means that the node holds the write. The
  exception is a write that comes to the buffer when the load has drained it already
  (\<open>late_buffered\<close>): it is acknowledged all the same (main.go:233). When the load is over,
  \<open>Buffer\<close> does nothing; before that it keeps the write until \<open>FinishLoad\<close> drops it
  (\<open>late_buffered_write_lost\<close>).
\<close>

definition late_buffered :: "node_event \<Rightarrow> node \<Rightarrow> bool" where
  "late_buffered ev nd \<longleftrightarrow>
     (\<exists>n pd. ev = NSend n \<and> pending_of n nd = Some pd \<and> pd_stage pd = ToBuffer) \<and>
     \<not> (status (nd_rs nd) = Loading \<and> (\<exists>ld\<in>set (nd_loaders nd). yet_to_drain ld))"

lemma ack_means_held:
  assumes "node_ok nd" and "node_step c srt psrt cfg ev nd = (outs, nd')" and "(n, Reply r) \<in> set outs"
    and "ack_status (reply_status r)" and "\<not> late_buffered ev nd"
  shows "\<exists>pd. pending_of n nd = Some pd \<and> holds nd' (er_id (pd_req pd))"
proof (cases ev)
  case (NAdmit kind io hdr body)
  then show ?thesis
    using assms(2-4)
    by (cases rule: admit_cases [of kind io hdr body nd]) (auto simp: ack_status_def)
next
  case (NSend m)
  with assms(2,3) obtain pd where pd: "pending_of m nd = Some pd" "pd_stage pd = ToBuffer" "n = m"
    and nd': "nd' = snd (send_to_buffer pd nd)"
    by (auto simp: send_to_buffer_def Let_def split: option.splits req_stage.splits)
  have "holds nd' (er_id (pd_req pd))"
    using assms(5) NSend pd by (auto simp: nd' holds_def send_to_buffer_def Let_def drop_pending_def buffer_write_def
        late_buffered_def)
  with pd show ?thesis by blast
next
  case (NServe now env)
  obtain out p d where st: "part_step c id (PApply now) (nd_part nd, nd_disk nd) = (out, p, d)"
    by (rule prod_cases3)
  have "(n, Reply r) \<in> set (fst (deliver cfg env out (nd\<lparr>nd_part := p, nd_disk := d\<rparr>)))"
    using assms(2,3) NServe by (simp add: serve_def st)
  from serving_holds [OF _ _ _ st this] assms(1) obtain pd where
    "pending_of n nd = Some pd" "logged (pt_log p) (er_id (pd_req pd))"
    by (auto simp: node_ok_def queues_def)
  moreover have "nd' = snd (deliver cfg env out (nd\<lparr>nd_part := p, nd_disk := d\<rparr>))"
    using assms(2) NServe by (simp add: serve_def st)
  then have "nd_part nd' = p" by (simp add: deliver_state)
  ultimately show ?thesis by (auto simp: holds_def)
next
  case (NServeStale k now env)
  with assms(2,3) have k: "k < length (nd_stale nd)" by (auto split: if_splits)
  obtain out p d where st: "part_step c id (PApply now) (nd_stale nd ! k, nd_disk nd) = (out, p, d)"
    by (rule prod_cases3)
  have mem: "(n, Reply r) \<in> set (fst (deliver cfg env out (nd\<lparr>nd_stale := (nd_stale nd)[k := p], nd_disk := d\<rparr>)))"
    using assms(2,3) NServeStale k by (simp add: serve_stale_def st)
  have "requests_ok nd" "partition_ok (nd_stale nd ! k)" "set (pt_apply (nd_stale nd ! k)) \<subseteq> set (queues nd)"
    using assms(1) k by (auto simp: node_ok_def queues_def)
  from serving_holds [OF this st mem] obtain pd where
    "pending_of n nd = Some pd" "logged (pt_log p) (er_id (pd_req pd))" by auto
  moreover have "nd' = snd (deliver cfg env out (nd\<lparr>nd_stale := (nd_stale nd)[k := p], nd_disk := d\<rparr>))"
    using assms(2) NServeStale k by (simp add: serve_stale_def st)
  then have "p \<in> set (nd_stale nd')" using k by (simp add: deliver_state set_update_memI)
  ultimately show ?thesis by (auto simp: holds_def)
qed (use assms(2,3) in \<open>auto simp: case_prod_beta Let_def split: sum.splits if_splits\<close>)
section \<open>The cluster behind a gateway\<close>

text \<open>
  A node that was started and has run to state \<open>nd\<close> answers request \<open>req\<close> with status \<open>st\<close>
  in its next step \<open>ev\<close>, which ends in state \<open>nd'\<close>.
\<close>

definition node_answers :: "node_config \<Rightarrow> event_request \<Rightarrow> nat \<Rightarrow> node \<Rightarrow> node_event \<Rightarrow> node \<Rightarrow> bool" where
  "node_answers cfg req st nd ev nd' \<longleftrightarrow> (\<exists>c srt psrt nd0 evs outs n r.
     started c psrt cfg nd0 \<and> is_sort_slice pt_hash psrt \<and> node_run_ok c srt psrt cfg evs nd0 \<and>
     nd = node_run c srt psrt cfg evs nd0 \<and> node_step c srt psrt cfg ev nd = (outs, nd') \<and>
     (n, Reply r) \<in> set outs \<and> reply_status r = st \<and>
     (\<forall>pd. pending_of n nd = Some pd \<longrightarrow> pd_req pd = req))"

lemma node_answers_holds:
  assumes "node_answers cfg req st nd ev nd'" and "ack_status st" and "\<not> late_buffered ev nd"
  shows "holds nd' (er_id req)"
proof -
  obtain c srt psrt nd0 evs outs n r where
    run: "started c psrt cfg nd0" "is_sort_slice pt_hash psrt" "node_run_ok c srt psrt cfg evs nd0"
      "nd = node_run c srt psrt cfg evs nd0"
    and st: "node_step c srt psrt cfg ev nd = (outs, nd')" "(n, Reply r) \<in> set outs" "reply_status r = st"
    and req: "\<forall>pd. pending_of n nd = Some pd \<longrightarrow> pd_req pd = req"
    using assms(1) unfolding node_answers_def by blast
  have "node_ok nd" unfolding run(4) using run(1-3) by (rule run_node_ok)
  from ack_means_held [OF this st(1,2)] st(3) assms(2,3) req show ?thesis by auto
qed

text \<open>
  The answers of an attempt come from the replicas: node \<open>a\<close> answers the client's request in
  step \<open>ev a\<close>, which takes it from state \<open>pre a\<close> to state \<open>post a\<close>.
\<close>

definition answers_from :: "(string \<Rightarrow> node_config) \<Rightarrow> (string \<Rightarrow> node) \<Rightarrow> (string \<Rightarrow> node_event) \<Rightarrow>
    (string \<Rightarrow> node) \<Rightarrow> event_request \<Rightarrow> string list \<Rightarrow> send_step list \<Rightarrow> bool" where
  "answers_from cfgs pre ev post req rs steps \<longleftrightarrow>
     (\<forall>i st b. i < length rs \<and> answered steps i st b \<longrightarrow>
        node_answers (cfgs (rs ! i)) req st (pre (rs ! i)) (ev (rs ! i)) (post (rs ! i)))"

text \<open>
  C1: When a gateway gives its client a node's answer, at least \<open>w\<close> different replicas (one,
  when the primary replicates by itself) acknowledged the write, and each of them holds it
  when it has answered: in the log or the deduplication set of a partition, or in the buffer
  of a load that has yet to drain it. The one exception is a replica that took the write
  into the buffer after the load had drained it (\<open>late_buffered\<close>): it acknowledges the write
  and does not keep it.
\<close>

theorem accepted_write_held_by_quorum:
  assumes "gw_reachable env gc acts gw"
    and "handle_event env we body gw = (GwReply st ra (NodeBody b), atts, gw')"
    and "answers_from cfgs pre ev post req (fst (last atts)) (last_steps we atts)"
  shows "\<exists>A \<subseteq> set (fst (last atts)).
    (if gw_primary_repl gw then 1 else gw_w gw) \<le> int (card A) \<and>
    (\<forall>a\<in>A. holds (post a) (er_id req) \<or> late_buffered (ev a) (pre a))"
proof -
  let ?rs = "fst (last atts)" and ?steps = "last_steps we atts"
  have "atts \<noteq> [] \<and> quorum_answer gw ?rs ?steps st b"
    by (rule handled_quorum [OF gw_reachable_ok [OF assms(1)] _ assms(2)])
      (use assms(1) in \<open>simp add: gw_reachable_def\<close>)
  then have "need gw \<le> int (card (ackers ?rs ?steps))" by (simp add: quorum_answer_def)
  moreover have "holds (post a) (er_id req) \<or> late_buffered (ev a) (pre a)" if "a \<in> ackers ?rs ?steps" for a
    using that assms(3) node_answers_holds by (fastforce simp: ackers_def answers_from_def)
  moreover have "ackers ?rs ?steps \<subseteq> set ?rs" by (auto simp: ackers_def)
  ultimately show ?thesis unfolding need_def by blast
qed

section \<open>Fencing between gateway and node\<close>

lemma refused_seen:
  assumes "node_step c srt psrt cfg (NAdmit kind io hdr body) nd = (outs, nd')"
    and "(n, Reply (StaleEpoch own e)) \<in> set outs"
  shows "f_seen (nd_fencer nd') = e"
proof -
  obtain r nd1 where ce: "check_epoch io hdr nd = (r, nd1)" by fastforce
  from assms ce have "r = Some (StaleEpoch own e)" and "nd_fencer nd' = nd_fencer nd1"
    by (auto simp: admit_def check_shedding_def Let_def split: option.splits if_splits)
  with ce show ?thesis
    by (auto simp: check_epoch_def fencer_check_def Let_def split: if_splits)
qed

lemma current_header_accepted:
  assumes "f_seen (nd_fencer nd) \<le> e"
  shows "fst (check_epoch io (format_uint (unat e)) nd) = None"
  using assms by (auto simp: check_epoch_def parse_epoch_def parse_format_uint fencer_check_def Let_def not_less)

text \<open>
  C14: A gateway that was fenced off recovers with its next attempt: when the first replica's
  node refuses the write because of its epoch (only the first replica's answer is read, a
  refusal by another one teaches the gateway nothing) and the quorum is missed, there is a
  second attempt, and every request of it passes the epoch check of that node, as long as the
  node has not met a newer epoch since. No other goroutine stores an older epoch over a
  newer one meanwhile: the load and the store of main.go:269 and 315 are two steps.
\<close>

theorem fenced_gateway_recovers:
  assumes "gateway_ok gw" and "is_sort_slice pt_hash (ge_sort env)"
    and "node_step c srt psrt cfg (NAdmit kind io hdr body) nd = (outs, nd')"
    and "(n, Reply (StaleEpoch own e)) \<in> set outs" and "ge_seen env b = Some e"
    and "send env rs (we_first we) gw = (Sent r acks, tr, gw1)" and "acks < need gw"
    and "ps_status r = reply_status (StaleEpoch own e)" and "ps_body r = Some b"
    and "no_raw_steps (we_first we)" and "no_raw (we_while_bump we)" and "no_raw_steps (we_second we)"
    and "attempt_twice env we key rs gw = (reply, atts, gw')"
    and "f_seen (nd_fencer nd2) = f_seen (nd_fencer nd')" and "Request i a p h \<in> set (snd (last atts))"
  shows "length atts = 2 \<and> fst (check_epoch io' h nd2) = None"
proof -
  have st: "ps_status r = 409" using assms(8) by simp
  from retried_requests [OF assms(1,2,6,7) st assms(9,5,10-13)] obtain rs' tr' where
    atts: "atts = [(rs, tr), (rs', tr')]" and ok: "\<forall>ev \<in> set tr'. request_ok rs' e ev" by blast
  with assms(15) obtain e' where "e \<le> e'" "h = format_uint (unat e')"
    by (force simp: request_ok_def)
  moreover have "f_seen (nd_fencer nd2) = e" using refused_seen [OF assms(3,4)] assms(14) by simp
  ultimately show ?thesis using atts current_header_accepted [of nd2 e'] by simp
qed

section \<open>Witness\<close>

text \<open>
  Two nodes without replication of their own, behind a gateway that waits for both: the
  first replica serves the client's request, the second a replica of it.
\<close>

definition cfg_r :: node_config where
  "cfg_r = cfg_a\<lparr>nc_primary := False\<rparr>"

definition node_r :: node where
  "node_r = node_a\<lparr>nd_ring := \<lparr>points = [], nodes = []\<rparr>\<rparr>"

definition waiting_r :: "req_kind \<Rightarrow> node" where
  "waiting_r kind = node_r\<lparr>nd_part := (memory_partition 1)\<lparr>pt_apply := [cmd_a]\<rparr>,
     nd_pending := [pending_a\<lparr>pd_kind := kind\<rparr>], nd_next := 1\<rparr>"

abbreviation admit_r :: "req_kind \<Rightarrow> node_event list" where
  "admit_r kind \<equiv> [NAdmit kind Persists '''' (Some req_a), NSend 0]"

abbreviation serve_r :: node_event where
  "serve_r \<equiv> NServe 1 (\<lambda>_. env_b NetError)"

definition after_r :: "req_kind \<Rightarrow> node" where
  "after_r kind = snd (node_step no_codec (\<lambda>xs. xs) stable cfg_r serve_r (waiting_r kind))"

lemma started_r: "started no_codec stable cfg_r node_r"
proof -
  have "node_start no_codec stable cfg_r [] True True OpenOk 0 ''epoch'' Map.empty empty_disk = Inr node_r"
    using memory_open by (simp add: node_start_def cfg_r_def cfg_a_def fencer_load_def node_r_def node_a_def)
  then show ?thesis unfolding started_def by blast
qed

lemma admit_run_r: "node_run no_codec srt stable cfg_r (admit_r kind) node_r = waiting_r kind"
  by (simp add: admit_def check_epoch_def parse_epoch_def parse_uint_def fencer_check_def Let_def check_shedding_def
      queue_depth_def queue_cap_def rs_check_def is_loading_def rs_init_def add_pending_def node_r_def node_a_def
      memory_partition_def pending_of_def send_to_partition_def set_stage_def part_enqueue_def waiting_r_def)

lemma serve_waiting_r:
  assumes "kind = ClientEvent \<or> kind = ReplicaEvent"
  shows "fst (node_step no_codec srt stable cfg_r serve_r (waiting_r kind)) =
     [(0, Reply (if kind = ClientEvent then CreatedReply 0 else NoContentReply))]"
proof -
  have "part_step no_codec id (PApply 1) (nd_part (waiting_r kind), nd_disk (waiting_r kind)) =
      ([Applied 0 (new_entry log_new 1 ''a'' ''k'' ''v'', True)],
       (memory_partition 1)\<lparr>pt_log := fst (snd (log_append no_codec 1 ''a'' ''k'' ''v'' (log_new, empty_disk))),
         pt_agg := agg_apply (new_entry log_new 1 ''a'' ''k'' ''v'') (agg_new 5 3)\<rparr>, empty_disk)"
    by (simp add: waiting_r_def node_r_def node_a_def memory_partition_def apply_one_def append_to_new part_step.simps(2))
  then show ?thesis
    using assms by (auto simp: serve_def pending_of_def waiting_r_def reply_to_def node_r_def node_a_def Let_def
        cfg_r_def cfg_a_def log_new_def)
qed

lemma node_answers_r:
  assumes "kind = ClientEvent \<and> st = 201 \<or> kind = ReplicaEvent \<and> st = 204"
  shows "node_answers cfg_r req_a st (waiting_r kind) serve_r (after_r kind)"
proof -
  let ?r = "if kind = ClientEvent then CreatedReply 0 else NoContentReply"
  obtain outs nd' where st: "node_step no_codec (\<lambda>xs. xs) stable cfg_r serve_r (waiting_r kind) = (outs, nd')"
    by (metis prod.exhaust)
  have kind: "kind = ClientEvent \<or> kind = ReplicaEvent" using assms by auto
  have "outs = [(0, Reply ?r)]" and nd': "nd' = after_r kind"
    using serve_waiting_r [OF kind, of "\<lambda>xs. xs"] unfolding after_r_def st by simp_all
  then have mem: "(0, Reply ?r) \<in> set outs" by simp
  have ok: "node_run_ok no_codec (\<lambda>xs. xs) stable cfg_r (admit_r kind) node_r" using kind by simp
  have req: "\<forall>pd. pending_of 0 (waiting_r kind) = Some pd \<longrightarrow> pd_req pd = req_a"
    by (simp add: pending_of_def waiting_r_def)
  have "reply_status ?r = st" using assms by auto
  with started_r stable_sorts ok admit_run_r [of "\<lambda>xs. xs" kind, symmetric] st [unfolded nd'] mem req
  show ?thesis unfolding node_answers_def by blast
qed

text \<open>The first of the two replicas is asked for \<open>POST /events\<close>, the other for a replica.\<close>

definition before_two :: "string \<Rightarrow> string \<Rightarrow> node" where
  "before_two first a = waiting_r (if a = first then ClientEvent else ReplicaEvent)"

definition after_two :: "string \<Rightarrow> string \<Rightarrow> node" where
  "after_two first a = after_r (if a = first then ClientEvent else ReplicaEvent)"

lemma accepted_write_held_by_quorum_witness:
  "\<exists>first A. A \<subseteq> {a. holds (after_two first a) ''a''} \<and> 2 \<le> int (card A)"
proof -
  obtain rs tr where h: "handle_event env_g (write_g steps_g) (Some ''body'') (gateway_g [''a'', ''b''] 2 2 False None) =
     (GwReply 201 False (NodeBody (Some ''ok'')), [(rs, tr)], gateway_g [''a'', ''b''] 2 2 False None)"
    using handle_event_g by blast
  have reach: "gw_reachable env_g (config_g [''a'', ''b''] 2 2 False) [] (gateway_g [''a'', ''b''] 2 2 False None)"
    using reachable_g [of "[''a'', ''b'']" 2 2 False "[]" None] by simp
  have dist: "distinct rs"
    using handled_quorum [OF gw_reachable_ok [OF reach] _ h] stable_sorts_points by (simp add: quorum_answer_def)
  have "length rs \<le> 1 \<or> rs ! Suc 0 \<noteq> rs ! 0"
    using dist by (cases rs; cases "tl rs") auto
  then have "answers_from (\<lambda>_. cfg_r) (before_two (rs ! 0)) (\<lambda>_. serve_r) (after_two (rs ! 0)) req_a rs steps_g"
    unfolding answers_from_def answered_def before_two_def after_two_def by (intro allI impI node_answers_r) auto
  then have "answers_from (\<lambda>_. cfg_r) (before_two (rs ! 0)) (\<lambda>_. serve_r) (after_two (rs ! 0)) req_a (fst (last [(rs, tr)]))
      (last_steps (write_g steps_g) [(rs, tr)])"
    by (simp add: last_steps_def)
  from accepted_write_held_by_quorum [OF reach h this]
  obtain A where "2 \<le> int (card A)" "\<forall>a\<in>A. holds (after_two (rs ! 0) a) ''a''"
    by (auto simp: late_buffered_def gateway_g_def)
  then show ?thesis by (intro exI [of _ "rs ! 0"] exI [of _ A]) auto
qed


text \<open>A gateway at epoch 7 meets a node that has seen epoch 9.\<close>

abbreviation env_s :: gw_env where
  "env_s \<equiv> env_g\<lparr>ge_seen := \<lambda>_. Some 9\<rparr>"

abbreviation refused_g :: "send_step list" where
  "refused_g \<equiv> [Begin 0 1, Begin 1 1, End 0 2 (Answer 409 ''seen 9''), End 1 3 NoAnswer]"

definition node_nine :: node where
  "node_nine = node_r\<lparr>nd_fencer := \<lparr>f_seen = 9, f_path = ''epoch''\<rparr>\<rparr>"

definition gateway_nine :: gateway where
  "gateway_nine = (gateway_g [''a'', ''b''] 2 2 False None)\<lparr>gw_epoch := 9,
     gw_breakers := [(''a'', breaker_new 5 (10 * second)), (''b'', (breaker_new 5 (10 * second))\<lparr>failures := 1\<rparr>)]\<rparr>"

lemma send_refused_g:
  "\<exists>tr. send env_s [''a'', ''b''] refused_g (gateway_g [''a'', ''b''] 2 2 False None) =
     (Sent \<lparr>ps_status = 409, ps_body = Some ''seen 9'', ps_err = False\<rparr> 0, tr, gateway_nine)"
  by (simp add: send_def run_posts_Begin run_posts_End posted_def post_begin_def set_breaker_def post_end_def
      breaker_allow_def breaker_new_def breaker_success_def breaker_failure_def for_channel_def Let_def is_ack_def
      no_result_def gateway_g_def gateway_nine_def failed_post_def learn_epoch_def raw_store_def)

lemma second_request_g:
  assumes "rs = [''a'', ''b''] \<or> rs = [''b'', ''a'']"
  shows "Request 0 (rs ! 0) ''/events'' (format_uint 9) \<in>
    set (fst (snd (send env_s rs (we_second (write_g refused_g)) gateway_nine)))"
  using assms by (auto simp: send_def run_posts_Begin run_posts_End posted_def post_begin_def set_breaker_def
      post_end_def breaker_allow_def breaker_new_def breaker_success_def for_channel_def is_ack_def no_result_def
      Let_def gateway_g_def gateway_nine_def)

lemma fenced_gateway_recovers_witness:
  "fst (check_epoch Persists (format_uint 9) node_nine) = None"
proof -
  let ?g = "gateway_g [''a'', ''b''] 2 2 False None"
  obtain tr where s1: "send env_s [''a'', ''b''] (we_first (write_g refused_g)) ?g =
     (Sent \<lparr>ps_status = 409, ps_body = Some ''seen 9'', ps_err = False\<rparr> 0, tr, gateway_nine)"
    using send_refused_g by auto
  obtain rs' where rs': "route ''k'' gateway_nine = Routed rs'" "rs' = [''a'', ''b''] \<or> rs' = [''b'', ''a'']"
    using route_g [of gateway_nine "''k''"] by (auto simp: gateway_nine_def gateway_g_def)
  obtain out tr' gw3 where s2: "send env_s rs' (we_second (write_g refused_g)) gateway_nine = (out, tr', gw3)"
    by (rule prod_cases3)
  obtain reply atts gw' where t: "attempt_twice env_s (write_g refused_g) ''k'' [''a'', ''b''] ?g = (reply, atts, gw')"
    by (rule prod_cases3)
  have "atts = [([''a'', ''b''], tr), (rs', tr')]"
    using t s1 s2 rs' by (simp add: attempt_twice_def wants_retry_def need_def gateway_nine_def gateway_g_def
        reroute_def suspected_def)
  then have mem: "Request 0 (rs' ! 0) ''/events'' (format_uint 9) \<in> set (snd (last atts))"
    using second_request_g [OF rs'(2)] s2 by simp
  have stale: "node_step no_codec (\<lambda>xs. xs) stable cfg_r (NAdmit ClientEvent Persists (format_uint 7) (Some req_a)) node_nine =
      ([(0, Reply (StaleEpoch 7 9))], node_nine\<lparr>nd_next := 1\<rparr>)"
    using parse_format_uint [of 7] by (simp add: admit_def check_epoch_def parse_epoch_def fencer_check_def Let_def node_nine_def node_r_def node_a_def)
  have "length atts = 2 \<and> fst (check_epoch Persists (format_uint 9) node_nine) = None"
    by (rule fenced_gateway_recovers [OF gateway_g_ok _ stale _ _ s1 _ _ _ _ _ _ t _ mem])
      (simp_all add: stable_sorts_points need_def gateway_g_def gateway_nine_def suspected_def no_raw_steps_def no_raw_def)
  then show ?thesis by simp
qed

end
