(* ===== verification/Spec2Isabelle.thy ===== *)
theory Spec2Isabelle
  imports RateLimit Breaker Epoch Reshard HashRing EventLog Recovery Aggregate PartitionLoop
    PartitionRestart Membership ControlPlane Node NodeWrites NodeQueues NodeAcks NodeGuards
    NodeLoads NodeReplays NodeHandlers Gateway GatewayWrites GatewayFailover Resharding Cluster
begin

text \<open>
  StreamShard: a distributed store that counts events. Gateways take writes
  (\<open>POST /events\<close>), limit their rate per key, choose the replicas of the key on a
  consistent-hash ring and wait for a write quorum. Nodes keep an append-only log with a
  write-ahead file and count events per key over a sliding window. A control plane owns the
  epochs that fence off stale writers and moves partitions between nodes. A SWIM-style
  membership feeds the rings of gateways and primaries.

  \<^bold>\<open>Theories and code.\<close> The parts that every binary shares come first, the binaries
  last:

    \<^item> \<open>Prelude\<close>: Go's types, maps as association lists without repeated keys (\<open>gomap\<close>),
      and the interfaces that several parts offer: \<open>machine\<close> (an invariant over a run),
      \<open>rising_machine\<close> (an observation that never goes down), \<open>max_register\<close> and \<open>fence\<close>
      (the highest epoch met). \<open>GoStd\<close>: what the code uses of Go's standard library.
    \<^item> \<open>RateLimit\<close> (\<open>internal/ratelimit\<close>): \<open>bucket_allow\<close>, and \<open>Map.Allow\<close> in the two steps between
      which it gives the lock of the map back, \<open>map_lookup\<close> and \<open>take_token\<close>; \<open>sweep_visit\<close> is
      the sweep's look at one bucket. A key is admitted at most burst + rate * time often, and
      once more for each request whose bucket the sweep took away between its two steps,
      which does happen. No bucket ever holds more than burst tokens, for every monotone
      rounding of \<open>float64\<close>; the bounds on admissions are for exact arithmetic.
    \<^item> \<open>Breaker\<close> (\<open>internal/breaker\<close>): the three states and their transitions.
    \<^item> \<open>Epoch\<close> (\<open>internal/epoch\<close>): the fencer and its file; the outcome of each file operation
      is an argument.
    \<^item> \<open>Reshard\<close> (\<open>internal/reshard\<close>): the transition state of a node.
    \<^item> \<open>HashRing\<close> (\<open>internal/ring\<close>): \<open>ring_new\<close>, \<open>ring_add\<close>, \<open>ring_remove\<close>, \<open>ring_replicas\<close>. The
      abstract specification is \<open>preference\<close>, the nodes in clockwise order; \<open>replica_loop\<close>
      may run forever in the model, so its termination is a theorem.
    \<^item> \<open>Dedup\<close>, \<open>EventLog\<close>, \<open>Recovery\<close> (\<open>internal/log\<close>): the deduplication set against its
      specification \<open>live\<close>; the log (\<open>log_append\<close>, \<open>log_append_batch\<close>, \<open>log_since\<close>,
      \<open>log_compact\<close>, \<open>log_open\<close>) with its files as a \<open>disk\<close>; what a restart rebuilds after a
      clean stop and after a crash that cut the write-ahead file at any byte.
    \<^item> \<open>Aggregate\<close> (\<open>internal/aggregate\<close>): the counters and the queue of timed keys, against
      the count of the events of the window.
    \<^item> \<open>PartitionLoop\<close>, \<open>PartitionRestart\<close> (\<open>internal/partition\<close>): the goroutine that owns a log
      and its aggregate, one \<open>part_step\<close> per received command; batching is transparent,
      queries count the acknowledged writes, and a restart preserves the counts.
    \<^item> \<open>Membership\<close> (\<open>internal/membership\<close>): \<open>merge_event\<close>, \<open>handle_msg\<close>, \<open>probe_end\<close>,
      \<open>check_suspects\<close>, and \<open>net_step\<close>, the network of all members with messages that may be
      lost, repeated and reordered.
    \<^item> \<open>ControlPlane\<close> (\<open>cmd/controlplane\<close>): the epoch store and every handler; \<open>handle_reshard\<close>
      returns the calls it makes to the nodes.
    \<^item> \<open>Node\<close> (\<open>cmd/node\<close>): every handler, split into stages where other requests come in
      between (\<open>admit\<close>, \<open>send_to_buffer\<close> or \<open>send_to_partition\<close>, \<open>serve\<close> with \<open>reply_to\<close>), the
      goroutine that loads a partition (\<open>loader_go\<close>), and \<open>node_step\<close>, which interleaves them.
      \<open>NodeWrites\<close> has the invariant and \<open>NodeQueues\<close> follows a command through the channel of
      its partition; \<open>NodeAcks\<close>, \<open>NodeGuards\<close>, \<open>NodeLoads\<close> and \<open>NodeReplays\<close> (the writes buffered
      during a load) have what follows.
      \<open>NodeHandlers\<close> has the write handlers in one piece and shows that the stages, taken one
      after the other, are these handlers.
    \<^item> \<open>Gateway\<close> (\<open>cmd/gateway\<close>): the state, the background steps (\<open>gw_step\<close>), \<open>send\<close> with the
      goroutines of its posts in any order, and \<open>handle_event\<close> with its retry and failover;
      \<open>handle_event\<close> also returns the requests it made. \<open>GatewayWrites\<close> and
      \<open>GatewayFailover\<close> have the properties.
    \<^item> \<open>Resharding\<close>: control plane, source and target together: a synchronous reshard copies
      the whole log; what a compaction in between and a failed load do to it.
    \<^item> \<open>Cluster\<close>: gateway and nodes together.

  \<^bold>\<open>How concurrency is modelled.\<close> What runs under a mutex, or in the one goroutine that owns
  the data, is one step. A function that gives the lock back in the middle is split there,
  and the steps of others come in between as arguments or as events of a run. Two are not
  split: the guards of a node's write handlers (\<open>admit\<close>), whose two reads of the reshard
  state agree with a single one (\<open>check_and_loading_as_one\<close>) and whose epoch check is
  taken to happen at that moment, and the reaction of a member to one message
  (\<open>handle_msg\<close>), whose second part reads or changes one entry of the map. An
  interface that several parts offer is a locale of \<open>Prelude\<close>, \<open>Dedup\<close> or \<open>GatewayWrites\<close>
  (\<open>kept\<close>: what every background step keeps, the handler keeps), and each is interpreted on
  the model of the code.

  \<^bold>\<open>Arguments of the model.\<close> Clock readings, the outcomes of file operations, the answers
  of other processes, JSON (\<open>codec\<close> and the fields it reads; what is needed of it is a
  hypothesis such as \<open>dec_snap c (enc_snap c snap) = Some snap\<close>), the order of a Go map,
  random choices, and the sorting function behind \<open>sort.Slice\<close>, of which only the documented
  contract \<open>is_sort_slice\<close> is used.

  \<^bold>\<open>Bounds.\<close> \<open>uint64\<close> and \<open>uint32\<close> are words that wrap. No operation has fuel: recursion is
  structural, has a measure, or is the partial function \<open>replica_loop\<close>; loops that
  wait (\<open>collect\<close>, \<open>await_acks\<close>, \<open>poll_loop\<close>, \<open>loader_go\<close>) consume the list of what they receive.

  \<^bold>\<open>Not modelled.\<close> The parsing of flags and the wiring of handlers to a listener; tickers
  and sleeps, whose bodies are steps; logging; the HTTP client and the UDP socket (what
  they return, such as the answer \<open>fetch_epoch\<close> reads, is an argument; the request of
  \<open>notifyFailover\<close>, whose answer the gateway drops, is left out); the periodic \<open>fsync\<close>, which changes no modelled state: the files hold what
  was written to them, and a crash is a write-ahead file cut at a byte. A handler of a node
  that has read the pointer to the partition before a load replaces it is taken to use the
  partition that is current when it sends its command, and so is the goroutine that loads.
  The scripts of \<open>bench\<close>, \<open>demo\<close> and \<open>deploy\<close> are not part of the program.
\<close>

end
